(* ===== verification/Prelude.thy ===== *)
theory Prelude
  imports Main "HOL-Library.Word"
begin

text \<open>
  What every component of the development shares: the C integer types, the identities of
  the kernel's spin locks and sleep channels, the outcome type of a kernel routine
  with its sequencing operator, two predicates on outcomes (total and partial) and their
  rules, and the first-match search that the kernel's table scans perform.
\<close>

section \<open>C integers\<close>

type_synonym u8 = "8 word"
type_synonym u16 = "16 word"
type_synonym u32 = "32 word"

lemma uint_inj_iff [simp]: "uint a = uint b \<longleftrightarrow> a = b"
  by (simp add: word_uint_eq_iff)

unbundle bit_operations_syntax

lemma mask_split: "(x AND NOT m) + (x AND m) = (x :: 'a::len word)"
  by (subst disjunctive_add) (auto simp: bit_simps intro!: bit_eqI)

section \<open>Locks, channels and outcomes\<close>

text \<open>
  The spin locks of the kernel by name. \<open>Cli\<close> is the anonymous entry that a bare
  \<^verbatim>\<open>pushcli()\<close> adds to the nesting depth. A sleep lock is embedded in a buffer or in
  an inode, and is protected by a spin lock of its own.
\<close>

datatype slid = SL_buf nat | SL_inode nat

datatype lock_id =
    Cli | L_ptable | L_kmem | L_bcache | L_ide | L_log | L_icache | L_ftable
  | L_tickslock | L_cons | L_pipe u32 | L_slk slid

text \<open>
  The addresses that are used as sleep channels (\<^verbatim>\<open>p->chan\<close>); a null channel is
  \<^const>\<open>None\<close> of type \<open>chan option\<close>.
\<close>

datatype chan =
    Ch_proc nat | Ch_ticks | Ch_log | Ch_buf nat | Ch_nread u32 | Ch_nwrite u32
  | Ch_slk slid | Ch_input

text \<open>
  A kernel routine run from a state returns a value and a new state, or calls
  \<^verbatim>\<open>panic(msg)\<close> and halts the machine, or gives up the CPU: \<open>Swtch s k\<close> is a \<^verbatim>\<open>swtch()\<close> to
  another stack in state \<open>s\<close>, and \<open>k t\<close> is the rest of the routine once it is switched back to,
  in whatever state \<open>t\<close> the other threads have left. A routine may sleep and be woken again
  without bound, so the outcomes are a codatatype. A dereference of a null pointer is
  \<open>Panic ''nullptr''\<close>.
\<close>

codatatype ('s, 'a) res = Ok 'a 's | Panic string | Swtch 's "'s \<Rightarrow> ('s, 'a) res"

primcorec rbind :: "('s, 'a) res \<Rightarrow> ('a \<Rightarrow> 's \<Rightarrow> ('s, 'b) res) \<Rightarrow> ('s, 'b) res" where
  "rbind r f =
     (case r of
        Ok a s \<Rightarrow> f a s
      | Panic m \<Rightarrow> Panic m
      | Swtch s k \<Rightarrow> Swtch s (\<lambda>t. rbind (k t) f))"

text \<open>
  \<^verbatim>\<open>for(;;)\<close> around a body that sleeps: the body returns \<open>Inl a\<close> to leave the loop with \<open>a\<close>
  and \<open>Inr ()\<close> to go round again, which it does after a \<^verbatim>\<open>sleep\<close>. A body that goes round
  without sleeping would spin for ever; no loop of the kernel does.
\<close>

primcorec sleep_loop_from ::
  "('s \<Rightarrow> ('s, 'a + unit) res) \<Rightarrow> ('s, 'a + unit) res \<Rightarrow> ('s, 'a) res" where
  "sleep_loop_from b r =
     (case r of
        Panic m \<Rightarrow> Panic m
      | Swtch s k \<Rightarrow> Swtch s (\<lambda>t. sleep_loop_from b (k t))
      | Ok x s \<Rightarrow>
         (case x of
            Inl a \<Rightarrow> Ok a s
          | Inr u \<Rightarrow>
             (case b s of
                Panic m \<Rightarrow> Panic m
              | Swtch s' k \<Rightarrow> Swtch s' (\<lambda>t. sleep_loop_from b (k t))
              | Ok y s' \<Rightarrow>
                 (case y of Inl a \<Rightarrow> Ok a s' | Inr v \<Rightarrow> Panic ''spin''))))"

definition sleep_loop :: "('s \<Rightarrow> ('s, 'a + unit) res) \<Rightarrow> 's \<Rightarrow> ('s, 'a) res" where
  "sleep_loop b s = sleep_loop_from b (Ok (Inr ()) s)"

lemma rbind_simps [simp]:
  "rbind (Ok a s) f = f a s"
  "rbind (Panic m) f = Panic m"
  "rbind (Swtch s k) f = Swtch s (\<lambda>t. rbind (k t) f)"
  by (subst rbind.code; simp)+

lemma sleep_loop_unfold:
  "sleep_loop b s =
    (case b s of
       Panic m \<Rightarrow> Panic m
     | Swtch s' k \<Rightarrow> Swtch s' (\<lambda>t. sleep_loop_from b (k t))
     | Ok y s' \<Rightarrow> (case y of Inl a \<Rightarrow> Ok a s' | Inr v \<Rightarrow> Panic ''spin''))"
  unfolding sleep_loop_def by (subst sleep_loop_from.code) simp

lemma sleep_loop_from_simps [simp]:
  "sleep_loop_from b (Ok (Inl a) s) = Ok a s"
  "sleep_loop_from b (Ok (Inr u) s) = sleep_loop b s"
  "sleep_loop_from b (Panic m) = Panic m"
  "sleep_loop_from b (Swtch s k) = Swtch s (\<lambda>t. sleep_loop_from b (k t))"
  by (subst sleep_loop_from.code; simp add: sleep_loop_def)+

text \<open>\<open>succeeds r Q\<close>: the routine returns without sleeping, and what it returns satisfies \<open>Q\<close>.\<close>

definition succeeds :: "('s, 'a) res \<Rightarrow> ('a \<Rightarrow> 's \<Rightarrow> bool) \<Rightarrow> bool" where
  "succeeds r Q = (case r of Ok a s \<Rightarrow> Q a s | Panic m \<Rightarrow> False | Swtch s k \<Rightarrow> False)"

text \<open>
  \<open>safe G R r Q\<close>: the routine never panics; whenever it gives up the CPU the state satisfies
  \<open>G\<close>; and, as long as the other threads take such a state \<open>s\<close> to a state \<open>t\<close> with \<open>R s t\<close>
  before they switch back, what it returns, if it returns, satisfies \<open>Q\<close>.
\<close>

coinductive safe ::
  "('s \<Rightarrow> bool) \<Rightarrow> ('s \<Rightarrow> 's \<Rightarrow> bool) \<Rightarrow> ('s, 'a) res \<Rightarrow> ('a \<Rightarrow> 's \<Rightarrow> bool) \<Rightarrow> bool"
  for G R where
  safe_Ok: "Q a s \<Longrightarrow> safe G R (Ok a s) Q"
| safe_Swtch: "G s \<Longrightarrow> (\<And>t. R s t \<Longrightarrow> safe G R (k t) Q) \<Longrightarrow> safe G R (Swtch s k) Q"

inductive_simps safe_simps [simp]:
  "safe G R (Ok a s) Q"
  "safe G R (Panic m) Q"
  "safe G R (Swtch s k) Q"

text \<open>The values that a routine can return, over all behaviours of the other threads.\<close>

inductive returns :: "('s, 'a) res \<Rightarrow> 'a \<Rightarrow> 's \<Rightarrow> bool" where
  returns_Ok: "returns (Ok a s) a s"
| returns_Swtch: "returns (k t) a u \<Longrightarrow> returns (Swtch s k) a u"

inductive_simps returns_simps [simp]:
  "returns (Ok a s) b t"
  "returns (Panic m) b t"
  "returns (Swtch s k) b t"

named_theorems kdefs \<open>definitions that component proofs unfold\<close>

lemma rbind_cong [fundef_cong]:
  assumes "r = r'" and "\<And>a s. returns r' a s \<Longrightarrow> f a s = f' a s"
  shows "rbind r f = rbind r' f'"
  unfolding assms(1) using assms(2)
proof (coinduction arbitrary: r' rule: res.coinduct_strong)
  case Eq_res
  show ?case
  proof (cases r')
    case (Swtch s k)
    with Eq_res have "\<And>t a u. returns (k t) a u \<Longrightarrow> f a u = f' a u" by auto
    with Swtch show ?thesis by (auto simp: rel_fun_def)
  qed (use Eq_res in auto)
qed

lemma rbind_assoc: "rbind (rbind r f) g = rbind r (\<lambda>a s. rbind (f a s) g)"
proof (coinduction arbitrary: r rule: res.coinduct_strong)
  case Eq_res
  show ?case by (cases r) (auto simp: rel_fun_def)
qed

lemma rbind_Ok_right [simp]: "rbind r Ok = r"
proof (coinduction arbitrary: r rule: res.coinduct_strong)
  case Eq_res
  show ?case by (cases r) (auto simp: rel_fun_def)
qed

lemma rbind_eq_Ok_iff:
  "rbind r f = Ok b t \<longleftrightarrow> (\<exists>a s. r = Ok a s \<and> f a s = Ok b t)"
  by (cases r) auto

lemma rbind_eq_OkE:
  assumes "rbind r f = Ok b t"
  obtains a s where "r = Ok a s" "f a s = Ok b t"
  using assms by (auto simp: rbind_eq_Ok_iff)

lemma returns_rbind: "returns (rbind r f) b t \<longleftrightarrow> (\<exists>a s. returns r a s \<and> returns (f a s) b t)"
proof
  show "returns (rbind r f) b t \<Longrightarrow> \<exists>a s. returns r a s \<and> returns (f a s) b t"
  proof (induction "rbind r f" b t arbitrary: r rule: returns.induct)
    case (returns_Ok a s)
    from returns_Ok.hyps [symmetric] show ?case by (cases r) auto
  next
    case (returns_Swtch k t a u s)
    show ?case
    proof (cases r)
      case (Swtch s' k')
      then have "k t = rbind (k' t) f" using returns_Swtch.hyps(3) by simp
      from returns_Swtch.hyps(2) [OF this] Swtch show ?thesis by auto
    qed (use returns_Swtch.hyps(1) returns_Swtch.hyps(3) [symmetric] in auto)
  qed
  assume "\<exists>a s. returns r a s \<and> returns (f a s) b t"
  then obtain a s where "returns r a s" "returns (f a s) b t" by blast
  then show "returns (rbind r f) b t" by induction auto
qed

lemma succeeds_simps [simp]:
  "succeeds (Ok a s) Q = Q a s" "succeeds (Panic m) Q = False" "succeeds (Swtch s k) Q = False"
  by (simp_all add: succeeds_def)

lemma succeeds_bind [simp]:
  "succeeds (rbind r f) Q = succeeds r (\<lambda>a s. succeeds (f a s) Q)"
  by (cases r) auto

lemma succeeds_mono:
  "succeeds r Q \<Longrightarrow> (\<And>a s. r = Ok a s \<Longrightarrow> Q a s \<Longrightarrow> R a s) \<Longrightarrow> succeeds r R"
  by (cases r) auto

lemma succeeds_iff: "succeeds r Q \<longleftrightarrow> (\<exists>a s. r = Ok a s \<and> Q a s)"
  by (cases r) auto

lemma succeeds_safe: "succeeds r Q \<Longrightarrow> safe G R r Q"
  by (cases r) auto

lemma safe_bind:
  assumes "safe G R r P" and "\<And>a s. P a s \<Longrightarrow> safe G R (f a s) Q"
  shows "safe G R (rbind r f) Q"
  using assms(1)
proof (coinduction arbitrary: r)
  case safe
  then show ?case
  proof (cases r)
    case (Ok a s)
    with safe have "safe G R (f a s) Q" by (simp add: assms(2))
    then show ?thesis unfolding Ok by cases auto
  qed auto
qed

lemma safe_mono:
  assumes "safe G R r P" and "\<And>a s. P a s \<Longrightarrow> Q a s"
  shows "safe G R r Q"
  using safe_bind [OF assms(1), of Ok Q] assms(2) by simp

text \<open>
  The rule for sleeping loops: \<open>J\<close> holds at the head of every round, and a round that is not
  the last one sleeps.
\<close>

lemma safe_sleep_loop:
  assumes J: "J s"
    and body: "\<And>s. J s \<Longrightarrow> safe G R (b s) (\<lambda>x s. case x of Inl a \<Rightarrow> Q a s | Inr u \<Rightarrow> J s)"
    and sleeps: "\<And>s u s'. J s \<Longrightarrow> b s \<noteq> Ok (Inr u) s'"
  shows "safe G R (sleep_loop b s) Q"
proof -
  have "safe G R (sleep_loop_from b r) Q"
    if "safe G R r (\<lambda>x s. case x of Inl a \<Rightarrow> Q a s | Inr u \<Rightarrow> J s)" for r
    using that
  proof (coinduction arbitrary: r)
    case safe
    show ?case
    proof (cases r)
      case (Ok x s)
      show ?thesis
      proof (cases x)
        case (Inr u)
        with safe Ok have "J s" by simp
        from body [OF this] sleeps [OF this] Ok Inr show ?thesis
          by (cases "b s") (auto simp: sleep_loop_unfold split: sum.splits)
      qed (use safe Ok in auto)
    qed (use safe in auto)
  qed
  from this [of "Ok (Inr ()) s"] J show ?thesis by simp
qed

section \<open>Table scans\<close>

text \<open>
  \<open>first_index P xs\<close> is the index at which the loop
  \<^verbatim>\<open>for(p = tab; p < &tab[N]; p++) if(P(*p)) goto found;\<close> stops.
\<close>

fun first_index :: "('a \<Rightarrow> bool) \<Rightarrow> 'a list \<Rightarrow> nat option" where
  "first_index P [] = None"
| "first_index P (x # xs) = (if P x then Some 0 else map_option Suc (first_index P xs))"

lemma first_index_SomeD:
  "first_index P xs = Some i \<Longrightarrow> i < length xs \<and> P (xs ! i) \<and> (\<forall>j<i. \<not> P (xs ! j))"
proof (induction xs arbitrary: i)
  case (Cons x xs)
  then show ?case
    by (auto split: if_splits simp: less_Suc_eq_0_disj)
qed simp

lemma first_index_None_iff: "first_index P xs = None \<longleftrightarrow> (\<forall>x\<in>set xs. \<not> P x)"
  by (induction xs) auto

lemma first_index_SomeI:
  "i < length xs \<Longrightarrow> P (xs ! i) \<Longrightarrow> (\<forall>j<i. \<not> P (xs ! j)) \<Longrightarrow> first_index P xs = Some i"
proof (induction xs arbitrary: i)
  case (Cons x xs)
  show ?case
  proof (cases i)
    case 0
    with Cons.prems show ?thesis by simp
  next
    case (Suc k)
    with Cons.prems have "\<not> P x" by auto
    moreover have "first_index P xs = Some k"
      using Cons.prems Suc by (intro Cons.IH) auto
    ultimately show ?thesis using Suc by simp
  qed
qed simp

lemma first_index_Some_iff:
  "first_index P xs = Some i \<longleftrightarrow> i < length xs \<and> P (xs ! i) \<and> (\<forall>j<i. \<not> P (xs ! j))"
  using first_index_SomeD first_index_SomeI by metis

lemma first_index_exists: "x \<in> set xs \<Longrightarrow> P x \<Longrightarrow> \<exists>i. first_index P xs = Some i"
  using first_index_None_iff [of P xs] by (cases "first_index P xs") auto

end
