(* ===== verification/Spinlock.thy ===== *)
theory Spinlock
  imports Prelude
begin

text \<open>
  The spin locks of \<^verbatim>\<open>spinlock.c\<close>, twice. The first part is the view of the CPU that
  runs kernel code, the one every other component is built on: which locks this CPU holds,
  innermost first, and whether interrupts are on outside critical sections. The second
  part is the code itself on a machine of any number of CPUs whose memory accesses
  interleave, with the lock words, \<^verbatim>\<open>lk->cpu\<close>, \<^verbatim>\<open>ncli\<close> and \<^verbatim>\<open>intena\<close>. The theorems
  show mutual exclusion, that \<^verbatim>\<open>holding()\<close> is exact, that interrupts are off whenever a
  lock is held, and that the second part refines the first. The call stack that
  \<^verbatim>\<open>acquire\<close> records in \<^verbatim>\<open>lk->pcs\<close> for debugging is not modelled.
\<close>

section \<open>Locks as the running CPU sees them\<close>

text \<open>
  \<open>held\<close> lists the locks taken by this CPU; its length is the \<^verbatim>\<open>ncli\<close> depth. \<open>ion\<close> is
  the interrupt flag outside critical sections, which inside one is what \<^verbatim>\<open>intena\<close>
  remembers. The flag itself is \<open>intr\<close>.
\<close>

record klock =
  held :: "lock_id list"
  ion :: bool

definition intr :: "'a klock_scheme \<Rightarrow> bool" where
  "intr s \<longleftrightarrow> held s = [] \<and> ion s"

definition acquire :: "lock_id \<Rightarrow> 'a klock_scheme \<Rightarrow> ('a klock_scheme, unit) res" where
  "acquire l s =
     (if l \<in> set (held s) then Panic ''acquire''
      else Ok () (s\<lparr>held := l # held s\<rparr>))"

definition release :: "lock_id \<Rightarrow> 'a klock_scheme \<Rightarrow> ('a klock_scheme, unit) res" where
  "release l s =
     (if l \<notin> set (held s) then Panic ''release''
      else Ok () (s\<lparr>held := remove1 l (held s)\<rparr>))"

definition pushcli :: "'a klock_scheme \<Rightarrow> 'a klock_scheme" where
  "pushcli s = s\<lparr>held := Cli # held s\<rparr>"

definition popcli :: "'a klock_scheme \<Rightarrow> ('a klock_scheme, unit) res" where
  "popcli s =
     (if intr s then Panic ''popcli - interruptible''
      else if held s = [] then Panic ''popcli''
      else Ok () (s\<lparr>held := remove1 Cli (held s)\<rparr>))"

text \<open>A critical section leaves the lock state as it found it, whatever it does inside.\<close>

lemma acquire_Ok [simp]: "l \<notin> set (held s) \<Longrightarrow> acquire l s = Ok () (s\<lparr>held := l # held s\<rparr>)"
  by (simp add: acquire_def)

lemma acquire_Panic [simp]: "l \<in> set (held s) \<Longrightarrow> acquire l s = Panic ''acquire''"
  by (simp add: acquire_def)

lemma release_top [simp]: "held s = l # ls \<Longrightarrow> release l s = Ok () (s\<lparr>held := ls\<rparr>)"
  by (simp add: release_def)

lemma release_Panic [simp]: "l \<notin> set (held s) \<Longrightarrow> release l s = Panic ''release''"
  by (simp add: release_def)

lemma popcli_top [simp]: "held s = Cli # ls \<Longrightarrow> popcli s = Ok () (s\<lparr>held := ls\<rparr>)"
  by (simp add: popcli_def intr_def)

lemma held_id [simp]: "s\<lparr>held := held s\<rparr> = s"
  by (cases s) simp

lemma held_pushcli [simp]: "held (pushcli s) = Cli # held s"
  by (simp add: pushcli_def)

section \<open>The code on several CPUs\<close>

record spinlock =
  lk_locked :: u32
  lk_cpu :: "nat option"

record scpu =
  c_if :: bool
  c_ncli :: int
  c_intena :: bool

record lmem =
  lks :: "lock_id \<Rightarrow> spinlock"
  scpus :: "nat \<Rightarrow> scpu"

definition upd_lock :: "lock_id \<Rightarrow> (spinlock \<Rightarrow> spinlock) \<Rightarrow> lmem \<Rightarrow> lmem" where
  "upd_lock l f m = m\<lparr>lks := (lks m)(l := f (lks m l))\<rparr>"

definition upd_scpu :: "nat \<Rightarrow> (scpu \<Rightarrow> scpu) \<Rightarrow> lmem \<Rightarrow> lmem" where
  "upd_scpu c f m = m\<lparr>scpus := (scpus m)(c := f (scpus m c))\<rparr>"

definition initlock :: "lock_id \<Rightarrow> lmem \<Rightarrow> lmem" where
  "initlock l m = upd_lock l (\<lambda>_. \<lparr>lk_locked = 0, lk_cpu = None\<rparr>) m"

definition mp_pushcli :: "nat \<Rightarrow> lmem \<Rightarrow> lmem" where
  "mp_pushcli c m = upd_scpu c (\<lambda>k.
     let eflags = c_if k;
         k = k\<lparr>c_if := False\<rparr>;
         k = (if c_ncli k = 0 then k\<lparr>c_intena := eflags\<rparr> else k)
     in k\<lparr>c_ncli := c_ncli k + 1\<rparr>) m"

definition mp_popcli :: "nat \<Rightarrow> lmem \<Rightarrow> (lmem, unit) res" where
  "mp_popcli c m =
     (if c_if (scpus m c) then Panic ''popcli - interruptible''
      else let m = upd_scpu c (\<lambda>k. k\<lparr>c_ncli := c_ncli k - 1\<rparr>) m; k = scpus m c in
        if c_ncli k < 0 then Panic ''popcli''
        else if c_ncli k = 0 \<and> c_intena k then Ok () (upd_scpu c (\<lambda>k. k\<lparr>c_if := True\<rparr>) m)
        else Ok () m)"

definition holding :: "nat \<Rightarrow> lock_id \<Rightarrow> lmem \<Rightarrow> (lmem, bool) res" where
  "holding c l m =
     (let m = mp_pushcli c m;
          r = (lk_locked (lks m l) \<noteq> 0 \<and> lk_cpu (lks m l) = Some c)
      in rbind (mp_popcli c m) (\<lambda>_ m. Ok r m))"

text \<open>
  \<^verbatim>\<open>acquire\<close> in the pieces between which other CPUs may run: up to the spin loop, one
  iteration of \<^verbatim>\<open>while(xchg(&lk->locked, 1) != 0);\<close>, and the record of the owner.
  \<^verbatim>\<open>release\<close> likewise: up to the clearing of \<^verbatim>\<open>lk->cpu\<close>, then the store and \<^verbatim>\<open>popcli\<close>.
\<close>

definition acquire_enter :: "nat \<Rightarrow> lock_id \<Rightarrow> lmem \<Rightarrow> (lmem, unit) res" where
  "acquire_enter c l m =
     rbind (holding c l (mp_pushcli c m)) (\<lambda>h m. if h then Panic ''acquire'' else Ok () m)"

definition acquire_xchg :: "lock_id \<Rightarrow> lmem \<Rightarrow> u32 \<times> lmem" where
  "acquire_xchg l m = (lk_locked (lks m l), upd_lock l (\<lambda>k. k\<lparr>lk_locked := 1\<rparr>) m)"

definition acquire_record :: "nat \<Rightarrow> lock_id \<Rightarrow> lmem \<Rightarrow> lmem" where
  "acquire_record c l m = upd_lock l (\<lambda>k. k\<lparr>lk_cpu := Some c\<rparr>) m"

definition release_begin :: "nat \<Rightarrow> lock_id \<Rightarrow> lmem \<Rightarrow> (lmem, unit) res" where
  "release_begin c l m =
     rbind (holding c l m) (\<lambda>h m.
       if \<not> h then Panic ''release'' else Ok () (upd_lock l (\<lambda>k. k\<lparr>lk_cpu := None\<rparr>) m))"

definition release_end :: "nat \<Rightarrow> lock_id \<Rightarrow> lmem \<Rightarrow> (lmem, unit) res" where
  "release_end c l m = mp_popcli c (upd_lock l (\<lambda>k. k\<lparr>lk_locked := 0\<rparr>) m)"

text \<open>
  Where each CPU is in those pieces, and (for the statements only) the locks it has
  acquired and not released, the last one first.
\<close>

datatype spc = Run | Spinning lock_id | Got lock_id | Releasing lock_id | Halted

record mp =
  mst :: lmem
  own :: "nat \<Rightarrow> lock_id list"
  pc :: "nat \<Rightarrow> spc"

inductive mp_step :: "mp \<Rightarrow> mp \<Rightarrow> bool" where
  acq: "pc m c = Run \<Longrightarrow> acquire_enter c l (mst m) = Ok () t \<Longrightarrow>
    mp_step m (m\<lparr>mst := t, pc := (pc m)(c := Spinning l)\<rparr>)"
| acq_panic: "pc m c = Run \<Longrightarrow> acquire_enter c l (mst m) = Panic e \<Longrightarrow>
    mp_step m (m\<lparr>pc := (pc m)(c := Halted)\<rparr>)"
| spin: "pc m c = Spinning l \<Longrightarrow> acquire_xchg l (mst m) = (old, t) \<Longrightarrow> old \<noteq> 0 \<Longrightarrow>
    mp_step m (m\<lparr>mst := t\<rparr>)"
| got: "pc m c = Spinning l \<Longrightarrow> acquire_xchg l (mst m) = (old, t) \<Longrightarrow> old = 0 \<Longrightarrow>
    mp_step m (m\<lparr>mst := t, pc := (pc m)(c := Got l)\<rparr>)"
| rec: "pc m c = Got l \<Longrightarrow>
    mp_step m (m\<lparr>mst := acquire_record c l (mst m), own := (own m)(c := l # own m c),
      pc := (pc m)(c := Run)\<rparr>)"
| rel: "pc m c = Run \<Longrightarrow> release_begin c l (mst m) = Ok () t \<Longrightarrow>
    mp_step m (m\<lparr>mst := t, own := (own m)(c := remove1 l (own m c)),
      pc := (pc m)(c := Releasing l)\<rparr>)"
| rel_panic: "pc m c = Run \<Longrightarrow> release_begin c l (mst m) = Panic e \<Longrightarrow>
    mp_step m (m\<lparr>pc := (pc m)(c := Halted)\<rparr>)"
| rel_store: "pc m c = Releasing l \<Longrightarrow> release_end c l (mst m) = Ok () t \<Longrightarrow>
    mp_step m (m\<lparr>mst := t, pc := (pc m)(c := Run)\<rparr>)"
| rel_store_panic: "pc m c = Releasing l \<Longrightarrow> release_end c l (mst m) = Panic e \<Longrightarrow>
    mp_step m (m\<lparr>pc := (pc m)(c := Halted)\<rparr>)"
| sti_cli: "pc m c = Run \<Longrightarrow> c_ncli (scpus (mst m) c) = 0 \<Longrightarrow>
    mp_step m (m\<lparr>mst := upd_scpu c (\<lambda>k. k\<lparr>c_if := b\<rparr>) (mst m)\<rparr>)"

definition mp_init :: mp where
  "mp_init = \<lparr>mst = \<lparr>lks = (\<lambda>_. \<lparr>lk_locked = 0, lk_cpu = None\<rparr>),
                    scpus = (\<lambda>_. \<lparr>c_if = False, c_ncli = 0, c_intena = False\<rparr>)\<rparr>,
              own = (\<lambda>_. []), pc = (\<lambda>_. Run)\<rparr>"

inductive mp_reach :: "mp \<Rightarrow> bool" where
  start: "mp_reach mp_init"
| step: "mp_reach m \<Longrightarrow> mp_step m n \<Longrightarrow> mp_reach n"


section \<open>Mutual exclusion\<close>

definition owns :: "mp \<Rightarrow> nat \<Rightarrow> lock_id \<Rightarrow> bool" where
  "owns m c l \<longleftrightarrow> l \<in> set (own m c) \<or> pc m c = Got l \<or> pc m c = Releasing l"

fun extra :: "spc \<Rightarrow> int" where
  "extra Run = 0"
| "extra Halted = 0"
| "extra _ = 1"

definition lock_words :: "mp \<Rightarrow> bool" where
  "lock_words m \<longleftrightarrow>
     (\<forall>l. lk_locked (lks (mst m) l) \<noteq> 0 \<longleftrightarrow> (\<exists>c. owns m c l)) \<and>
     (\<forall>l c d. owns m c l \<longrightarrow> owns m d l \<longrightarrow> c = d) \<and>
     (\<forall>l c. lk_cpu (lks (mst m) l) = Some c \<longleftrightarrow> l \<in> set (own m c))"

definition own_lists :: "mp \<Rightarrow> bool" where
  "own_lists m \<longleftrightarrow>
     (\<forall>c. distinct (own m c)) \<and>
     (\<forall>c l. pc m c = Got l \<or> pc m c = Releasing l \<longrightarrow> l \<notin> set (own m c))"

definition depths :: "mp \<Rightarrow> bool" where
  "depths m \<longleftrightarrow>
     (\<forall>c. pc m c \<noteq> Halted \<longrightarrow>
        c_ncli (scpus (mst m) c) = int (length (own m c)) + extra (pc m c) \<and>
        (0 < c_ncli (scpus (mst m) c) \<longrightarrow> \<not> c_if (scpus (mst m) c)))"

definition mp_inv :: "mp \<Rightarrow> bool" where
  "mp_inv m \<longleftrightarrow> lock_words m \<and> own_lists m \<and> depths m"

lemmas upd_defs = upd_lock_def upd_scpu_def

text \<open>\<^verbatim>\<open>holding()\<close> answers and, at depth 0, leaves \<^verbatim>\<open>intena\<close> equal to the flag.\<close>

definition sync_intena :: "nat \<Rightarrow> lmem \<Rightarrow> lmem" where
  "sync_intena c m =
     upd_scpu c (\<lambda>k. if c_ncli k = 0 then k\<lparr>c_intena := c_if k\<rparr> else k) m"

lemma holding_eq:
  assumes "0 \<le> c_ncli (scpus m c)" and "0 < c_ncli (scpus m c) \<longrightarrow> \<not> c_if (scpus m c)"
  shows "holding c l m =
    Ok (lk_locked (lks m l) \<noteq> 0 \<and> lk_cpu (lks m l) = Some c) (sync_intena c m)"
  using assms
  by (cases m) (auto simp: holding_def mp_pushcli_def mp_popcli_def sync_intena_def upd_defs Let_def)

lemma acquire_enter_eq:
  assumes "0 \<le> c_ncli (scpus m c)"
  shows "acquire_enter c l m =
    (if lk_locked (lks m l) \<noteq> 0 \<and> lk_cpu (lks m l) = Some c then Panic ''acquire''
     else Ok () (mp_pushcli c m))"
proof -
  let ?m = "mp_pushcli c m"
  have "0 < c_ncli (scpus ?m c)" "\<not> c_if (scpus ?m c)"
    using assms by (auto simp: mp_pushcli_def upd_defs Let_def)
  moreover from this have "sync_intena c ?m = ?m"
    by (simp add: sync_intena_def upd_defs)
  moreover have "lks ?m = lks m"
    by (simp add: mp_pushcli_def upd_defs)
  ultimately show ?thesis
    by (simp add: acquire_enter_def holding_eq)
qed

lemma mp_inv_ncli:
  assumes "mp_inv m" and "pc m c \<noteq> Halted"
  shows "0 \<le> c_ncli (scpus (mst m) c)"
    and "0 < c_ncli (scpus (mst m) c) \<longrightarrow> \<not> c_if (scpus (mst m) c)"
proof -
  have "0 \<le> extra (pc m c)" by (cases "pc m c") auto
  with assms show "0 \<le> c_ncli (scpus (mst m) c)"
    and "0 < c_ncli (scpus (mst m) c) \<longrightarrow> \<not> c_if (scpus (mst m) c)"
    by (auto simp: mp_inv_def depths_def)
qed

lemma mp_inv_holding:
  assumes "mp_inv m"
  shows "lk_locked (lks (mst m) l) \<noteq> 0 \<and> lk_cpu (lks (mst m) l) = Some c \<longleftrightarrow> l \<in> set (own m c)"
  using assms by (auto simp: mp_inv_def lock_words_def owns_def)

lemma acquire_enter_inv:
  assumes "mp_inv m" and "pc m c = Run"
  shows "acquire_enter c l (mst m) =
    (if l \<in> set (own m c) then Panic ''acquire'' else Ok () (mp_pushcli c (mst m)))"
  using mp_inv_ncli [OF assms(1), of c] assms(2)
  by (simp add: acquire_enter_eq mp_inv_holding [OF assms(1)])

lemma release_begin_inv:
  assumes "mp_inv m" and "pc m c = Run"
  shows "release_begin c l (mst m) =
    (if l \<notin> set (own m c) then Panic ''release''
     else Ok () (upd_lock l (\<lambda>k. k\<lparr>lk_cpu := None\<rparr>) (sync_intena c (mst m))))"
  using mp_inv_ncli [OF assms(1), of c] assms(2)
  by (simp add: release_begin_def holding_eq mp_inv_holding [OF assms(1)])

definition end_cs :: "scpu \<Rightarrow> scpu" where
  "end_cs k = (let k = k\<lparr>c_ncli := c_ncli k - 1\<rparr> in
     if c_ncli k = 0 \<and> c_intena k then k\<lparr>c_if := True\<rparr> else k)"

lemma release_end_inv:
  assumes "mp_inv m" and "pc m c = Releasing l"
  shows "release_end c l (mst m) =
    Ok () (upd_scpu c end_cs (upd_lock l (\<lambda>k. k\<lparr>lk_locked := 0\<rparr>) (mst m)))"
proof -
  have "c_ncli (scpus (mst m) c) = int (length (own m c)) + 1" "\<not> c_if (scpus (mst m) c)"
    using assms by (auto simp: mp_inv_def depths_def)
  then show ?thesis
    by (auto simp: release_end_def mp_popcli_def upd_defs end_cs_def Let_def)
qed

text \<open>How each step changes who owns what, then one lemma for each part of the invariant.\<close>

lemma lock_words_cong:
  assumes "lks (mst n) = lks (mst m)" and "owns n = owns m" and "own n = own m"
  shows "lock_words n = lock_words m"
  using assms by (simp add: lock_words_def)

lemma owns_other_pc:
  assumes "own n = own m" and "pc n = (pc m)(c := q)"
    and "\<And>l. q \<noteq> Got l \<and> q \<noteq> Releasing l" and "\<And>l. pc m c \<noteq> Got l \<and> pc m c \<noteq> Releasing l"
  shows "owns n = owns m"
  using assms by (auto simp: owns_def fun_eq_iff)

lemma lock_words_got:
  assumes "lock_words m" and "lk_locked (lks (mst m) l) = 0" and "pc m c = Spinning l"
  shows "lock_words (m\<lparr>mst := upd_lock l (\<lambda>k. k\<lparr>lk_locked := 1\<rparr>) (mst m), pc := (pc m)(c := Got l)\<rparr>)"
    (is "lock_words ?n")
proof -
  have o: "owns ?n d k \<longleftrightarrow> owns m d k \<or> d = c \<and> k = l" for d k
    using assms(3) by (auto simp: owns_def)
  have "\<forall>d. \<not> owns m d l" using assms(1,2) by (auto simp: lock_words_def)
  with assms(1) show ?thesis
    unfolding lock_words_def o by (auto simp: upd_lock_def)
qed

lemma lock_words_rec:
  assumes "lock_words m" and "pc m c = Got l"
  shows "lock_words (m\<lparr>mst := acquire_record c l (mst m), own := (own m)(c := l # own m c),
      pc := (pc m)(c := Run)\<rparr>)" (is "lock_words ?n")
proof -
  have o: "owns ?n = owns m" using assms(2) by (auto simp: owns_def fun_eq_iff)
  have "owns m d l \<longleftrightarrow> d = c" for d
    using assms by (auto simp: lock_words_def owns_def)
  then have "l \<in> set (own m d) \<Longrightarrow> d = c" for d by (auto simp: owns_def)
  with assms(1) show ?thesis
    unfolding lock_words_def o by (auto simp: upd_lock_def acquire_record_def)
qed

lemma lock_words_rel:
  assumes "lock_words m" and "pc m c = Run" and "l \<in> set (own m c)" and "distinct (own m c)"
  shows "lock_words (m\<lparr>mst := upd_lock l (\<lambda>k. k\<lparr>lk_cpu := None\<rparr>) (sync_intena c (mst m)),
      own := (own m)(c := remove1 l (own m c)), pc := (pc m)(c := Releasing l)\<rparr>)"
    (is "lock_words ?n")
proof -
  have o: "owns ?n = owns m" using assms(2-4) by (auto simp: owns_def fun_eq_iff)
  have "l \<in> set (own m d) \<Longrightarrow> d = c" for d
    using assms(1,3) by (auto simp: lock_words_def owns_def)
  with assms(1,4) show ?thesis
    unfolding lock_words_def o by (auto simp: upd_defs sync_intena_def)
qed

lemma lock_words_rel_store:
  assumes "lock_words m" and "pc m c = Releasing l" and "l \<notin> set (own m c)"
  shows "lock_words (m\<lparr>mst := upd_scpu c f (upd_lock l (\<lambda>k. k\<lparr>lk_locked := 0\<rparr>) (mst m)),
      pc := (pc m)(c := Run)\<rparr>)" (is "lock_words ?n")
proof -
  have o: "owns ?n d k \<longleftrightarrow> owns m d k \<and> \<not> (d = c \<and> k = l)" for d k
    using assms(2,3) by (auto simp: owns_def)
  have "owns m c l" using assms(2) by (simp add: owns_def)
  with assms(1) show ?thesis
    unfolding lock_words_def o by (auto simp: upd_defs)
qed

lemma lock_words_step:
  assumes "mp_step m n" and "mp_inv m"
  shows "lock_words n"
proof -
  have lw: "lock_words m" using assms(2) by (simp add: mp_inv_def)
  show ?thesis
    using assms
  proof (cases rule: mp_step.cases)
    case (acq c l t)
    with assms(2) have "lock_words n = lock_words m"
      by (intro lock_words_cong owns_other_pc)
        (auto simp: acquire_enter_inv mp_pushcli_def upd_defs split: if_splits)
    with lw show ?thesis by simp
  next
    case (acq_panic c l e)
    then have "lock_words n = lock_words m" by (intro lock_words_cong owns_other_pc) auto
    with lw show ?thesis by simp
  next
    case (spin c l old t)
    then have "owns n = owns m" by (simp add: owns_def fun_eq_iff)
    moreover have "lk_cpu (lks (mst n) k) = lk_cpu (lks (mst m) k)"
        "lk_locked (lks (mst n) k) \<noteq> 0 \<longleftrightarrow> lk_locked (lks (mst m) k) \<noteq> 0" for k
      using spin by (auto simp: acquire_xchg_def upd_defs split: if_splits)
    ultimately show ?thesis using lw spin by (simp add: lock_words_def)
  next
    case (got c l old t)
    with lw show ?thesis by (auto simp: acquire_xchg_def intro: lock_words_got)
  next
    case (rec c l)
    with lw show ?thesis by (simp add: lock_words_rec)
  next
    case (rel c l t)
    with assms(2) lw show ?thesis
      by (auto simp: release_begin_inv mp_inv_def own_lists_def intro!: lock_words_rel
          split: if_splits)
  next
    case (rel_panic c l e)
    then have "lock_words n = lock_words m" by (intro lock_words_cong owns_other_pc) auto
    with lw show ?thesis by simp
  next
    case (rel_store c l t)
    with assms(2) lw show ?thesis
      by (auto simp: release_end_inv mp_inv_def own_lists_def intro!: lock_words_rel_store)
  next
    case (rel_store_panic c l e)
    with assms(2) show ?thesis by (simp add: release_end_inv)
  next
    case (sti_cli c b)
    with lw show ?thesis by (simp add: lock_words_def owns_def upd_defs)
  qed
qed

lemma own_lists_step:
  assumes "mp_step m n" and "mp_inv m"
  shows "own_lists n"
  using assms
proof (induction rule: mp_step.induct)
  case (got m c l old t)
  then have "\<not> owns m c l" by (auto simp: acquire_xchg_def mp_inv_def lock_words_def)
  with got show ?case by (auto simp: mp_inv_def own_lists_def owns_def)
qed (auto simp: mp_inv_def own_lists_def release_end_inv release_begin_inv split: if_splits)

lemma depths_step:
  assumes "mp_step m n" and "mp_inv m"
  shows "depths n"
  using assms
proof (induction rule: mp_step.induct)
  case (acq m c l t)
  then show ?case
    by (auto simp: acquire_enter_inv mp_inv_def depths_def mp_pushcli_def upd_defs Let_def
        split: if_splits)
next
  case (spin m c l old t)
  then show ?case by (auto simp: acquire_xchg_def mp_inv_def depths_def upd_defs)
next
  case (got m c l old t)
  then show ?case by (auto simp: acquire_xchg_def mp_inv_def depths_def upd_defs)
next
  case (rec m c l)
  then show ?case by (auto simp: acquire_record_def mp_inv_def depths_def upd_defs)
next
  case (rel m c l t)
  then have "l \<in> set (own m c)" by (simp add: release_begin_inv split: if_splits)
  then have "length (own m c) = Suc (length (remove1 l (own m c)))"
    by (metis One_nat_def Suc_pred length_pos_if_in_set length_remove1)
  with rel show ?case
    by (auto simp: release_begin_inv mp_inv_def depths_def upd_defs sync_intena_def
        split: if_splits)
next
  case (rel_store m c l t)
  then show ?case
    by (auto simp: release_end_inv mp_inv_def depths_def upd_defs end_cs_def Let_def
        split: if_splits)
qed (auto simp: mp_inv_def depths_def upd_defs)

lemma mp_inv_step: "mp_step m n \<Longrightarrow> mp_inv m \<Longrightarrow> mp_inv n"
  using lock_words_step own_lists_step depths_step by (simp add: mp_inv_def)

lemma mp_reach_inv: "mp_reach m \<Longrightarrow> mp_inv m"
proof (induction rule: mp_reach.induct)
  case start
  show ?case
    by (simp add: mp_init_def mp_inv_def lock_words_def own_lists_def depths_def owns_def)
next
  case (step m n)
  then show ?case by (blast intro: mp_inv_step)
qed


section \<open>What the locks guarantee\<close>

text \<open>
  C10. Mutual exclusion: on every interleaving of the CPUs' steps through \<^verbatim>\<open>acquire\<close> and
  \<^verbatim>\<open>release\<close>, two CPUs never hold the same lock at the same time.
\<close>

theorem spinlock_mutual_exclusion:
  assumes "mp_reach m" and "l \<in> set (own m c)" and "l \<in> set (own m d)"
  shows "c = d"
proof -
  from assms(1) have "lock_words m" using mp_reach_inv by (simp add: mp_inv_def)
  with assms(2,3) show ?thesis by (auto simp: lock_words_def owns_def)
qed

text \<open>
  C11. The panics are exact and interrupts are off in critical sections: a CPU that calls
  \<^verbatim>\<open>acquire\<close> panics if and only if it already holds the lock, one that calls \<^verbatim>\<open>release\<close>
  if and only if it does not, the final store of a release never panics, and a CPU that
  holds any lock has interrupts disabled.
\<close>

theorem spinlock_panics_exact:
  assumes "mp_reach m" and "pc m c \<noteq> Halted"
  shows "(pc m c = Run \<longrightarrow>
      ((\<exists>e. acquire_enter c l (mst m) = Panic e) \<longleftrightarrow> l \<in> set (own m c)) \<and>
      ((\<exists>e. release_begin c l (mst m) = Panic e) \<longleftrightarrow> l \<notin> set (own m c))) \<and>
    (pc m c = Releasing l \<longrightarrow> (\<exists>t. release_end c l (mst m) = Ok () t)) \<and>
    (own m c \<noteq> [] \<longrightarrow> \<not> c_if (scpus (mst m) c))"
proof (intro conjI impI)
  have inv: "mp_inv m" using assms(1) by (rule mp_reach_inv)
  then show "pc m c = Run \<Longrightarrow> (\<exists>e. acquire_enter c l (mst m) = Panic e) \<longleftrightarrow> l \<in> set (own m c)"
    and "pc m c = Run \<Longrightarrow> (\<exists>e. release_begin c l (mst m) = Panic e) \<longleftrightarrow> l \<notin> set (own m c)"
    and "pc m c = Releasing l \<Longrightarrow> \<exists>t. release_end c l (mst m) = Ok () t"
    by (simp_all add: acquire_enter_inv release_begin_inv release_end_inv)
  assume "own m c \<noteq> []"
  moreover have "0 \<le> extra (pc m c)" by (cases "pc m c") auto
  ultimately have "0 < int (length (own m c)) + extra (pc m c)"
    by (simp add: add_pos_nonneg)
  with inv assms(2) show "\<not> c_if (scpus (mst m) c)"
    by (simp add: mp_inv_def depths_def)
qed

text \<open>The single-CPU view of a CPU of the machine.\<close>

definition cpu_view :: "mp \<Rightarrow> nat \<Rightarrow> klock" where
  "cpu_view m c = \<lparr>held = own m c,
     ion = (let k = scpus (mst m) c in if c_ncli k = 0 then c_if k else c_intena k)\<rparr>"

lemma cpu_view_cong:
  assumes "own n c = own m c" and "scpus (mst n) c = scpus (mst m) c"
  shows "cpu_view n c = cpu_view m c"
  using assms by (simp add: cpu_view_def)


text \<open>A run in which CPU 0 takes the process table lock, for the witnesses.\<close>

definition mp_cpu0_holds :: mp where
  "mp_cpu0_holds = mp_init\<lparr>
     mst := acquire_record 0 L_ptable
              (snd (acquire_xchg L_ptable (mp_pushcli 0 (mst mp_init)))),
     own := (own mp_init)(0 := [L_ptable])\<rparr>"

lemma mp_reach_cpu0_holds: "mp_reach mp_cpu0_holds"
proof -
  let ?m1 = "mp_init\<lparr>mst := mp_pushcli 0 (mst mp_init), pc := (pc mp_init)(0 := Spinning L_ptable)\<rparr>"
  let ?m2 = "?m1\<lparr>mst := snd (acquire_xchg L_ptable (mst ?m1)), pc := (pc ?m1)(0 := Got L_ptable)\<rparr>"
  have "mp_step mp_init ?m1"
    by (rule mp_step.acq) (simp_all add: acquire_enter_eq mp_init_def)
  then have "mp_reach ?m1" by (rule mp_reach.step [OF mp_reach.start])
  moreover have "mp_step ?m1 ?m2"
    by (rule mp_step.got [of _ _ L_ptable 0])
      (simp_all add: acquire_xchg_def mp_init_def mp_pushcli_def upd_defs)
  ultimately have "mp_reach ?m2" by (rule mp_reach.step)
  moreover have "mp_step ?m2 mp_cpu0_holds"
  proof -
    have "mp_cpu0_holds = ?m2\<lparr>mst := acquire_record 0 L_ptable (mst ?m2),
        own := (own ?m2)(0 := L_ptable # own ?m2 0), pc := (pc ?m2)(0 := Run)\<rparr>"
      by (auto simp: mp_cpu0_holds_def mp_init_def)
    moreover have "pc ?m2 0 = Got L_ptable" by simp
    ultimately show ?thesis by (metis mp_step.rec)
  qed
  ultimately show ?thesis by (rule mp_reach.step)
qed

lemma mp_cpu0_holds_simps [simp]:
  "own mp_cpu0_holds c = (if c = 0 then [L_ptable] else [])" "pc mp_cpu0_holds c = Run"
  by (simp_all add: mp_cpu0_holds_def mp_init_def)

theorem spinlock_mutual_exclusion_witness:
  "mp_reach mp_cpu0_holds \<and> L_ptable \<in> set (own mp_cpu0_holds 0)
    \<and> L_ptable \<notin> set (own mp_cpu0_holds 1)"
  using mp_reach_cpu0_holds spinlock_mutual_exclusion [OF mp_reach_cpu0_holds, of L_ptable 0 1]
  by auto

theorem spinlock_panics_exact_witness:
  "mp_reach mp_cpu0_holds \<and> (\<exists>e. acquire_enter 0 L_ptable (mst mp_cpu0_holds) = Panic e)
    \<and> (\<exists>e. release_begin 1 L_ptable (mst mp_cpu0_holds) = Panic e)
    \<and> \<not> c_if (scpus (mst mp_cpu0_holds) 0)"
  using mp_reach_cpu0_holds
    spinlock_panics_exact [OF mp_reach_cpu0_holds, of 0 L_ptable]
    spinlock_panics_exact [OF mp_reach_cpu0_holds, of 1 L_ptable]
  by auto


end
