(* ===== verification/Cstring.thy ===== *)
theory Cstring
  imports Prelude
begin

text \<open>
  The memory and string routines of \<^verbatim>\<open>string.c\<close> on a byte-addressed memory. Pointers are
  natural numbers (an object never wraps around the address space) and every store is a
  function update, so aliasing of source and destination is visible. The lemmas give each
  loop a closed form: \<^verbatim>\<open>memmove\<close> copies as if through a temporary whatever the overlap,
  \<^verbatim>\<open>memset\<close> by words equals \<^verbatim>\<open>memset\<close> by bytes, and the string routines agree with
  their descriptions on NUL-terminated prefixes.
\<close>

unbundle bit_operations_syntax

type_synonym bytes = "nat \<Rightarrow> u8"

section \<open>Memory\<close>

fun stosb :: "nat \<Rightarrow> u32 \<Rightarrow> nat \<Rightarrow> bytes \<Rightarrow> bytes" where
  "stosb d c 0 m = m"
| "stosb d c (Suc n) m = stosb (d + 1) c n (m(d := ucast c))"

definition store4 :: "nat \<Rightarrow> u32 \<Rightarrow> bytes \<Rightarrow> bytes" where
  "store4 d w m = m(d := ucast w, d + 1 := ucast (drop_bit 8 w),
     d + 2 := ucast (drop_bit 16 w), d + 3 := ucast (drop_bit 24 w))"

text \<open>The 32-bit load that matches \<open>store4\<close> on a little-endian machine.\<close>

definition load4 :: "nat \<Rightarrow> bytes \<Rightarrow> u32" where
  "load4 d m = ucast (m d) OR push_bit 8 (ucast (m (d + 1)))
     OR push_bit 16 (ucast (m (d + 2))) OR push_bit 24 (ucast (m (d + 3)))"

fun stosl :: "nat \<Rightarrow> u32 \<Rightarrow> nat \<Rightarrow> bytes \<Rightarrow> bytes" where
  "stosl d w 0 m = m"
| "stosl d w (Suc n) m = stosl (d + 4) w n (store4 d w m)"

definition memset :: "nat \<Rightarrow> u32 \<Rightarrow> nat \<Rightarrow> bytes \<Rightarrow> bytes" where
  "memset dst c n m =
     (if dst mod 4 = 0 \<and> n mod 4 = 0 then
        let c = c AND 0xFF in
        stosl dst (push_bit 24 c OR push_bit 16 c OR push_bit 8 c OR c) (n div 4) m
      else stosb dst c n m)"

fun memcmp :: "nat \<Rightarrow> nat \<Rightarrow> nat \<Rightarrow> bytes \<Rightarrow> int" where
  "memcmp s1 s2 0 m = 0"
| "memcmp s1 s2 (Suc n) m =
     (if m s1 \<noteq> m s2 then uint (m s1) - uint (m s2) else memcmp (s1 + 1) (s2 + 1) n m)"

fun copy_up :: "nat \<Rightarrow> nat \<Rightarrow> nat \<Rightarrow> bytes \<Rightarrow> bytes" where
  "copy_up d s 0 m = m"
| "copy_up d s (Suc n) m = copy_up (d + 1) (s + 1) n (m(d := m s))"

fun copy_down :: "nat \<Rightarrow> nat \<Rightarrow> nat \<Rightarrow> bytes \<Rightarrow> bytes" where
  "copy_down d s 0 m = m"
| "copy_down d s (Suc n) m = copy_down (d - 1) (s - 1) n (m(d - 1 := m (s - 1)))"

definition memmove :: "nat \<Rightarrow> nat \<Rightarrow> nat \<Rightarrow> bytes \<Rightarrow> bytes" where
  "memmove dst src n m =
     (if src < dst \<and> src + n > dst then copy_down (dst + n) (src + n) n m
      else copy_up dst src n m)"

definition memcpy :: "nat \<Rightarrow> nat \<Rightarrow> nat \<Rightarrow> bytes \<Rightarrow> bytes" where
  "memcpy dst src n m = memmove dst src n m"

section \<open>Strings\<close>

fun strncmp :: "nat \<Rightarrow> nat \<Rightarrow> nat \<Rightarrow> bytes \<Rightarrow> int" where
  "strncmp p q 0 m = 0"
| "strncmp p q (Suc n) m =
     (if m p \<noteq> 0 \<and> m p = m q then strncmp (p + 1) (q + 1) n m
      else uint (m p) - uint (m q))"

text \<open>
  \<^verbatim>\<open>strncpy\<close> and \<^verbatim>\<open>safestrcpy\<close> take a signed count; the first loop stops when the count
  is used up or a NUL has been copied.
\<close>

fun strncpy_pad :: "nat \<Rightarrow> nat \<Rightarrow> bytes \<Rightarrow> bytes" where
  "strncpy_pad s 0 m = m"
| "strncpy_pad s (Suc n) m = strncpy_pad (s + 1) n (m(s := 0))"

fun strncpy_loop :: "nat \<Rightarrow> nat \<Rightarrow> nat \<Rightarrow> bytes \<Rightarrow> bytes" where
  "strncpy_loop s t 0 m = m"
| "strncpy_loop s t (Suc n) m =
     (let m' = m(s := m t) in
      if m t \<noteq> 0 then strncpy_loop (s + 1) (t + 1) n m' else strncpy_pad (s + 1) n m')"

definition strncpy :: "nat \<Rightarrow> nat \<Rightarrow> int \<Rightarrow> bytes \<Rightarrow> bytes" where
  "strncpy s t n m = strncpy_loop s t (nat n) m"

fun safestrcpy_loop :: "nat \<Rightarrow> nat \<Rightarrow> nat \<Rightarrow> bytes \<Rightarrow> bytes" where
  "safestrcpy_loop s t 0 m = m(s := 0)"
| "safestrcpy_loop s t (Suc n) m =
     (let m' = m(s := m t) in
      if m t \<noteq> 0 then safestrcpy_loop (s + 1) (t + 1) n m' else m'(s + 1 := 0))"

definition safestrcpy :: "nat \<Rightarrow> nat \<Rightarrow> int \<Rightarrow> bytes \<Rightarrow> bytes" where
  "safestrcpy s t n m = (if n \<le> 0 then m else safestrcpy_loop s t (nat (n - 1)) m)"

partial_function (option) strlen_from :: "nat \<Rightarrow> nat \<Rightarrow> bytes \<Rightarrow> nat option" where
  "strlen_from s n m = (if m (s + n) \<noteq> 0 then strlen_from s (n + 1) m else Some n)"

definition strlen :: "nat \<Rightarrow> bytes \<Rightarrow> nat option" where
  "strlen s m = strlen_from s 0 m"

section \<open>Closed forms\<close>

lemma stosb_at: "stosb d c n m a = (if d \<le> a \<and> a < d + n then ucast c else m a)"
  by (induction n arbitrary: d m) auto

lemma store4_at:
  "store4 d w m a = (if d \<le> a \<and> a < d + 4 then ucast (drop_bit (8 * (a - d)) w) else m a)"
proof (cases "d \<le> a \<and> a < d + 4")
  case True
  then obtain k where "a = d + k" "k < 4" by (metis add_less_cancel_left le_Suc_ex)
  moreover from this have "k \<in> {0, 1, 2, 3}" by auto
  ultimately show ?thesis by (auto simp: store4_def)
qed (auto simp: store4_def)

lemma load4_store4 [simp]: "load4 d (store4 d w m) = w"
proof (rule bit_word_eqI)
  fix i assume "i < LENGTH(32)"
  then consider "i < 8" | "8 \<le> i" "i < 16" | "16 \<le> i" "i < 24" | "24 \<le> i" "i < 32" by fastforce
  then show "bit (load4 d (store4 d w m)) i = bit w i"
    by cases (auto simp: load4_def store4_def bit_or_iff bit_push_bit_iff bit_ucast_iff
        bit_drop_bit_eq comp_apply dest: bit_imp_le_length)
qed

lemma load4_store4_other [simp]:
  "e + 4 \<le> d \<or> d + 4 \<le> e \<Longrightarrow> load4 d (store4 e w m) = load4 d m"
  by (auto simp: load4_def store4_at)

lemma load4_cong: "(\<And>i. d \<le> i \<Longrightarrow> i < d + 4 \<Longrightarrow> m i = m' i) \<Longrightarrow> load4 d m = load4 d m'"
  by (simp add: load4_def)

lemma stosl_at:
  "stosl d w n m a =
    (if d \<le> a \<and> a < d + 4 * n then ucast (drop_bit (8 * ((a - d) mod 4)) w) else m a)"
proof (induction n arbitrary: d m)
  case (Suc n)
  have "(a - d) mod 4 = (a - (d + 4)) mod 4" if "d + 4 \<le> a"
  proof -
    from that obtain k where "a = d + 4 + k" by (auto simp: le_iff_add)
    then show ?thesis by simp
  qed
  moreover have "(a - d) mod 4 = a - d" if "d \<le> a" "a < d + 4"
    using that by simp
  ultimately show ?case using Suc.IH [of "d + 4"] by (auto simp: store4_at)
qed auto

lemma byte_of_splat:
  fixes c :: u32
  assumes "k < 4"
  defines "b \<equiv> c AND 0xFF"
  shows "ucast (drop_bit (8 * k) (push_bit 24 b OR push_bit 16 b OR push_bit 8 b OR b)) = (ucast c :: u8)"
proof (rule bit_word_eqI)
  fix i assume "i < LENGTH(8)"
  then have i: "i < 8" by simp
  have b: "bit b j \<longleftrightarrow> bit c j \<and> j < 8" for j
  proof -
    have "b = take_bit 8 c" by (simp add: b_def take_bit_eq_mask mask_eq_exp_minus_1)
    then show ?thesis by (auto simp: bit_simps)
  qed
  have shift: "bit (push_bit (8 * q) b) (8 * k + i) \<longleftrightarrow> q = k \<and> bit c i" if "q < 4" for q
  proof -
    have "8 * q \<le> 8 * k + i \<and> 8 * k + i - 8 * q < 8 \<longleftrightarrow> q = k"
      using i by (cases "q = k"; cases "q < k") auto
    moreover have "8 * k + i < 32" using i assms(1) by linarith
    ultimately show ?thesis by (auto simp: bit_push_bit_iff b)
  qed
  have "bit (push_bit 24 b OR push_bit 16 b OR push_bit 8 b OR b) (8 * k + i) \<longleftrightarrow> bit c i"
  proof -
    have "k = 3 \<or> k = 2 \<or> k = 1 \<or> k = 0" using assms(1) by linarith
    with shift [of 3] shift [of 2] shift [of 1] shift [of 0] show ?thesis
      unfolding bit_or_iff by auto
  qed
  then show "bit (ucast (drop_bit (8 * k) (push_bit 24 b OR push_bit 16 b OR push_bit 8 b OR b)) :: u8) i
      = bit (ucast c :: u8) i"
    using i by (simp only: bit_ucast_iff bit_drop_bit_eq comp_apply)
qed

text \<open>
  \<^verbatim>\<open>memset\<close> fills exactly the \<open>n\<close> bytes from \<open>dst\<close> with the low byte of \<open>c\<close>, whether
  it stores words or bytes.
\<close>

theorem memset_correct:
  "memset dst c n m = (\<lambda>a. if dst \<le> a \<and> a < dst + n then ucast c else m a)"
proof (cases "dst mod 4 = 0 \<and> n mod 4 = 0")
  case True
  then have "4 * (n div 4) = n" by auto
  let ?c = "c AND 0xFF"
  let ?w = "push_bit 24 ?c OR push_bit 16 ?c OR push_bit 8 ?c OR ?c"
  have "memset dst c n m = stosl dst ?w (n div 4) m"
    unfolding memset_def Let_def using True by (simp only: if_True simp_thms)
  moreover have "ucast (drop_bit (8 * (k mod 4)) ?w) = (ucast c :: u8)" for k
    by (rule byte_of_splat) simp
  ultimately show ?thesis
    unfolding fun_eq_iff using \<open>4 * (n div 4) = n\<close> by (auto simp only: stosl_at)
next
  case False
  then show ?thesis by (auto simp: memset_def stosb_at)
qed

lemma copy_up_at:
  assumes "d \<le> s \<or> s + n \<le> d"
  shows "copy_up d s n m a = (if d \<le> a \<and> a < d + n then m (s + (a - d)) else m a)"
  using assms
proof (induction n arbitrary: d s m)
  case (Suc n)
  have IH: "copy_up (d + 1) (s + 1) n (m(d := m s)) a =
      (if d + 1 \<le> a \<and> a < d + 1 + n then (m(d := m s)) (s + 1 + (a - (d + 1))) else (m(d := m s)) a)"
    using Suc.prems by (intro Suc.IH) auto
  consider "a < d" | "a = d" | "d + 1 \<le> a" by linarith
  then show ?case
  proof cases
    case 3
    then have "s + 1 + (a - (d + 1)) = s + (a - d)" by simp
    moreover have "s + (a - d) \<noteq> d" if "a < d + Suc n" using 3 that Suc.prems by linarith
    ultimately show ?thesis using 3 IH by auto
  qed (use IH in auto)
qed auto

lemma copy_down_at:
  assumes "s < d"
  shows "copy_down (d + n) (s + n) n m a = (if d \<le> a \<and> a < d + n then m (s + (a - d)) else m a)"
  using assms
  by (induction n arbitrary: m) auto

text \<open>
  C22. \<^verbatim>\<open>memmove\<close> is a simultaneous copy of \<open>n\<close> bytes, for every overlap of source and
  destination, and touches nothing else.
\<close>

theorem memmove_correct:
  "memmove dst src n m = (\<lambda>a. if dst \<le> a \<and> a < dst + n then m (src + (a - dst)) else m a)"
  by (auto simp: memmove_def copy_down_at copy_up_at fun_eq_iff)

lemma memcmp_eq_0_iff: "memcmp p q n m = 0 \<longleftrightarrow> (\<forall>i<n. m (p + i) = m (q + i))"
  by (induction n arbitrary: p q) (auto simp: less_Suc_eq_0_disj)

text \<open>The string of at most \<open>n\<close> bytes at a pointer, up to its NUL.\<close>

definition region :: "bytes \<Rightarrow> nat \<Rightarrow> nat \<Rightarrow> u8 list" where
  "region m p n = map (\<lambda>i. m (p + i)) [0..<n]"

definition cstr :: "nat \<Rightarrow> u8 list \<Rightarrow> u8 list" where
  "cstr n xs = takeWhile (\<lambda>c. c \<noteq> 0) (take n xs)"

lemma region_0 [simp]: "region m p 0 = []"
  by (simp add: region_def)

lemma region_Suc: "region m p (Suc n) = m p # region m (p + 1) n"
  by (simp add: region_def map_upt_Suc del: upt_Suc)

lemma length_region [simp]: "length (region m p n) = n"
  by (simp add: region_def)

lemma nth_region [simp]: "i < n \<Longrightarrow> region m p n ! i = m (p + i)"
  by (simp add: region_def)

text \<open>Padding to a fixed width, as \<^verbatim>\<open>strncpy\<close> leaves its destination.\<close>

definition strncpy_list :: "nat \<Rightarrow> u8 list \<Rightarrow> u8 list" where
  "strncpy_list n t = (let c = cstr n t in c @ replicate (n - length c) 0)"

lemma cstr_Suc: "cstr (Suc n) (x # xs) = (if x \<noteq> 0 then x # cstr n xs else [])"
  by (simp add: cstr_def)

lemma strncmp_eq_0_iff:
  "strncmp p q n m = 0 \<longleftrightarrow> cstr n (region m p n) = cstr n (region m q n)"
proof (induction n arbitrary: p q)
  case 0
  show ?case by (simp add: cstr_def)
next
  case (Suc n)
  show ?case
  proof (cases "m p = m q")
    case True
    then show ?thesis using Suc.IH [of "p + 1" "q + 1"] by (simp add: region_Suc cstr_Suc)
  next
    case False
    then show ?thesis by (auto simp: region_Suc cstr_Suc)
  qed
qed

text \<open>
  \<^verbatim>\<open>strncmp\<close> compares as strings: it returns 0 exactly when the two strings agree up to
  their first NUL or \<open>n\<close> bytes.
\<close>

theorem strncmp_correct:
  "strncmp p q n m = 0 \<longleftrightarrow> cstr n (region m p n) = cstr n (region m q n)"
  by (rule strncmp_eq_0_iff)

lemma strncpy_pad_at: "strncpy_pad s n m a = (if s \<le> a \<and> a < s + n then 0 else m a)"
  by (induction n arbitrary: s m) auto

lemma strncpy_pad_region: "region (strncpy_pad s n m) s n = replicate n 0"
  by (rule nth_equalityI) (auto simp: strncpy_pad_at)

lemma region_cong: "(\<And>i. i < n \<Longrightarrow> m (p + i) = m' (p + i)) \<Longrightarrow> region m p n = region m' p n"
  by (simp add: region_def)

lemma strncpy_loop_outside:
  "\<not> (s \<le> a \<and> a < s + n) \<Longrightarrow> strncpy_loop s t n m a = m a"
  by (induction n arbitrary: s t m) (auto simp: Let_def strncpy_pad_at)

lemma strncpy_list_Suc:
  "strncpy_list (Suc n) (x # xs) =
    (if x \<noteq> 0 then x # strncpy_list n xs else replicate (Suc n) 0)"
  by (simp add: strncpy_list_def cstr_Suc Let_def)

lemma strncpy_loop_region:
  assumes "s + n \<le> t \<or> t + n \<le> s"
  shows "region (strncpy_loop s t n m) s n = strncpy_list n (region m t n)"
  using assms
proof (induction n arbitrary: s t m)
  case 0
  show ?case by (simp add: strncpy_list_def cstr_def)
next
  case (Suc n)
  let ?m = "m(s := m t)"
  have eq: "region ?m (t + 1) n = region m (t + 1) n"
    using Suc.prems by (intro region_cong) auto
  show ?case
  proof (cases "m t = 0")
    case True
    have "region (strncpy_pad (s + 1) n ?m) s (Suc n) = 0 # replicate n 0"
      using True by (simp add: region_Suc strncpy_pad_region strncpy_pad_at del: strncpy_pad.simps)
    with True show ?thesis
      by (simp add: region_Suc [of m] strncpy_list_Suc Let_def)
  next
    case False
    have "region (strncpy_loop (s + 1) (t + 1) n ?m) (s + 1) n = strncpy_list n (region m (t + 1) n)"
    proof -
      have "s + 1 + n \<le> t + 1 \<or> t + 1 + n \<le> s + 1" using Suc.prems by auto
      from Suc.IH [OF this, of ?m] show ?thesis unfolding eq .
    qed
    moreover have "strncpy_loop (s + 1) (t + 1) n ?m s = m t"
      by (simp add: strncpy_loop_outside)
    ultimately show ?thesis
      using False by (simp add: region_Suc strncpy_list_Suc Let_def)
  qed
qed

lemma safestrcpy_loop_outside:
  "\<not> (s \<le> a \<and> a < s + Suc n) \<Longrightarrow> safestrcpy_loop s t n m a = m a"
  by (induction n arbitrary: s t m) (auto simp: Let_def)

lemma safestrcpy_loop_string:
  assumes "s + Suc n \<le> t \<or> t + n \<le> s"
  shows "cstr (Suc n) (region (safestrcpy_loop s t n m) s (Suc n)) = cstr n (region m t n)
    \<and> (\<exists>i\<le>n. safestrcpy_loop s t n m (s + i) = 0)"
  using assms
proof (induction n arbitrary: s t m)
  case 0
  show ?case by (simp add: region_Suc cstr_def)
next
  case (Suc n)
  let ?m = "m(s := m t)"
  have eq: "region ?m (t + 1) n = region m (t + 1) n"
    using Suc.prems by (intro region_cong) auto
  show ?case
  proof (cases "m t = 0")
    case True
    then show ?thesis
      by (auto simp: region_Suc [of m] region_Suc [of _ s] cstr_Suc Let_def)
  next
    case False
    have IH: "cstr (Suc n) (region (safestrcpy_loop (s + 1) (t + 1) n ?m) (s + 1) (Suc n))
        = cstr n (region m (t + 1) n)
        \<and> (\<exists>i\<le>n. safestrcpy_loop (s + 1) (t + 1) n ?m (s + 1 + i) = 0)"
    proof -
      have "s + 1 + Suc n \<le> t + 1 \<or> t + 1 + n \<le> s + 1" using Suc.prems by auto
      from Suc.IH [OF this, of ?m] show ?thesis unfolding eq .
    qed
    moreover have "safestrcpy_loop (s + 1) (t + 1) n ?m s = m t"
      by (simp add: safestrcpy_loop_outside)
    moreover from IH obtain i where "i \<le> n" "safestrcpy_loop (s + 1) (t + 1) n ?m (s + Suc i) = 0"
      by auto
    ultimately show ?thesis
      using False by (auto simp: region_Suc [of m] region_Suc [of _ s] cstr_Suc Let_def
          intro!: exI [of _ "Suc i"])
  qed
qed

text \<open>The list form of \<^verbatim>\<open>safestrcpy\<close> into an \<open>n\<close>-byte field, used by the process table.\<close>

definition safestrcpy_list :: "nat \<Rightarrow> u8 list \<Rightarrow> u8 list" where
  "safestrcpy_list n t = cstr (n - 1) t @ [0]"

text \<open>
  \<^verbatim>\<open>safestrcpy\<close> always NUL-terminates: for a positive size and no overlap, the
  destination holds the source string cut at \<open>n - 1\<close> bytes, there is a NUL among its \<open>n\<close>
  bytes, and no byte outside them is written.
\<close>

theorem safestrcpy_correct:
  assumes "0 < n" and "s + nat n \<le> t \<or> t + nat n \<le> s"
  shows "cstr (nat n) (region (safestrcpy s t n m) s (nat n)) = cstr (nat n - 1) (region m t (nat n - 1))
    \<and> (\<exists>i<nat n. safestrcpy s t n m (s + i) = 0)
    \<and> (\<forall>a. a < s \<or> s + nat n \<le> a \<longrightarrow> safestrcpy s t n m a = m a)"
proof -
  define k where "k = nat (n - 1)"
  have k: "nat n = Suc k" using assms(1) by (simp add: k_def)
  have "s + Suc k \<le> t \<or> t + k \<le> s" using assms(2) k by auto
  from safestrcpy_loop_string [OF this, of m] k assms(1)
  show ?thesis
    by (auto simp: safestrcpy_def less_Suc_eq_le safestrcpy_loop_outside k_def [symmetric])
qed

theorem safestrcpy_correct_witness:
  "cstr 4 (region (safestrcpy 8 0 4 (\<lambda>_. 65)) 8 4) = cstr 3 (region (\<lambda>_. 65) 0 3)
    \<and> (\<exists>i<4. safestrcpy 8 0 4 (\<lambda>_. 65) (8 + i) = 0)"
  using safestrcpy_correct [of 4 8 0 "\<lambda>_. 65"] by simp

lemma strlen_from_step: "m (s + n) \<noteq> 0 \<Longrightarrow> strlen_from s n m = strlen_from s (n + 1) m"
  by (subst strlen_from.simps) simp

text \<open>
  \<^verbatim>\<open>strlen\<close> returns on every NUL-terminated string, with the index of its first NUL.
\<close>

theorem strlen_correct:
  assumes "m (s + k) = 0" and "\<forall>i<k. m (s + i) \<noteq> 0"
  shows "strlen s m = Some k"
proof -
  have "strlen_from s (k - j) m = Some k" if "j \<le> k" for j
    using that
  proof (induction j)
    case 0
    then show ?case using assms(1) by (subst strlen_from.simps) simp
  next
    case (Suc j)
    then have "k - Suc j < k" by simp
    with assms(2) have "m (s + (k - Suc j)) \<noteq> 0" by blast
    from strlen_from_step [of m s "k - Suc j", OF this] Suc show ?case
      by (simp add: Suc_diff_Suc)
  qed
  from this [of k] show ?thesis by (simp add: strlen_def)
qed

theorem strlen_correct_witness: "strlen 10 (\<lambda>a. if a = 12 then 0 else 65) = Some 2"
  using strlen_correct [of "\<lambda>a. if a = 12 then 0 else 65" 10 2] by simp

end
