(* ===== verification/Sched.thy ===== *)
theory Sched
  imports Spinlock Cstring
begin

text \<open>
  The process table and the scheduler: \<^verbatim>\<open>proc.h\<close>, the scheduling half of \<^verbatim>\<open>proc.c\<close>
  (\<^verbatim>\<open>mycpu\<close>, \<^verbatim>\<open>myproc\<close>, \<^verbatim>\<open>scheduler\<close>, \<^verbatim>\<open>sched\<close>, \<^verbatim>\<open>yield\<close>, \<^verbatim>\<open>sleep\<close>, \<^verbatim>\<open>wakeup\<close>, \<^verbatim>\<open>kill\<close>),
  the table scan of \<^verbatim>\<open>sys_setpriority\<close> and the two functions of \<^verbatim>\<open>vm.c\<close> that load an
  address space. Pointers into the process table are indices; a null pointer is
  \<^const>\<open>None\<close>. Where a function calls \<^verbatim>\<open>swtch()\<close>, its model is a \<^const>\<open>Swtch\<close> whose
  continuation is the code after the call.
\<close>

section \<open>Data\<close>

definition NPROC :: nat where "NPROC = 64"
definition NOFILE :: nat where "NOFILE = 16"
definition NCPU :: nat where "NCPU = 8"
definition KSTACKSIZE :: u32 where "KSTACKSIZE = 4096"
definition MAX_PRIORITY :: int where "MAX_PRIORITY = 5"
definition MIN_PRIORITY :: int where "MIN_PRIORITY = 1"
definition AGING_THRESHOLD :: int where "AGING_THRESHOLD = 100"
definition KERNBASE :: u32 where "KERNBASE = 0x80000000"
definition V2P :: "u32 \<Rightarrow> u32" where "V2P a = a - KERNBASE"
definition P2V :: "u32 \<Rightarrow> u32" where "P2V a = a + KERNBASE"

datatype procstate = UNUSED | EMBRYO | SLEEPING | RUNNABLE | RUNNING | ZOMBIE

record trapframe =
  tf_edi :: u32
  tf_esi :: u32
  tf_ebp :: u32
  tf_oesp :: u32
  tf_ebx :: u32
  tf_edx :: u32
  tf_ecx :: u32
  tf_eax :: u32
  tf_gs :: u16
  tf_fs :: u16
  tf_es :: u16
  tf_ds :: u16
  tf_trapno :: u32
  tf_err :: u32
  tf_eip :: u32
  tf_cs :: u16
  tf_eflags :: u32
  tf_esp :: u32
  tf_ss :: u16

record proc =
  p_sz :: u32
  p_pgdir :: u32
  p_kstack :: u32
  p_state :: procstate
  p_pid :: int
  p_parent :: "nat option"
  p_tfp :: u32
  p_tf :: trapframe
  p_context :: u32
  p_chan :: "chan option"
  p_killed :: bool
  p_ofile :: "nat option list"
  p_cwd :: "nat option"
  p_name :: "u8 list"
  p_priority :: int
  p_ticks_waiting :: int

record cpu =
  c_apicid :: u8
  c_esp0 :: u32
  c_cr3 :: u32
  c_proc :: "nat option"

record ptab = klock +
  procs :: "proc list"
  nextpid :: int
  initproc :: "nat option"
  cpus :: "cpu list"
  lapicid :: u8
  kpgdir :: u32

definition upd_proc :: "nat \<Rightarrow> (proc \<Rightarrow> proc) \<Rightarrow> 'a ptab_scheme \<Rightarrow> 'a ptab_scheme" where
  "upd_proc i f s = s\<lparr>procs := (procs s)[i := f (procs s ! i)]\<rparr>"

definition upd_cpu :: "nat \<Rightarrow> (cpu \<Rightarrow> cpu) \<Rightarrow> 'a ptab_scheme \<Rightarrow> 'a ptab_scheme" where
  "upd_cpu c f s = s\<lparr>cpus := (cpus s)[c := f (cpus s ! c)]\<rparr>"

section \<open>The running CPU and process\<close>

definition mycpu :: "'a ptab_scheme \<Rightarrow> ('a ptab_scheme, nat) res" where
  "mycpu s =
     (if intr s then Panic (''mycpu called with interrupts enabled'' @ [CHR 0x0A])
      else case first_index (\<lambda>c. c_apicid c = lapicid s) (cpus s) of
          None \<Rightarrow> Panic (''unknown apicid'' @ [CHR 0x0A])
        | Some i \<Rightarrow> Ok i s)"

definition myproc :: "'a ptab_scheme \<Rightarrow> ('a ptab_scheme, nat option) res" where
  "myproc s =
     rbind (mycpu (pushcli s)) (\<lambda>c s.
       let p = c_proc (cpus s ! c) in
       rbind (popcli s) (\<lambda>_ s. Ok p s))"

text \<open>
  \<^verbatim>\<open>lcr3\<close> writes the page table register of the executing CPU. The segment descriptors
  that \<^verbatim>\<open>switchuvm\<close> sets to constants are not modelled.
\<close>

definition lcr3 :: "u32 \<Rightarrow> 'a ptab_scheme \<Rightarrow> 'a ptab_scheme" where
  "lcr3 v s = (case first_index (\<lambda>c. c_apicid c = lapicid s) (cpus s) of
     None \<Rightarrow> s | Some c \<Rightarrow> upd_cpu c (\<lambda>k. k\<lparr>c_cr3 := v\<rparr>) s)"

definition switchkvm :: "'a ptab_scheme \<Rightarrow> 'a ptab_scheme" where
  "switchkvm s = lcr3 (V2P (kpgdir s)) s"

definition switchuvm :: "nat option \<Rightarrow> 'a ptab_scheme \<Rightarrow> ('a ptab_scheme, unit) res" where
  "switchuvm q s =
     (case q of
        None \<Rightarrow> Panic ''switchuvm: no process''
      | Some i \<Rightarrow>
          let p = procs s ! i in
          if p_kstack p = 0 then Panic ''switchuvm: no kstack''
          else if p_pgdir p = 0 then Panic ''switchuvm: no pgdir''
          else rbind (mycpu (pushcli s)) (\<lambda>c s.
            popcli (lcr3 (V2P (p_pgdir p))
              (upd_cpu c (\<lambda>k. k\<lparr>c_esp0 := p_kstack p + KSTACKSIZE\<rparr>) s))))"

text \<open>\<^verbatim>\<open>myproc()->killed\<close>, as the blocking system calls test it.\<close>

definition myproc_killed :: "'a ptab_scheme \<Rightarrow> ('a ptab_scheme, bool) res" where
  "myproc_killed s =
     rbind (myproc s) (\<lambda>p s. case p of None \<Rightarrow> Panic ''nullptr'' | Some i \<Rightarrow> Ok (p_killed (procs s ! i)) s)"

section \<open>Giving up the CPU\<close>

definition sched :: "'a ptab_scheme \<Rightarrow> ('a ptab_scheme, unit) res" where
  "sched s =
     rbind (myproc s) (\<lambda>p s.
       if L_ptable \<notin> set (held s) then Panic ''sched ptable.lock''
       else if length (held s) \<noteq> 1 then Panic ''sched locks''
       else case p of
           None \<Rightarrow> Panic ''nullptr''
         | Some i \<Rightarrow>
             if p_state (procs s ! i) = RUNNING then Panic ''sched running''
             else if intr s then Panic ''sched interruptible''
             else let intena = ion s in Swtch s (\<lambda>s. Ok () (s\<lparr>ion := intena\<rparr>)))"

definition yield :: "'a ptab_scheme \<Rightarrow> ('a ptab_scheme, unit) res" where
  "yield s =
     rbind (acquire L_ptable s) (\<lambda>_ s.
     rbind (myproc s) (\<lambda>p s.
       case p of None \<Rightarrow> Panic ''nullptr''
       | Some i \<Rightarrow>
           rbind (sched (upd_proc i (\<lambda>p. p\<lparr>p_state := RUNNABLE\<rparr>) s)) (\<lambda>_ s.
             release L_ptable s)))"

definition sleep :: "chan \<Rightarrow> lock_id option \<Rightarrow> 'a ptab_scheme \<Rightarrow> ('a ptab_scheme, unit) res" where
  "sleep ch lk s =
     rbind (myproc s) (\<lambda>p s.
       case p of None \<Rightarrow> Panic ''sleep''
       | Some i \<Rightarrow>
         (case lk of None \<Rightarrow> Panic ''sleep without lk''
          | Some l \<Rightarrow>
              rbind (if l \<noteq> L_ptable
                     then rbind (acquire L_ptable s) (\<lambda>_ s. release l s)
                     else Ok () s) (\<lambda>_ s.
              rbind (sched (upd_proc i (\<lambda>p. p\<lparr>p_chan := Some ch, p_state := SLEEPING\<rparr>) s)) (\<lambda>_ s.
                let s = upd_proc i (\<lambda>p. p\<lparr>p_chan := None\<rparr>) s in
                if l \<noteq> L_ptable then rbind (release L_ptable s) (\<lambda>_ s. acquire l s)
                else Ok () s))))"

definition wake :: "chan option \<Rightarrow> proc \<Rightarrow> proc" where
  "wake ch p = (if p_state p = SLEEPING \<and> p_chan p = ch then p\<lparr>p_state := RUNNABLE\<rparr> else p)"

definition wakeup1 :: "chan option \<Rightarrow> 'a ptab_scheme \<Rightarrow> 'a ptab_scheme" where
  "wakeup1 ch s = s\<lparr>procs := map (wake ch) (procs s)\<rparr>"

definition wakeup :: "chan option \<Rightarrow> 'a ptab_scheme \<Rightarrow> ('a ptab_scheme, unit) res" where
  "wakeup ch s =
     rbind (acquire L_ptable s) (\<lambda>_ s. release L_ptable (wakeup1 ch s))"

section \<open>Kill and priorities\<close>

definition kill :: "int \<Rightarrow> 'a ptab_scheme \<Rightarrow> ('a ptab_scheme, int) res" where
  "kill pid s =
     rbind (acquire L_ptable s) (\<lambda>_ s.
       case first_index (\<lambda>p. p_pid p = pid) (procs s) of
         Some i \<Rightarrow>
           let s = upd_proc i (\<lambda>p. p\<lparr>p_killed := True\<rparr>) s;
               s = (if p_state (procs s ! i) = SLEEPING
                    then upd_proc i (\<lambda>p. p\<lparr>p_state := RUNNABLE\<rparr>) s else s)
           in rbind (release L_ptable s) (\<lambda>_ s. Ok 0 s)
       | None \<Rightarrow> rbind (release L_ptable s) (\<lambda>_ s. Ok (-1) s))"

definition setpriority :: "int \<Rightarrow> int \<Rightarrow> 'a ptab_scheme \<Rightarrow> ('a ptab_scheme, int) res" where
  "setpriority pid new_priority s =
     (if new_priority < 1 \<or> new_priority > 5 then Ok (-1) s
      else rbind (acquire L_ptable s) (\<lambda>_ s.
        case first_index (\<lambda>p. p_pid p = pid) (procs s) of
          Some i \<Rightarrow>
            let s = upd_proc i (\<lambda>p. p\<lparr>p_priority := new_priority, p_ticks_waiting := 0\<rparr>) s
            in rbind (release L_ptable s) (\<lambda>_ s. Ok 0 s)
        | None \<Rightarrow> rbind (release L_ptable s) (\<lambda>_ s. Ok (-1) s)))"

section \<open>The scheduler\<close>

text \<open>Phase 1: every runnable process ages by one round.\<close>

definition age :: "proc \<Rightarrow> proc" where
  "age p =
     (if p_state p = RUNNABLE then
        let p = p\<lparr>p_ticks_waiting := p_ticks_waiting p + 1\<rparr> in
        if p_ticks_waiting p \<ge> AGING_THRESHOLD \<and> p_priority p < MAX_PRIORITY
        then p\<lparr>p_priority := p_priority p + 1, p_ticks_waiting := 0\<rparr>
        else p
      else p)"

text \<open>Phase 2: the loop that keeps the best runnable process seen so far.\<close>

fun select_loop :: "proc list \<Rightarrow> nat \<Rightarrow> int \<Rightarrow> nat option \<Rightarrow> nat option" where
  "select_loop [] i max_prio best = best"
| "select_loop (p # ps) i max_prio best =
     (if p_state p \<noteq> RUNNABLE then select_loop ps (i + 1) max_prio best
      else if p_priority p > max_prio then select_loop ps (i + 1) (p_priority p) (Some i)
      else select_loop ps (i + 1) max_prio best)"

definition select_proc :: "proc list \<Rightarrow> nat option" where
  "select_proc ps = select_loop ps 0 (MIN_PRIORITY - 1) None"

text \<open>
  One iteration of \<^verbatim>\<open>for(;;)\<close> on CPU \<open>c\<close>. The switch to the chosen process is a
  \<^const>\<open>Swtch\<close>; its continuation is entered when that process calls \<^verbatim>\<open>sched\<close>.
\<close>

definition scheduler_round :: "nat \<Rightarrow> 'a ptab_scheme \<Rightarrow> ('a ptab_scheme, unit) res" where
  "scheduler_round c s =
     (let s = s\<lparr>ion := True\<rparr> in
      rbind (acquire L_ptable s) (\<lambda>_ s.
        let s = s\<lparr>procs := map age (procs s)\<rparr>;
            p = select_proc (procs s) in
        case p of
          None \<Rightarrow> release L_ptable s
        | Some i \<Rightarrow>
            let s = upd_cpu c (\<lambda>k. k\<lparr>c_proc := Some i\<rparr>) s in
            rbind (switchuvm (Some i) s) (\<lambda>_ s.
              Swtch (upd_proc i (\<lambda>p. p\<lparr>p_state := RUNNING\<rparr>) s) (\<lambda>s.
                let s = upd_cpu c (\<lambda>k. k\<lparr>c_proc := None\<rparr>) (switchkvm s) in
                release L_ptable s))))"

section \<open>The table at boot\<close>

text \<open>
  The kernel's data segment starts zeroed. \<open>tab_of ps\<close> is a table on a machine with one CPU
  that runs the process at index 0.
\<close>

definition tf_zero :: trapframe where
  "tf_zero = \<lparr>tf_edi = 0, tf_esi = 0, tf_ebp = 0, tf_oesp = 0, tf_ebx = 0, tf_edx = 0, tf_ecx = 0,
     tf_eax = 0, tf_gs = 0, tf_fs = 0, tf_es = 0, tf_ds = 0, tf_trapno = 0, tf_err = 0, tf_eip = 0,
     tf_cs = 0, tf_eflags = 0, tf_esp = 0, tf_ss = 0\<rparr>"

definition proc_zero :: proc where
  "proc_zero = \<lparr>p_sz = 0, p_pgdir = 0, p_kstack = 0, p_state = UNUSED, p_pid = 0, p_parent = None,
     p_tfp = 0, p_tf = tf_zero, p_context = 0, p_chan = None, p_killed = False,
     p_ofile = replicate NOFILE None, p_cwd = None, p_name = replicate 16 0, p_priority = 0,
     p_ticks_waiting = 0\<rparr>"

definition tab_of :: "proc list \<Rightarrow> lock_id list \<Rightarrow> ptab" where
  "tab_of ps ls = \<lparr>held = ls, ion = True, procs = ps, nextpid = 1, initproc = Some 0,
     cpus = [\<lparr>c_apicid = 0, c_esp0 = 0, c_cr3 = 0, c_proc = Some 0\<rparr>], lapicid = 0, kpgdir = 0\<rparr>"

definition user_proc :: "int \<Rightarrow> procstate \<Rightarrow> int \<Rightarrow> proc" where
  "user_proc pid st prio = proc_zero\<lparr>p_pid := pid, p_state := st, p_priority := prio,
     p_kstack := 0x8DF00000, p_pgdir := 0x8DF01000\<rparr>"

lemma user_proc_simps [simp]:
  "p_pid (user_proc pid st pr) = pid" "p_state (user_proc pid st pr) = st"
  "p_priority (user_proc pid st pr) = pr" "p_ticks_waiting (user_proc pid st pr) = 0"
  by (simp_all add: user_proc_def proc_zero_def)

section \<open>Frame lemmas\<close>

definition on_cpu :: "nat \<Rightarrow> 'a ptab_scheme \<Rightarrow> bool" where
  "on_cpu c s \<longleftrightarrow> first_index (\<lambda>k. c_apicid k = lapicid s) (cpus s) = Some c"

lemma upd_proc_simps [simp]:
  "held (upd_proc i f s) = held s" "ion (upd_proc i f s) = ion s"
  "cpus (upd_proc i f s) = cpus s" "lapicid (upd_proc i f s) = lapicid s"
  "kpgdir (upd_proc i f s) = kpgdir s" "nextpid (upd_proc i f s) = nextpid s"
  "initproc (upd_proc i f s) = initproc s" "ptab.more (upd_proc i f s) = ptab.more s"
  "procs (upd_proc i f s) = (procs s)[i := f (procs s ! i)]"
  "intr (upd_proc i f s) = intr s" "on_cpu c (upd_proc i f s) = on_cpu c s"
  by (simp_all add: upd_proc_def intr_def on_cpu_def)

lemma upd_cpu_simps [simp]:
  "held (upd_cpu c f s) = held s" "ion (upd_cpu c f s) = ion s"
  "procs (upd_cpu c f s) = procs s" "lapicid (upd_cpu c f s) = lapicid s"
  "kpgdir (upd_cpu c f s) = kpgdir s" "nextpid (upd_cpu c f s) = nextpid s"
  "initproc (upd_cpu c f s) = initproc s" "ptab.more (upd_cpu c f s) = ptab.more s"
  "cpus (upd_cpu c f s) = (cpus s)[c := f (cpus s ! c)]"
  by (simp_all add: upd_cpu_def)

lemma on_cpu_held [simp]: "on_cpu c (s\<lparr>held := ls\<rparr>) = on_cpu c s"
  "on_cpu c (s\<lparr>ion := b\<rparr>) = on_cpu c s" "on_cpu c (s\<lparr>procs := ps\<rparr>) = on_cpu c s"
  by (simp_all add: on_cpu_def)

lemma on_cpu_less: "on_cpu c s \<Longrightarrow> c < length (cpus s)"
  by (simp add: on_cpu_def first_index_Some_iff)

lemma on_cpu_upd_cpu [simp]:
  assumes "\<And>k. c_apicid (f k) = c_apicid k"
  shows "on_cpu c (upd_cpu d f s) = on_cpu c s"
proof -
  have "c_apicid ((cpus s)[d := f (cpus s ! d)] ! j) = c_apicid (cpus s ! j)" for j
    using assms by (cases "d < length (cpus s)") (auto simp: nth_list_update list_update_beyond)
  then show ?thesis by (simp add: on_cpu_def first_index_Some_iff)
qed

lemma mycpu_on [simp]: "on_cpu c s \<Longrightarrow> \<not> intr s \<Longrightarrow> mycpu s = Ok c s"
  by (simp add: mycpu_def on_cpu_def)

lemma intr_held_Cons [simp]: "held s = l # ls \<Longrightarrow> \<not> intr s"
  by (simp add: intr_def)

lemma myproc_on [simp]:
  assumes "on_cpu c s"
  shows "myproc s = Ok (c_proc (cpus s ! c)) s"
proof -
  have "mycpu (pushcli s) = Ok c (pushcli s)"
    using assms by (simp add: pushcli_def)
  then show ?thesis by (simp add: myproc_def pushcli_def)
qed

lemma lcr3_on: "on_cpu c s \<Longrightarrow> lcr3 v s = upd_cpu c (\<lambda>k. k\<lparr>c_cr3 := v\<rparr>) s"
  by (simp add: lcr3_def on_cpu_def)

lemma upd_cpu_upd_cpu:
  "c < length (cpus s) \<Longrightarrow> upd_cpu c g (upd_cpu c f s) = upd_cpu c (\<lambda>k. g (f k)) s"
  by (simp add: upd_cpu_def)

lemma switchuvm_on:
  assumes "on_cpu c s" and "p_kstack (procs s ! i) \<noteq> 0" and "p_pgdir (procs s ! i) \<noteq> 0"
  shows "switchuvm (Some i) s =
    Ok () (upd_cpu c (\<lambda>k. k\<lparr>c_esp0 := p_kstack (procs s ! i) + KSTACKSIZE,
                            c_cr3 := V2P (p_pgdir (procs s ! i))\<rparr>) s)"
proof -
  have "mycpu (pushcli s) = Ok c (pushcli s)" using assms(1) by (simp add: pushcli_def)
  with assms show ?thesis
    by (simp add: switchuvm_def lcr3_on pushcli_def upd_cpu_upd_cpu on_cpu_less Let_def)
qed

section \<open>Selection\<close>

definition runnable_at :: "proc list \<Rightarrow> nat \<Rightarrow> bool" where
  "runnable_at ps j \<longleftrightarrow> j < length ps \<and> p_state (ps ! j) = RUNNABLE"

text \<open>The best runnable process: highest priority, and the first of those in the table.\<close>

definition is_best :: "proc list \<Rightarrow> nat \<Rightarrow> bool" where
  "is_best ps j \<longleftrightarrow> runnable_at ps j
     \<and> (\<forall>k. runnable_at ps k \<longrightarrow> p_priority (ps ! k) \<le> p_priority (ps ! j))
     \<and> (\<forall>k<j. runnable_at ps k \<longrightarrow> p_priority (ps ! k) < p_priority (ps ! j))"

lemma runnable_at_Cons:
  "runnable_at (p # ps) k \<longleftrightarrow>
    (case k of 0 \<Rightarrow> p_state p = RUNNABLE | Suc k \<Rightarrow> runnable_at ps k)"
  by (auto simp: runnable_at_def split: nat.split)

lemma select_loop_none:
  "(\<And>k. runnable_at ps k \<Longrightarrow> p_priority (ps ! k) \<le> mp) \<Longrightarrow> select_loop ps i mp best = best"
proof (induction ps arbitrary: i)
  case (Cons p ps)
  have "p_state p = RUNNABLE \<Longrightarrow> p_priority p \<le> mp"
    using Cons.prems [of 0] by (simp add: runnable_at_Cons)
  moreover have "select_loop ps (i + 1) mp best = best"
    using Cons.prems [of "Suc _"] by (intro Cons.IH) (simp add: runnable_at_Cons)
  ultimately show ?case by auto
qed simp

lemma is_best_skip:
  assumes "is_best ps j" and "p_state p = RUNNABLE \<Longrightarrow> p_priority p < p_priority (ps ! j)"
  shows "is_best (p # ps) (Suc j)"
  using assms by (auto simp: is_best_def runnable_at_Cons less_Suc_eq_0_disj nth_Cons
      split: nat.splits intro: less_imp_le)

lemma select_loop_best:
  assumes "runnable_at ps k" and "mp < p_priority (ps ! k)"
  shows "\<exists>j. select_loop ps i mp best = Some (i + j) \<and> is_best ps j \<and> mp < p_priority (ps ! j)"
  using assms
proof (induction ps arbitrary: i mp best k)
  case Nil
  then show ?case by (simp add: runnable_at_def)
next
  case (Cons p ps)
  define skip where "skip \<longleftrightarrow> p_state p \<noteq> RUNNABLE \<or> p_priority p \<le> mp"
  show ?case
  proof (cases skip)
    case True
    with Cons.prems obtain k' where "runnable_at ps k'" "mp < p_priority (ps ! k')"
      by (cases k) (auto simp: skip_def runnable_at_Cons)
    then obtain j where "select_loop ps (i + 1) mp best = Some (i + 1 + j)"
        "is_best ps j" "mp < p_priority (ps ! j)"
      using Cons.IH by blast
    moreover from this True have "is_best (p # ps) (Suc j)"
      by (intro is_best_skip) (auto simp: skip_def)
    ultimately show ?thesis using True by (auto simp: skip_def intro!: exI [of _ "Suc j"])
  next
    case False
    then have p: "p_state p = RUNNABLE" "mp < p_priority p" by (auto simp: skip_def)
    show ?thesis
    proof (cases "\<exists>k'. runnable_at ps k' \<and> p_priority p < p_priority (ps ! k')")
      case True
      then obtain j where "select_loop ps (i + 1) (p_priority p) (Some i) = Some (i + 1 + j)"
          "is_best ps j" "p_priority p < p_priority (ps ! j)"
        using Cons.IH by blast
      moreover from this have "is_best (p # ps) (Suc j)" by (intro is_best_skip) auto
      ultimately show ?thesis using p by (auto intro!: exI [of _ "Suc j"])
    next
      case False
      then have le: "\<And>k. runnable_at ps k \<Longrightarrow> p_priority (ps ! k) \<le> p_priority p" by force
      then have "select_loop ps (i + 1) (p_priority p) (Some i) = Some i"
        by (intro select_loop_none)
      moreover have "is_best (p # ps) 0"
        using p le by (auto simp: is_best_def runnable_at_Cons nth_Cons split: nat.splits)
      ultimately show ?thesis using p by (auto intro!: exI [of _ 0])
    qed
  qed
qed

lemma is_best_unique: "is_best ps i \<Longrightarrow> is_best ps j \<Longrightarrow> i = j"
  by (cases i j rule: linorder_cases) (force simp: is_best_def)+



section \<open>Aging\<close>

definition prio_ok :: "proc \<Rightarrow> bool" where
  "prio_ok p \<longleftrightarrow> MIN_PRIORITY \<le> p_priority p \<and> p_priority p \<le> MAX_PRIORITY"

lemma age_other [simp]: "p_state p \<noteq> RUNNABLE \<Longrightarrow> age p = p"
  by (simp add: age_def)

lemma age_simps [simp]:
  "p_state (age p) = p_state p" "p_pid (age p) = p_pid p" "p_kstack (age p) = p_kstack p"
  "p_pgdir (age p) = p_pgdir p" "p_chan (age p) = p_chan p" "p_parent (age p) = p_parent p"
  "p_killed (age p) = p_killed p" "p_sz (age p) = p_sz p"
  by (simp_all add: age_def Let_def)

lemma age_prio_ok: "prio_ok p \<Longrightarrow> prio_ok (age p)"
  by (auto simp: prio_ok_def age_def Let_def)

lemma aging_score:
  assumes "p_state p = RUNNABLE" "0 \<le> p_ticks_waiting p" "p_ticks_waiting p < 100"
    "p_priority p \<le> 5"
  defines "t n \<equiv> 100 * p_priority p + p_ticks_waiting p + int n"
  shows "p_state ((age ^^ n) p) = RUNNABLE \<and>
    (let q = (age ^^ n) p in
      p_priority q < 5 \<and> 0 \<le> p_ticks_waiting q \<and> p_ticks_waiting q < 100
        \<and> 100 * p_priority q + p_ticks_waiting q = t n
      \<or> p_priority q = 5 \<and> 500 \<le> t n)"
proof (induction n)
  case 0
  then show ?case using assms by (auto simp: Let_def)
next
  case (Suc n)
  let ?q = "(age ^^ n) p"
  have "p_priority ?q < 5 \<or> p_priority ?q = 5" using Suc by (auto simp: Let_def)
  then show ?case
    using Suc by (auto simp: Let_def age_def AGING_THRESHOLD_def MAX_PRIORITY_def t_def)
qed

text \<open>
  C15. Aging is exact and reaches the top: a process that stays runnable gains one priority
  level for every 100 scheduling rounds, up to \<open>MAX_PRIORITY\<close>; after 400 rounds it is there.
\<close>

theorem aging_priority:
  assumes "p_state p = RUNNABLE" "0 \<le> p_ticks_waiting p" "p_ticks_waiting p < AGING_THRESHOLD"
    "prio_ok p"
  shows "p_priority ((age ^^ n) p) =
      min MAX_PRIORITY (p_priority p + (p_ticks_waiting p + int n) div AGING_THRESHOLD)
    \<and> (400 \<le> n \<longrightarrow> p_priority ((age ^^ n) p) = MAX_PRIORITY)"
proof -
  have p: "1 \<le> p_priority p" "p_priority p \<le> 5" "p_ticks_waiting p < 100"
    using assms by (auto simp: prio_ok_def MIN_PRIORITY_def MAX_PRIORITY_def AGING_THRESHOLD_def)
  let ?q = "(age ^^ n) p" and ?x = "p_ticks_waiting p + int n"
  have "p_priority ?q < 5 \<and> 0 \<le> p_ticks_waiting ?q \<and> p_ticks_waiting ?q < 100
      \<and> 100 * p_priority ?q + p_ticks_waiting ?q = 100 * p_priority p + ?x
    \<or> p_priority ?q = 5 \<and> 500 \<le> 100 * p_priority p + ?x"
    using aging_score [OF assms(1,2) p(3,2), of n] by (auto simp: Let_def)
  then have "p_priority ?q = min 5 (p_priority p + ?x div 100)" by linarith
  moreover have "4 \<le> ?x div 100" if "400 \<le> n" using that assms(2) by linarith
  ultimately show ?thesis using p by (auto simp: MAX_PRIORITY_def AGING_THRESHOLD_def)
qed

theorem aging_priority_witness:
  "p_priority ((age ^^ 250) (user_proc 7 RUNNABLE 1)) = 3
    \<and> p_priority ((age ^^ 400) (user_proc 7 RUNNABLE 1)) = 5"
  using aging_priority [of "user_proc 7 RUNNABLE 1" 250] aging_priority [of "user_proc 7 RUNNABLE 1" 400]
  by (simp add: user_proc_def proc_zero_def prio_ok_def MIN_PRIORITY_def MAX_PRIORITY_def
      AGING_THRESHOLD_def)

lemma select_proc_SomeD:
  assumes "select_proc ps = Some i" and "\<And>p. p \<in> set ps \<Longrightarrow> prio_ok p"
  shows "is_best ps i"
proof (cases "\<exists>k. runnable_at ps k")
  case True
  then obtain k where k: "runnable_at ps k" by blast
  have "MIN_PRIORITY - 1 < p_priority (ps ! k)"
    using k assms(2) [of "ps ! k"] by (simp add: runnable_at_def prio_ok_def)
  from select_loop_best [OF k this, of 0 None] assms(1) show ?thesis
    by (auto simp: select_proc_def)
next
  case False
  then have "select_loop ps 0 (MIN_PRIORITY - 1) None = None" by (intro select_loop_none) blast
  with assms(1) show ?thesis by (simp add: select_proc_def)
qed



section \<open>A scheduling round\<close>

lemma scheduler_round_Some:
  assumes "on_cpu c s" and "held s = []" and "select_proc (map age (procs s)) = Some i"
    and "i < length (procs s)"
    and "p_kstack (procs s ! i) \<noteq> 0" and "p_pgdir (procs s ! i) \<noteq> 0"
  shows "scheduler_round c s = Swtch
    (s\<lparr>ion := True, held := [L_ptable], procs := (map age (procs s))[i := (age (procs s ! i))\<lparr>p_state := RUNNING\<rparr>],
       cpus := (cpus s)[c := (cpus s ! c)\<lparr>c_proc := Some i,
         c_esp0 := p_kstack (procs s ! i) + KSTACKSIZE, c_cr3 := V2P (p_pgdir (procs s ! i))\<rparr>]\<rparr>)
    (\<lambda>t. release L_ptable (upd_cpu c (\<lambda>k. k\<lparr>c_proc := None\<rparr>) (switchkvm t)))"
proof -
  have c: "c < length (cpus s)" using assms(1) by (rule on_cpu_less)
  let ?s = "upd_cpu c (\<lambda>k. k\<lparr>c_proc := Some i\<rparr>)
     (s\<lparr>ion := True, held := [L_ptable], procs := map age (procs s)\<rparr>)"
  have "switchuvm (Some i) ?s = Ok () (upd_cpu c (\<lambda>k. k\<lparr>c_esp0 := p_kstack (procs s ! i) + KSTACKSIZE,
      c_cr3 := V2P (p_pgdir (procs s ! i))\<rparr>) ?s)"
    using assms switchuvm_on [of c ?s i] by simp
  with assms c show ?thesis
    by (simp add: scheduler_round_def Let_def upd_cpu_def upd_proc_def)
qed

lemma scheduler_round_None:
  assumes "held s = []" and "select_proc (map age (procs s)) = None"
  shows "scheduler_round c s = Ok () (s\<lparr>ion := True, procs := map age (procs s)\<rparr>)"
  using assms by (cases s) (simp add: scheduler_round_def Let_def)

section \<open>Sleep and wakeup\<close>

text \<open>
  The caller's lock is given up only once the process table lock is held, so the process is
  marked asleep before any \<^verbatim>\<open>wakeup\<close> can scan the table.
\<close>

definition asleep :: "nat \<Rightarrow> chan \<Rightarrow> 'a ptab_scheme \<Rightarrow> 'a ptab_scheme" where
  "asleep i ch s =
     upd_proc i (\<lambda>p. p\<lparr>p_chan := Some ch, p_state := SLEEPING\<rparr>) (s\<lparr>held := [L_ptable]\<rparr>)"

text \<open>What \<^verbatim>\<open>sleep\<close> does once the scheduler has switched back to the process.\<close>

definition awake :: "nat \<Rightarrow> lock_id \<Rightarrow> bool \<Rightarrow> 'a ptab_scheme \<Rightarrow> ('a ptab_scheme, unit) res" where
  "awake i l intena t =
     (let t = upd_proc i (\<lambda>p. p\<lparr>p_chan := None\<rparr>) (t\<lparr>ion := intena\<rparr>) in
      if l \<noteq> L_ptable then rbind (release L_ptable t) (\<lambda>_ s. acquire l s) else Ok () t)"

lemma sched_Swtch:
  assumes "on_cpu c s" and "c_proc (cpus s ! c) = Some i" and "held s = [L_ptable]"
    and "p_state (procs s ! i) \<noteq> RUNNING"
  shows "sched s = Swtch s (\<lambda>t. Ok () (t\<lparr>ion := ion s\<rparr>))"
  using assms by (simp add: sched_def Let_def)

lemma sleep_eq:
  assumes "on_cpu c s" and "c_proc (cpus s ! c) = Some i" and "i < length (procs s)"
    and "held s = [l]"
  shows "sleep ch (Some l) s = Swtch (asleep i ch s) (awake i l (ion s))"
proof -
  have *: "(if l \<noteq> L_ptable then rbind (acquire L_ptable s) (\<lambda>_ s. release l s) else Ok () s)
      = Ok () (s\<lparr>held := [L_ptable]\<rparr>)"
    using assms(4) by (cases s) (auto simp: release_def acquire_def)
  have "sched (asleep i ch s) = Swtch (asleep i ch s) (\<lambda>t. Ok () (t\<lparr>ion := ion s\<rparr>))"
    using assms sched_Swtch [of c "asleep i ch s" i] by (simp add: asleep_def)
  then have "rbind (sched (asleep i ch s)) (\<lambda>_ s.
      let s = upd_proc i (\<lambda>p. p\<lparr>p_chan := None\<rparr>) s in
      if l \<noteq> L_ptable then rbind (release L_ptable s) (\<lambda>_ s. acquire l s) else Ok () s)
    = Swtch (asleep i ch s) (awake i l (ion s))"
    by (simp add: awake_def fun_eq_iff)
  with assms(1,2) show ?thesis
    unfolding sleep_def by (simp only: myproc_on * rbind_simps option.case asleep_def)
qed

lemma awake_Ok:
  assumes "held t = [L_ptable]"
  shows "awake i l intena t =
    Ok () (upd_proc i (\<lambda>p. p\<lparr>p_chan := None\<rparr>) (t\<lparr>ion := intena, held := [l]\<rparr>))"
  using assms by (cases t) (auto simp: awake_def release_def acquire_def upd_proc_def Let_def)

text \<open>
  The thread of process \<open>i\<close> is executing: what every routine on a process's kernel stack may
  assume, whichever CPU it has been scheduled on.
\<close>

definition runs :: "nat \<Rightarrow> 'a ptab_scheme \<Rightarrow> bool" where
  "runs i s \<longleftrightarrow> i < length (procs s) \<and> (\<exists>c. on_cpu c s \<and> c_proc (cpus s ! c) = Some i)"

lemma runs_myproc [simp]: "runs i s \<Longrightarrow> myproc s = Ok (Some i) s"
  by (auto simp: runs_def)

lemma runs_frame [simp]:
  "runs i (s\<lparr>held := ls\<rparr>) = runs i s" "runs i (s\<lparr>ion := b\<rparr>) = runs i s"
  "runs i (upd_proc j f s) = runs i s"
  by (simp_all add: runs_def)

lemma runs_sleep:
  assumes "runs i s" and "held s = [l]"
  shows "sleep ch (Some l) s = Swtch (asleep i ch s) (awake i l (ion s))"
  using assms sleep_eq by (auto simp: runs_def)

lemma safe_sleep:
  assumes "runs i s" and "held s = [l]" and "G (asleep i ch s)"
    and "\<And>t. R (asleep i ch s) t \<Longrightarrow> held t = [L_ptable]"
    and "\<And>t. R (asleep i ch s) t \<Longrightarrow>
      Q () (upd_proc i (\<lambda>p. p\<lparr>p_chan := None\<rparr>) (t\<lparr>ion := ion s, held := [l]\<rparr>))"
  shows "safe G R (sleep ch (Some l) s) Q"
  using assms by (simp add: runs_sleep awake_Ok)

lemma wakeup_eq:
  assumes "L_ptable \<notin> set (held s)"
  shows "wakeup ch s = Ok () (wakeup1 ch s)"
  using assms by (cases s) (simp add: wakeup_def wakeup1_def)

lemma wake_simps [simp]:
  "p_pid (wake ch p) = p_pid p" "p_kstack (wake ch p) = p_kstack p"
  "p_pgdir (wake ch p) = p_pgdir p" "p_chan (wake ch p) = p_chan p"
  "p_parent (wake ch p) = p_parent p" "p_killed (wake ch p) = p_killed p"
  "p_sz (wake ch p) = p_sz p" "p_priority (wake ch p) = p_priority p"
  "p_ofile (wake ch p) = p_ofile p" "p_cwd (wake ch p) = p_cwd p"
  by (simp_all add: wake_def)

lemma wakeup1_simps [simp]:
  "held (wakeup1 ch s) = held s" "ion (wakeup1 ch s) = ion s" "cpus (wakeup1 ch s) = cpus s"
  "lapicid (wakeup1 ch s) = lapicid s" "kpgdir (wakeup1 ch s) = kpgdir s"
  "nextpid (wakeup1 ch s) = nextpid s" "initproc (wakeup1 ch s) = initproc s"
  "procs (wakeup1 ch s) = map (wake ch) (procs s)" "ptab.more (wakeup1 ch s) = ptab.more s"
  "on_cpu c (wakeup1 ch s) = on_cpu c s" "runs i (wakeup1 ch s) = runs i s"
  by (simp_all add: wakeup1_def on_cpu_def runs_def)





text \<open>
  \<^verbatim>\<open>kill\<close> marks exactly the first process with that pid and wakes it if it sleeps;
  it fails, changing nothing, when no entry has the pid.
\<close>

theorem kill_spec:
  assumes "L_ptable \<notin> set (held s)"
  shows "kill pid s =
    (case first_index (\<lambda>p. p_pid p = pid) (procs s) of
       None \<Rightarrow> Ok (-1) s
     | Some i \<Rightarrow> Ok 0 (upd_proc i (\<lambda>p. p\<lparr>p_killed := True,
         p_state := (if p_state p = SLEEPING then RUNNABLE else p_state p)\<rparr>) s))"
proof (cases "first_index (\<lambda>p. p_pid p = pid) (procs s)")
  case None
  with assms show ?thesis by (cases s) (simp add: kill_def)
next
  case (Some i)
  then have "i < length (procs s)" by (simp add: first_index_Some_iff)
  with assms Some show ?thesis
    by (cases s) (simp add: kill_def upd_proc_def Let_def)
qed

theorem kill_spec_witness:
  "kill 2 (tab_of [user_proc 1 RUNNING 3, user_proc 2 SLEEPING 1] [])
    = Ok 0 (tab_of [user_proc 1 RUNNING 3, (user_proc 2 RUNNABLE 1)\<lparr>p_killed := True\<rparr>] [])"
  using kill_spec [of "tab_of [user_proc 1 RUNNING 3, user_proc 2 SLEEPING 1] []" 2]
  by (simp add: tab_of_def user_proc_def proc_zero_def upd_proc_def)

end
