(* ===== verification/Kalloc.thy ===== *)
theory Kalloc
  imports Sched
begin

text \<open>
  The physical page allocator, \<^verbatim>\<open>kalloc.c\<close>. Memory is a map from page addresses to the
  4096 bytes of the page; the free list is threaded through the free pages themselves, as
  \<^verbatim>\<open>struct run\<close> does. The addresses that the linker defines (\<^verbatim>\<open>end\<close>, \<^verbatim>\<open>data\<close>, \<^verbatim>\<open>trapret\<close>,
  \<^verbatim>\<open>forkret\<close>) are fields that no operation writes. The interface of a page allocator is a
  locale, proved for this one.
\<close>

section \<open>Memory and layout\<close>

definition PGSIZE :: u32 where "PGSIZE = 4096"
definition PHYSTOP :: u32 where "PHYSTOP = 0xE000000"

definition PGROUNDUP :: "u32 \<Rightarrow> u32" where
  "PGROUNDUP sz = (sz + PGSIZE - 1) AND NOT (PGSIZE - 1)"

definition PGROUNDDOWN :: "u32 \<Rightarrow> u32" where
  "PGROUNDDOWN a = a AND NOT (PGSIZE - 1)"

type_synonym pages = "u32 \<Rightarrow> bytes"

record kmem = ptab +
  mem :: pages
  use_lock :: bool
  freelist :: u32
  kend :: u32
  kdata :: u32
  trapret :: u32
  forkret_addr :: u32

definition load32 :: "u32 \<Rightarrow> nat \<Rightarrow> 'a kmem_scheme \<Rightarrow> u32" where
  "load32 v off s = load4 off (mem s v)"

definition store32 :: "u32 \<Rightarrow> nat \<Rightarrow> u32 \<Rightarrow> 'a kmem_scheme \<Rightarrow> 'a kmem_scheme" where
  "store32 v off w s = s\<lparr>mem := (mem s)(v := store4 off w (mem s v))\<rparr>"

text \<open>\<^verbatim>\<open>memset(v, c, PGSIZE)\<close> on a page.\<close>

definition fill_page :: "u32 \<Rightarrow> u8 \<Rightarrow> 'a kmem_scheme \<Rightarrow> 'a kmem_scheme" where
  "fill_page v c s = s\<lparr>mem := (mem s)(v := (\<lambda>_. c))\<rparr>"

section \<open>Operations\<close>

definition lock_if :: "bool \<Rightarrow> lock_id \<Rightarrow> 'a klock_scheme \<Rightarrow> ('a klock_scheme, unit) res" where
  "lock_if b l s = (if b then acquire l s else Ok () s)"

definition unlock_if :: "bool \<Rightarrow> lock_id \<Rightarrow> 'a klock_scheme \<Rightarrow> ('a klock_scheme, unit) res" where
  "unlock_if b l s = (if b then release l s else Ok () s)"

definition kfree :: "u32 \<Rightarrow> 'a kmem_scheme \<Rightarrow> ('a kmem_scheme, unit) res" where
  "kfree v s =
     (if v mod PGSIZE \<noteq> 0 \<or> v < kend s \<or> V2P v \<ge> PHYSTOP then Panic ''kfree''
      else let s = fill_page v 1 s in
        rbind (lock_if (use_lock s) L_kmem s) (\<lambda>_ s.
          let s = store32 v 0 (freelist s) s;
              s = s\<lparr>freelist := v\<rparr>
          in unlock_if (use_lock s) L_kmem s))"

definition kalloc :: "'a kmem_scheme \<Rightarrow> ('a kmem_scheme, u32) res" where
  "kalloc s =
     rbind (lock_if (use_lock s) L_kmem s) (\<lambda>_ s.
       let r = freelist s;
           s = (if r \<noteq> 0 then s\<lparr>freelist := load32 r 0 s\<rparr> else s)
       in rbind (unlock_if (use_lock s) L_kmem s) (\<lambda>_ s. Ok r s))"

lemma kfree_Ok_range:
  "returns (kfree v s) u t \<Longrightarrow> V2P v < PHYSTOP"
  by (auto simp: kfree_def split: if_splits)

lemma unat_add_PGSIZE:
  assumes "V2P v < PHYSTOP"
  shows "unat (v + PGSIZE) = unat v + 4096"
proof -
  have "unat v < 0x90000000"
  proof (rule ccontr)
    assume "\<not> unat v < 0x90000000"
    then have "0x90000000 \<le> v" by (simp add: word_le_nat_alt)
    then have "unat (v - KERNBASE) = unat v - unat KERNBASE"
      by (intro unat_sub) (simp add: KERNBASE_def word_le_nat_alt)
    with \<open>\<not> unat v < 0x90000000\<close> have "0x10000000 \<le> unat (v - KERNBASE)" by (simp add: KERNBASE_def)
    with assms show False by (simp add: V2P_def PHYSTOP_def word_less_nat_alt)
  qed
  then show ?thesis by (simp add: PGSIZE_def unat_word_ariths)
qed

text \<open>The loop stops because \<^verbatim>\<open>kfree\<close> panics before the address can wrap around.\<close>

function freerange_loop :: "u32 \<Rightarrow> u32 \<Rightarrow> 'a kmem_scheme \<Rightarrow> ('a kmem_scheme, unit) res" where
  "freerange_loop p vend s =
     (if p + PGSIZE \<le> vend
      then rbind (kfree p s) (\<lambda>_ s. freerange_loop (p + PGSIZE) vend s)
      else Ok () s)"
  by pat_completeness auto
termination
proof (relation "measure (\<lambda>(p, vend, s). 2 ^ 32 - unat p)", goal_cases)
  case (2 p vend s u t)
  then have "unat (p + PGSIZE) = unat p + 4096"
    by (intro unat_add_PGSIZE kfree_Ok_range) auto
  moreover have "unat p < 2 ^ 32" using unsigned_less [of p] by simp
  ultimately show ?case by simp
qed simp

declare freerange_loop.simps [simp del]

definition freerange :: "u32 \<Rightarrow> u32 \<Rightarrow> 'a kmem_scheme \<Rightarrow> ('a kmem_scheme, unit) res" where
  "freerange vstart vend s = freerange_loop (PGROUNDUP vstart) vend s"

definition kinit1 :: "u32 \<Rightarrow> u32 \<Rightarrow> 'a kmem_scheme \<Rightarrow> ('a kmem_scheme, unit) res" where
  "kinit1 vstart vend s = freerange vstart vend (s\<lparr>use_lock := False\<rparr>)"

definition kinit2 :: "u32 \<Rightarrow> u32 \<Rightarrow> 'a kmem_scheme \<Rightarrow> ('a kmem_scheme, unit) res" where
  "kinit2 vstart vend s =
     rbind (freerange vstart vend s) (\<lambda>_ s. Ok () (s\<lparr>use_lock := True\<rparr>))"

section \<open>The free list\<close>

definition kpage :: "'a kmem_scheme \<Rightarrow> u32 \<Rightarrow> bool" where
  "kpage s v \<longleftrightarrow> v mod PGSIZE = 0 \<and> kend s \<le> v \<and> V2P v < PHYSTOP \<and> v \<noteq> 0"

fun chain :: "pages \<Rightarrow> u32 \<Rightarrow> u32 list \<Rightarrow> bool" where
  "chain m a [] \<longleftrightarrow> a = 0"
| "chain m a (x # xs) \<longleftrightarrow> a = x \<and> x \<noteq> 0 \<and> chain m (load4 0 (m x)) xs"

definition free_pages :: "'a kmem_scheme \<Rightarrow> u32 list \<Rightarrow> bool" where
  "free_pages s xs \<longleftrightarrow> chain (mem s) (freelist s) xs \<and> distinct xs
     \<and> (\<forall>x\<in>set xs. kpage s x) \<and> L_kmem \<notin> set (held s)"

lemma chain_cong: "(\<And>x. x \<in> set xs \<Longrightarrow> m x = m' x) \<Longrightarrow> chain m a xs = chain m' a xs"
  by (induction xs arbitrary: a) auto

lemma chain_upd [simp]: "v \<notin> set xs \<Longrightarrow> chain (m(v := p)) a xs = chain m a xs"
  by (induction xs arbitrary: a) auto

lemma chain_unique: "chain m a xs \<Longrightarrow> chain m a ys \<Longrightarrow> xs = ys"
proof (induction xs arbitrary: a ys)
  case Nil
  then show ?case by (cases ys) auto
next
  case (Cons x xs)
  then show ?case by (cases ys) auto
qed

lemma kfree_page:
  assumes "kpage s v" and "L_kmem \<notin> set (held s)"
  shows "kfree v s = Ok () (s\<lparr>mem := (mem s)(v := store4 0 (freelist s) (\<lambda>_. 1)), freelist := v\<rparr>)"
  using assms
  by (cases s)
    (auto simp: kfree_def kpage_def lock_if_def unlock_if_def fill_page_def store32_def Let_def)

lemma kfree_bad:
  assumes "v mod PGSIZE \<noteq> 0 \<or> v < kend s \<or> V2P v \<ge> PHYSTOP"
  shows "kfree v s = Panic ''kfree''"
  using assms by (auto simp: kfree_def)

lemma kalloc_eq:
  assumes "L_kmem \<notin> set (held s)"
  shows "kalloc s = Ok (freelist s)
    (if freelist s = 0 then s else s\<lparr>freelist := load4 0 (mem s (freelist s))\<rparr>)"
  using assms
  by (cases s) (auto simp: kalloc_def lock_if_def unlock_if_def load32_def Let_def)

lemma kfree_free_pages:
  assumes "free_pages s xs" and "kpage s v" and "v \<notin> set xs"
  shows "\<exists>t. kfree v s = Ok () t \<and> free_pages t (v # xs)"
proof -
  let ?t = "s\<lparr>mem := (mem s)(v := store4 0 (freelist s) (\<lambda>_. 1)), freelist := v\<rparr>"
  have "chain (mem ?t) (freelist s) xs"
    using assms by (simp add: free_pages_def)
  then have "free_pages ?t (v # xs)"
    using assms by (auto simp: free_pages_def kpage_def)
  with assms show ?thesis by (auto simp: kfree_page free_pages_def)
qed

lemma kalloc_free_pages_Nil: "free_pages s [] \<Longrightarrow> kalloc s = Ok 0 s"
  by (simp add: free_pages_def kalloc_eq)

lemma kalloc_free_pages_Cons:
  assumes "free_pages s (x # xs)"
  shows "kalloc s = Ok x (s\<lparr>freelist := load4 0 (mem s x)\<rparr>)"
    and "free_pages (s\<lparr>freelist := load4 0 (mem s x)\<rparr>) xs"
  using assms by (auto simp: free_pages_def kalloc_eq kpage_def)

section \<open>The allocator's interface\<close>

text \<open>
  What a client of a page allocator may rely on: allocation takes the head of a pool of
  distinct non-null pages, or returns null when the pool is empty; freeing a valid page
  that is not in the pool puts it back.
\<close>

locale page_allocator =
  fixes alloc :: "'s \<Rightarrow> ('s, 'p) res"
    and free :: "'p \<Rightarrow> 's \<Rightarrow> ('s, unit) res"
    and pool :: "'s \<Rightarrow> 'p list \<Rightarrow> bool"
    and valid :: "'s \<Rightarrow> 'p \<Rightarrow> bool"
    and null :: 'p
  assumes alloc_Nil: "pool s [] \<Longrightarrow> alloc s = Ok null s"
    and alloc_Cons: "pool s (x # xs) \<Longrightarrow> \<exists>t. alloc s = Ok x t \<and> pool t xs \<and> (\<forall>v. valid t v = valid s v)"
    and free_pool: "pool s xs \<Longrightarrow> valid s v \<Longrightarrow> v \<notin> set xs \<Longrightarrow>
        \<exists>t. free v s = Ok () t \<and> pool t (v # xs) \<and> (\<forall>w. valid t w = valid s w)"
    and pool_distinct: "pool s xs \<Longrightarrow> distinct xs"
    and pool_valid: "pool s xs \<Longrightarrow> x \<in> set xs \<Longrightarrow> valid s x \<and> x \<noteq> null"
begin

primrec alloc_n :: "nat \<Rightarrow> 's \<Rightarrow> ('s, 'p list) res" where
  "alloc_n 0 s = Ok [] s"
| "alloc_n (Suc n) s = rbind (alloc s) (\<lambda>x s. rbind (alloc_n n s) (\<lambda>ys s. Ok (x # ys) s))"

lemma alloc_n_pool:
  assumes "pool s xs" and "n \<le> length xs"
  shows "\<exists>t. alloc_n n s = Ok (take n xs) t \<and> pool t (drop n xs)"
  using assms
proof (induction n arbitrary: s xs)
  case (Suc n)
  then obtain y ys where xs: "xs = y # ys" by (cases xs) auto
  with Suc.prems obtain t where "alloc s = Ok y t" "pool t ys" using alloc_Cons by blast
  moreover from this obtain u where "alloc_n n t = Ok (take n ys) u" "pool u (drop n ys)"
    using Suc.IH [of t ys] Suc.prems xs by auto
  ultimately show ?case using xs by auto
qed auto

lemma alloc_n_distinct:
  assumes "pool s xs" and "n \<le> length xs"
  shows "\<exists>ys t. alloc_n n s = Ok ys t \<and> length ys = n \<and> distinct ys \<and> null \<notin> set ys"
proof -
  obtain t where "alloc_n n s = Ok (take n xs) t" using alloc_n_pool [OF assms] by blast
  moreover have "null \<notin> set (take n xs)"
    using pool_valid [OF assms(1)] in_set_takeD [of null n xs] by blast
  ultimately show ?thesis
    using assms pool_distinct by auto
qed

lemma free_then_alloc:
  assumes "pool s xs" and "valid s v" and "v \<notin> set xs"
  shows "\<exists>t u. free v s = Ok () t \<and> alloc t = Ok v u \<and> pool u xs"
  using free_pool [OF assms] alloc_Cons by blast

lemma alloc_then_free:
  assumes "pool s (x # xs)"
  shows "\<exists>t u. alloc s = Ok x t \<and> free x t = Ok () u \<and> pool u (x # xs)"
proof -
  from alloc_Cons [OF assms] obtain t where t: "alloc s = Ok x t" "pool t xs" "valid t x = valid s x"
    by blast
  have "valid t x" "x \<notin> set xs"
    using pool_valid [OF assms, of x] pool_distinct [OF assms] t by auto
  with free_pool [OF t(2)] t(1) show ?thesis by blast
qed

end

lemma kpage_frame [simp]:
  "kpage (s\<lparr>mem := m\<rparr>) = kpage s" "kpage (s\<lparr>freelist := a\<rparr>) = kpage s"
  "kpage (s\<lparr>held := ls\<rparr>) = kpage s"
  by (simp_all add: kpage_def fun_eq_iff)

interpretation kpages: page_allocator kalloc kfree free_pages kpage 0
proof (unfold_locales, goal_cases)
  case (2 s x xs)
  then show ?case using kalloc_free_pages_Cons [OF 2] by auto
next
  case (3 s xs v)
  then obtain t where "kfree v s = Ok () t" "free_pages t (v # xs)"
    using kfree_free_pages by blast
  moreover have "kpage t = kpage s"
    using 3 calculation(1) by (auto simp: kfree_page free_pages_def)
  ultimately show ?case by auto
qed (auto simp: kalloc_free_pages_Nil free_pages_def kpage_def)


text \<open>A machine with the three free pages that \<open>freerange\<close> leaves linked downwards.\<close>

definition kmem3 :: kmem where
  "kmem3 = ptab.extend (tab_of [user_proc 1 RUNNING 3] [])
     \<lparr>mem = (\<lambda>v. if v = 0x80402000 then store4 0 0x80401000 (\<lambda>_. 1)
              else if v = 0x80401000 then store4 0 0x80400000 (\<lambda>_. 1) else (\<lambda>_. 0)),
      use_lock = True, freelist = 0x80402000, kend = 0x80110000, kdata = 0x80109000,
      trapret = 0x80105000, forkret_addr = 0x80104000\<rparr>"

lemma kmem3_free: "free_pages kmem3 [0x80402000, 0x80401000, 0x80400000]"
  by (simp add: free_pages_def kmem3_def ptab.defs tab_of_def kpage_def PGSIZE_def V2P_def
      KERNBASE_def PHYSTOP_def) (simp add: load4_def)

section \<open>What the allocator guarantees\<close>

abbreviation nth_page :: "u32 \<Rightarrow> nat \<Rightarrow> u32" where
  "nth_page p i \<equiv> p + of_nat i * PGSIZE"

lemma unat_nth_page:
  assumes "\<forall>j<i. V2P (nth_page p j) < PHYSTOP"
  shows "unat (nth_page p i) = unat p + 4096 * i"
  using assms
proof (induction i)
  case (Suc i)
  have e: "nth_page p (Suc i) = nth_page p i + PGSIZE" by (simp add: distrib_right)
  have "unat (nth_page p i + PGSIZE) = unat (nth_page p i) + 4096"
    using Suc.prems by (intro unat_add_PGSIZE) simp
  moreover have "unat (nth_page p i) = unat p + 4096 * i"
    using Suc.prems by (intro Suc.IH) simp
  ultimately show ?case unfolding e by simp
qed simp

lemma freerange_loop_pages:
  assumes "free_pages s xs"
    and "\<forall>i<k. kpage s (nth_page p i) \<and> nth_page p i \<notin> set xs \<and> nth_page p (Suc i) \<le> vend"
    and "\<not> nth_page p (Suc k) \<le> vend"
  shows "\<exists>t. freerange_loop p vend s = Ok () t \<and> free_pages t (rev (map (nth_page p) [0..<k]) @ xs)"
  using assms
proof (induction k arbitrary: p s xs)
  case 0
  then show ?case by (subst freerange_loop.simps) simp
next
  case (Suc k)
  have shift: "nth_page (p + PGSIZE) i = nth_page p (Suc i)" for i by (simp add: distrib_right)
  from Suc.prems(2) have p0: "kpage s p" "p \<notin> set xs" "p + PGSIZE \<le> vend" by force+
  obtain t where t: "kfree p s = Ok () t" "free_pages t (p # xs)"
    using kfree_free_pages [OF Suc.prems(1) p0(1,2)] by blast
  have kp: "kpage t = kpage s"
    using t(1) p0(1) Suc.prems(1) by (auto simp: kfree_page free_pages_def)
  have "nth_page p (Suc i) \<noteq> p" if "i < k" for i
  proof -
    have "\<forall>j<Suc i. V2P (nth_page p j) < PHYSTOP"
      using Suc.prems(2) that by (auto simp: kpage_def)
    from unat_nth_page [OF this] have "unat (nth_page p (Suc i)) \<noteq> unat p" by simp
    then show ?thesis by metis
  qed
  then have "\<forall>i<k. kpage t (nth_page (p + PGSIZE) i) \<and> nth_page (p + PGSIZE) i \<notin> set (p # xs)
      \<and> nth_page (p + PGSIZE) (Suc i) \<le> vend"
    unfolding shift kp using Suc.prems(2) by auto
  moreover have "\<not> nth_page (p + PGSIZE) (Suc k) \<le> vend"
    unfolding shift using Suc.prems(3) .
  ultimately obtain u where u: "freerange_loop (p + PGSIZE) vend t = Ok () u"
      "free_pages u (rev (map (nth_page (p + PGSIZE)) [0..<k]) @ p # xs)"
    using Suc.IH [OF t(2)] by blast
  moreover have "rev (map (nth_page (p + PGSIZE)) [0..<k]) @ p # xs
      = rev (map (nth_page p) [0..<Suc k]) @ xs"
    unfolding shift by (simp add: map_upt_Suc del: upt_Suc)
  ultimately show ?case
    using p0(3) t(1) by (subst freerange_loop.simps) auto
qed

text \<open>
  Allocation hands out each page once: from a well-formed free list \<open>xs\<close>, \<open>n\<close>
  consecutive calls of \<^verbatim>\<open>kalloc\<close> succeed for every \<open>n \<le> length xs\<close> and return \<open>n\<close> distinct
  non-null pages, leaving the other pages of the list free.
\<close>

theorem kalloc_distinct_pages:
  assumes "free_pages s xs" and "n \<le> length xs"
  shows "\<exists>t. kpages.alloc_n n s = Ok (take n xs) t \<and> free_pages t (drop n xs)
    \<and> distinct (take n xs) \<and> 0 \<notin> set (take n xs)"
proof -
  obtain t where "kpages.alloc_n n s = Ok (take n xs) t" "free_pages t (drop n xs)"
    using kpages.alloc_n_pool [OF assms] by blast
  moreover have "distinct (take n xs)" "0 \<notin> set (take n xs)"
    using assms in_set_takeD [of 0 n xs] by (auto simp: free_pages_def kpage_def)
  ultimately show ?thesis by blast
qed

theorem kalloc_distinct_pages_witness:
  "\<exists>t. kpages.alloc_n 2 kmem3 = Ok [0x80402000, 0x80401000] t \<and> free_pages t [0x80400000]"
  using kalloc_distinct_pages [OF kmem3_free, of 2] by auto

text \<open>
  C19. Freeing: \<^verbatim>\<open>kfree\<close> of a page-aligned address between \<^verbatim>\<open>end\<close> and \<^verbatim>\<open>PHYSTOP\<close> that is not
  free makes it the next page to be allocated and keeps the list well formed; every other
  address panics. No page but the freed one changes.
\<close>

theorem kfree_correct:
  assumes "free_pages s xs" and "v \<notin> set xs" and "v \<noteq> 0"
  shows "if kpage s v
    then \<exists>t. kfree v s = Ok () t \<and> free_pages t (v # xs) \<and> (\<forall>w. w \<noteq> v \<longrightarrow> mem t w = mem s w)
      \<and> (\<exists>u. kalloc t = Ok v u \<and> free_pages u xs)
    else kfree v s = Panic ''kfree''"
proof (cases "kpage s v")
  case True
  obtain t where t: "kfree v s = Ok () t" "free_pages t (v # xs)"
    using kfree_free_pages [OF assms(1) True assms(2)] by blast
  then have "\<forall>w. w \<noteq> v \<longrightarrow> mem t w = mem s w"
    using True assms(1) by (auto simp: kfree_page free_pages_def)
  with t True kalloc_free_pages_Cons [OF t(2)] show ?thesis by auto
next
  case False
  then have "kfree v s = Panic ''kfree''"
    using assms(3) by (intro kfree_bad) (meson kpage_def not_le_imp_less)
  with False show ?thesis by simp
qed

theorem kfree_correct_witness:
  "kfree 0x80403004 kmem3 = Panic ''kfree''
    \<and> (\<exists>t. kfree 0x80403000 kmem3 = Ok () t \<and> (\<exists>u. kalloc t = Ok 0x80403000 u))"
proof -
  have "kpage kmem3 0x80403000" "\<not> kpage kmem3 0x80403004"
    by (simp_all add: kpage_def kmem3_def ptab.defs PGSIZE_def V2P_def KERNBASE_def PHYSTOP_def)
  then show ?thesis
    using kfree_correct [OF kmem3_free, of "0x80403000"] kfree_correct [OF kmem3_free, of "0x80403004"]
    by auto
qed

end
