(* ===== verification/Vm.thy ===== *)
theory Vm
  imports Kalloc
begin

text \<open>
  Page tables, \<^verbatim>\<open>vm.c\<close>, with the repository's lazy allocation. A pointer to a page table
  entry is the page that holds the table and the index into it, so two such pointers are
  equal exactly when the C pointers are. The loops over an address range keep the
  address as a natural number: every size a caller passes is at most \<^verbatim>\<open>KERNBASE\<close>, so the
  C address does not wrap. Console messages are not modelled. \<^verbatim>\<open>loaduvm\<close>, which reads a
  file, is with \<^verbatim>\<open>exec\<close>.
\<close>

section \<open>Page table entries\<close>

definition PTE_P :: u32 where "PTE_P = 1"
definition PTE_W :: u32 where "PTE_W = 2"
definition PTE_U :: u32 where "PTE_U = 4"
definition EXTMEM :: u32 where "EXTMEM = 0x100000"
definition KERNLINK :: u32 where "KERNLINK = KERNBASE + EXTMEM"
definition DEVSPACE :: u32 where "DEVSPACE = 0xFE000000"
definition NPDENTRIES :: nat where "NPDENTRIES = 1024"

definition PDX :: "u32 \<Rightarrow> nat" where "PDX va = unat (drop_bit 22 va AND 0x3FF)"
definition PTX :: "u32 \<Rightarrow> nat" where "PTX va = unat (drop_bit 12 va AND 0x3FF)"
definition PTE_ADDR :: "u32 \<Rightarrow> u32" where "PTE_ADDR pte = pte AND NOT 0xFFF"
definition PTE_FLAGS :: "u32 \<Rightarrow> u32" where "PTE_FLAGS pte = pte AND 0xFFF"

type_synonym ptep = "u32 \<times> nat"

definition get_pte :: "ptep \<Rightarrow> 'a kmem_scheme \<Rightarrow> u32" where
  "get_pte p s = load32 (fst p) (4 * snd p) s"

definition set_pte :: "ptep \<Rightarrow> u32 \<Rightarrow> 'a kmem_scheme \<Rightarrow> 'a kmem_scheme" where
  "set_pte p v s = store32 (fst p) (4 * snd p) v s"

section \<open>Walking and mapping\<close>

definition walkpgdir ::
  "u32 \<Rightarrow> u32 \<Rightarrow> bool \<Rightarrow> 'a kmem_scheme \<Rightarrow> ('a kmem_scheme, ptep option) res" where
  "walkpgdir pgdir va alloc s =
     (let pde = (pgdir, PDX va) in
      if get_pte pde s AND PTE_P \<noteq> 0
      then Ok (Some (P2V (PTE_ADDR (get_pte pde s)), PTX va)) s
      else if \<not> alloc then Ok None s
      else rbind (kalloc s) (\<lambda>pgtab s.
        if pgtab = 0 then Ok None s
        else let s = fill_page pgtab 0 s;
                 s = set_pte pde (V2P pgtab OR PTE_P OR PTE_W OR PTE_U) s
             in Ok (Some (pgtab, PTX va)) s))"

text \<open>
  \<open>mappages_loop n a pa\<close> does the \<open>n + 1\<close> iterations that reach \<^verbatim>\<open>a == last\<close> when \<^verbatim>\<open>last\<close> is
  \<open>n\<close> pages after \<^verbatim>\<open>a\<close>.
\<close>

fun mappages_loop ::
  "nat \<Rightarrow> u32 \<Rightarrow> u32 \<Rightarrow> u32 \<Rightarrow> u32 \<Rightarrow> 'a kmem_scheme \<Rightarrow> ('a kmem_scheme, int) res" where
  "mappages_loop n pgdir a pa perm s =
     rbind (walkpgdir pgdir a True s) (\<lambda>pte s.
       case pte of
         None \<Rightarrow> Ok (-1) s
       | Some p \<Rightarrow>
           if get_pte p s AND PTE_P \<noteq> 0 then Panic ''remap''
           else let s = set_pte p (pa OR perm OR PTE_P) s in
             case n of
               0 \<Rightarrow> Ok 0 s
             | Suc n' \<Rightarrow> mappages_loop n' pgdir (a + PGSIZE) (pa + PGSIZE) perm s)"

declare mappages_loop.simps [simp del]

definition mappages ::
  "u32 \<Rightarrow> u32 \<Rightarrow> u32 \<Rightarrow> u32 \<Rightarrow> u32 \<Rightarrow> 'a kmem_scheme \<Rightarrow> ('a kmem_scheme, int) res" where
  "mappages pgdir va n pa perm s =
     (let a = PGROUNDDOWN va;
          last = PGROUNDDOWN (va + n - 1)
      in mappages_loop (unat (last - a) div 4096) pgdir a pa perm s)"

section \<open>Freeing\<close>

function deallocuvm_loop ::
  "u32 \<Rightarrow> nat \<Rightarrow> nat \<Rightarrow> 'a kmem_scheme \<Rightarrow> ('a kmem_scheme, unit) res" where
  "deallocuvm_loop pgdir oldsz a s =
     (if a < oldsz then
        rbind (walkpgdir pgdir (of_nat a) False s) (\<lambda>pte s.
          case pte of
            None \<Rightarrow> deallocuvm_loop pgdir oldsz ((a div 2 ^ 22 + 1) * 2 ^ 22) s
          | Some p \<Rightarrow>
              if get_pte p s AND PTE_P \<noteq> 0 then
                let pa = PTE_ADDR (get_pte p s) in
                if pa = 0 then Panic ''kfree''
                else rbind (kfree (P2V pa) s) (\<lambda>_ s.
                  deallocuvm_loop pgdir oldsz (a + 4096) (set_pte p 0 s))
              else deallocuvm_loop pgdir oldsz (a + 4096) s)
      else Ok () s)"
  by pat_completeness auto
termination
proof (relation "measure (\<lambda>(pgdir, oldsz, a, s). oldsz - a)", goal_cases)
  case (2 pgdir oldsz a s pte s')
  have "a < (a div 2 ^ 22 + 1) * 2 ^ 22"
    using div_mult_mod_eq [of a "2 ^ 22"] mod_less_divisor [of "2 ^ 22" a] by simp
  with 2 show ?case by simp
qed auto

declare deallocuvm_loop.simps [simp del]

definition deallocuvm ::
  "u32 \<Rightarrow> u32 \<Rightarrow> u32 \<Rightarrow> 'a kmem_scheme \<Rightarrow> ('a kmem_scheme, u32) res" where
  "deallocuvm pgdir oldsz newsz s =
     (if newsz \<ge> oldsz then Ok oldsz s
      else rbind (deallocuvm_loop pgdir (unat oldsz) (unat (PGROUNDUP newsz)) s) (\<lambda>_ s.
        Ok newsz s))"

fun freevm_loop :: "u32 \<Rightarrow> nat list \<Rightarrow> 'a kmem_scheme \<Rightarrow> ('a kmem_scheme, unit) res" where
  "freevm_loop pgdir [] s = Ok () s"
| "freevm_loop pgdir (i # is) s =
     (if get_pte (pgdir, i) s AND PTE_P \<noteq> 0
      then rbind (kfree (P2V (PTE_ADDR (get_pte (pgdir, i) s))) s) (\<lambda>_ s. freevm_loop pgdir is s)
      else freevm_loop pgdir is s)"

definition freevm :: "u32 \<Rightarrow> 'a kmem_scheme \<Rightarrow> ('a kmem_scheme, unit) res" where
  "freevm pgdir s =
     (if pgdir = 0 then Panic ''freevm: no pgdir''
      else rbind (deallocuvm pgdir KERNBASE 0 s) (\<lambda>_ s.
        rbind (freevm_loop pgdir [0..<NPDENTRIES] s) (\<lambda>_ s. kfree pgdir s)))"

section \<open>Address spaces\<close>

definition kmap :: "'a kmem_scheme \<Rightarrow> (u32 \<times> u32 \<times> u32 \<times> u32) list" where
  "kmap s =
     [(KERNBASE, 0, EXTMEM, PTE_W),
      (KERNLINK, V2P KERNLINK, V2P (kdata s), 0),
      (kdata s, V2P (kdata s), PHYSTOP, PTE_W),
      (DEVSPACE, DEVSPACE, 0, PTE_W)]"

fun setupkvm_loop ::
  "u32 \<Rightarrow> (u32 \<times> u32 \<times> u32 \<times> u32) list \<Rightarrow> 'a kmem_scheme \<Rightarrow> ('a kmem_scheme, u32) res" where
  "setupkvm_loop pgdir [] s = Ok pgdir s"
| "setupkvm_loop pgdir ((virt, phys_start, phys_end, perm) # ks) s =
     rbind (mappages pgdir virt (phys_end - phys_start) phys_start perm s) (\<lambda>r s.
       if r < 0 then rbind (freevm pgdir s) (\<lambda>_ s. Ok 0 s)
       else setupkvm_loop pgdir ks s)"

definition setupkvm :: "'a kmem_scheme \<Rightarrow> ('a kmem_scheme, u32) res" where
  "setupkvm s =
     rbind (kalloc s) (\<lambda>pgdir s.
       if pgdir = 0 then Ok 0 s
       else let s = fill_page pgdir 0 s in
         if P2V PHYSTOP > DEVSPACE then Panic ''PHYSTOP too high''
         else setupkvm_loop pgdir (kmap s) s)"

definition kvmalloc :: "'a kmem_scheme \<Rightarrow> ('a kmem_scheme, unit) res" where
  "kvmalloc s = rbind (setupkvm s) (\<lambda>d s. Ok () (switchkvm (s\<lparr>kpgdir := d\<rparr>)))"

definition write_bytes :: "u32 \<Rightarrow> nat \<Rightarrow> u8 list \<Rightarrow> 'a kmem_scheme \<Rightarrow> 'a kmem_scheme" where
  "write_bytes v off bs s = s\<lparr>mem := (mem s)(v :=
     (\<lambda>i. if off \<le> i \<and> i < off + length bs then bs ! (i - off) else mem s v i))\<rparr>"

definition inituvm :: "u32 \<Rightarrow> u8 list \<Rightarrow> 'a kmem_scheme \<Rightarrow> ('a kmem_scheme, unit) res" where
  "inituvm pgdir init s =
     (if length init \<ge> 4096 then Panic ''inituvm: more than a page''
      else rbind (kalloc s) (\<lambda>m s.
        if m = 0 then Panic ''nullptr''
        else let s = fill_page m 0 s in
        rbind (mappages pgdir 0 PGSIZE (V2P m) (PTE_W OR PTE_U) s) (\<lambda>_ s.
          Ok () (write_bytes m 0 init s))))"

text \<open>
  \<^verbatim>\<open>allocuvm\<close> maps pages at once only for what it takes to be the initial stack; every
  other growth is lazy.
\<close>

function allocuvm_loop ::
  "u32 \<Rightarrow> u32 \<Rightarrow> u32 \<Rightarrow> nat \<Rightarrow> 'a kmem_scheme \<Rightarrow> ('a kmem_scheme, u32) res" where
  "allocuvm_loop pgdir oldsz newsz a s =
     (if a < unat newsz then
        rbind (kalloc s) (\<lambda>m s.
          if m = 0 then rbind (deallocuvm pgdir newsz oldsz s) (\<lambda>_ s. Ok 0 s)
          else let s = fill_page m 0 s in
            rbind (mappages pgdir (of_nat a) PGSIZE (V2P m) (PTE_W OR PTE_U) s) (\<lambda>r s.
              if r < 0 then
                rbind (deallocuvm pgdir newsz oldsz s) (\<lambda>_ s.
                rbind (kfree m s) (\<lambda>_ s. Ok 0 s))
              else allocuvm_loop pgdir oldsz newsz (a + 4096) s))
      else Ok newsz s)"
  by pat_completeness auto
termination
  by (relation "measure (\<lambda>(pgdir, oldsz, newsz, a, s). unat newsz - a)") auto

declare allocuvm_loop.simps [simp del]

definition allocuvm ::
  "u32 \<Rightarrow> u32 \<Rightarrow> u32 \<Rightarrow> 'a kmem_scheme \<Rightarrow> ('a kmem_scheme, u32) res" where
  "allocuvm pgdir oldsz newsz s =
     (if newsz \<ge> KERNBASE then Ok 0 s
      else if newsz < oldsz then Ok oldsz s
      else let a = PGROUNDUP oldsz in
        if oldsz > 0 \<and> newsz - oldsz \<le> 2 * PGSIZE \<and> oldsz < 10 * PGSIZE
        then allocuvm_loop pgdir oldsz newsz (unat a) s
        else Ok newsz s)"

definition clearpteu :: "u32 \<Rightarrow> u32 \<Rightarrow> 'a kmem_scheme \<Rightarrow> ('a kmem_scheme, unit) res" where
  "clearpteu pgdir uva s =
     rbind (walkpgdir pgdir uva False s) (\<lambda>pte s.
       case pte of None \<Rightarrow> Panic ''clearpteu''
       | Some p \<Rightarrow> Ok () (set_pte p (get_pte p s AND NOT PTE_U) s))"

definition copyuvm_bad :: "u32 \<Rightarrow> 'a kmem_scheme \<Rightarrow> ('a kmem_scheme, u32) res" where
  "copyuvm_bad d s = rbind (freevm d s) (\<lambda>_ s. Ok 0 s)"

function copyuvm_loop ::
  "u32 \<Rightarrow> u32 \<Rightarrow> nat \<Rightarrow> nat \<Rightarrow> 'a kmem_scheme \<Rightarrow> ('a kmem_scheme, u32) res" where
  "copyuvm_loop pgdir d sz i s =
     (if i < sz then
        rbind (walkpgdir pgdir (of_nat i) False s) (\<lambda>pte s.
          case pte of
            None \<Rightarrow> copyuvm_loop pgdir d sz (i + 4096) s
          | Some p \<Rightarrow>
              if get_pte p s AND PTE_P = 0 then copyuvm_loop pgdir d sz (i + 4096) s
              else let pa = PTE_ADDR (get_pte p s); flags = PTE_FLAGS (get_pte p s) in
                rbind (kalloc s) (\<lambda>m s.
                  if m = 0 then copyuvm_bad d s
                  else let s = s\<lparr>mem := (mem s)(m := mem s (P2V pa))\<rparr> in
                    rbind (mappages d (of_nat i) PGSIZE (V2P m) flags s) (\<lambda>r s.
                      if r < 0 then rbind (kfree m s) (\<lambda>_ s. copyuvm_bad d s)
                      else copyuvm_loop pgdir d sz (i + 4096) s)))
      else Ok d s)"
  by pat_completeness auto
termination
  by (relation "measure (\<lambda>(pgdir, d, sz, i, s). sz - i)") auto

declare copyuvm_loop.simps [simp del]

definition copyuvm :: "u32 \<Rightarrow> u32 \<Rightarrow> 'a kmem_scheme \<Rightarrow> ('a kmem_scheme, u32) res" where
  "copyuvm pgdir sz s =
     rbind (setupkvm s) (\<lambda>d s. if d = 0 then Ok 0 s else copyuvm_loop pgdir d (unat sz) 0 s)"

section \<open>User memory from the kernel\<close>

definition uva2ka :: "u32 \<Rightarrow> u32 \<Rightarrow> 'a kmem_scheme \<Rightarrow> ('a kmem_scheme, u32) res" where
  "uva2ka pgdir uva s =
     rbind (walkpgdir pgdir uva False s) (\<lambda>pte s.
       case pte of
         None \<Rightarrow> Panic ''nullptr''
       | Some p \<Rightarrow>
           if get_pte p s AND PTE_P = 0 then Ok 0 s
           else if get_pte p s AND PTE_U = 0 then Ok 0 s
           else Ok (P2V (PTE_ADDR (get_pte p s))) s)"

function copyout :: "u32 \<Rightarrow> u32 \<Rightarrow> u8 list \<Rightarrow> 'a kmem_scheme \<Rightarrow> ('a kmem_scheme, int) res" where
  "copyout pgdir va bs s =
     (if bs = [] then Ok 0 s
      else let va0 = PGROUNDDOWN va in
        rbind (uva2ka pgdir va0 s) (\<lambda>pa0 s.
          if pa0 = 0 then Ok (-1) s
          else let n = 4096 - unat (va - va0);
                   n = (if n > length bs then length bs else n);
                   s = write_bytes pa0 (unat (va - va0)) (take n bs) s
               in copyout pgdir (va0 + PGSIZE) (drop n bs) s))"
  by pat_completeness auto
termination
proof (relation "measure (\<lambda>(pgdir, va, bs, s). length bs)", goal_cases)
  case (2 pgdir va bs s va0 pa0 s' n n' s'')
  have "va - va0 = va AND 0xFFF"
    using mask_split [of va "0xFFF"] 2
    by (simp add: PGROUNDDOWN_def PGSIZE_def algebra_simps)
  then have "va - va0 \<le> 0xFFF" by (simp add: word_and_le1)
  then have "unat (va - va0) \<le> 4095" by (simp add: word_le_nat_alt)
  with 2 show ?case by auto
qed simp

declare copyout.simps [simp del]


section \<open>Address arithmetic\<close>

lemma PGSIZE_mask: "PGSIZE - 1 = mask 12" "(0xFFF :: u32) = mask 12" "(0x3FF :: u32) = mask 10"
  by (simp_all add: PGSIZE_def mask_eq_exp_minus_1)

lemma PGROUNDDOWN_mask: "PGROUNDDOWN a = a AND NOT (mask 12)"
  by (simp only: PGROUNDDOWN_def PGSIZE_mask)

lemma PTE_ADDR_mask: "PTE_ADDR a = a AND NOT (mask 12)"
  by (simp only: PTE_ADDR_def PGSIZE_mask)

lemma page_aligned_iff: "v mod PGSIZE = 0 \<longleftrightarrow> take_bit 12 v = 0"
  by (simp add: take_bit_eq_mod PGSIZE_def)

lemma PTE_ADDR_or:
  assumes "take_bit 12 a = 0" and "f AND NOT (mask 12) = 0"
  shows "PTE_ADDR (a OR f) = a"
proof -
  have "a AND NOT (mask 12) = a"
    using assms(1) mask_split [of a "mask 12"] by (simp add: take_bit_eq_mask)
  with assms(2) show ?thesis
    by (simp add: PTE_ADDR_mask bit.conj_disj_distrib2)
qed

lemma take_bit_V2P: "take_bit 12 (V2P v) = take_bit 12 v"
proof -
  have "take_bit 12 (v - KERNBASE) = (take_bit 12 v - take_bit 12 KERNBASE) AND mask 12"
    by (simp only: take_bit_eq_mask mask_eqs)
  also have "take_bit 12 KERNBASE = 0" by (simp add: KERNBASE_def)
  finally show ?thesis by (simp add: V2P_def take_bit_eq_mask)
qed

lemma P2V_V2P [simp]: "P2V (V2P v) = v" "V2P (P2V v) = v"
  by (simp_all add: P2V_def V2P_def)

lemma kpage_aligned: "kpage s v \<Longrightarrow> take_bit 12 v = 0"
  by (simp add: kpage_def page_aligned_iff)

lemma pde_of_page:
  assumes "take_bit 12 v = 0"
  shows "P2V (PTE_ADDR (V2P v OR PTE_P OR PTE_W OR PTE_U)) = v"
    and "(V2P v OR PTE_P OR PTE_W OR PTE_U) AND PTE_P \<noteq> 0"
proof -
  have f: "PTE_P OR PTE_W OR PTE_U = 7" by (simp add: PTE_P_def PTE_W_def PTE_U_def)
  have "(7 :: u32) AND NOT (mask 12) = 0" by (simp add: mask_eq_exp_minus_1)
  then show "P2V (PTE_ADDR (V2P v OR PTE_P OR PTE_W OR PTE_U)) = v"
    unfolding f using assms by (subst PTE_ADDR_or) (auto simp: take_bit_V2P)
  have "bit (V2P v OR 7) 0" by (simp add: bit_simps)
  then show "(V2P v OR PTE_P OR PTE_W OR PTE_U) AND PTE_P \<noteq> 0"
    unfolding f by (simp add: PTE_P_def and_one_eq odd_iff_mod_2_eq_one bit_0)
qed

lemma present_or: "(x OR PTE_P) AND PTE_P \<noteq> 0"
  by (simp add: PTE_P_def and_one_eq bit_0 odd_iff_mod_2_eq_one [symmetric] even_or_iff)

lemma PDX_less [simp]: "PDX va < 1024" and PTX_less [simp]: "PTX va < 1024"
  using and_mask_less' [of 10 "drop_bit 22 va"] and_mask_less' [of 10 "drop_bit 12 va"]
  by (simp_all add: PDX_def PTX_def PGSIZE_mask word_less_nat_alt)

section \<open>Page tables as maps\<close>

text \<open>The entry that the hardware finds for an address: 0 when there is no page table.\<close>

definition pd_present :: "'a kmem_scheme \<Rightarrow> u32 \<Rightarrow> nat \<Rightarrow> bool" where
  "pd_present s pgdir i \<longleftrightarrow> get_pte (pgdir, i) s AND PTE_P \<noteq> 0"

definition pt_page :: "'a kmem_scheme \<Rightarrow> u32 \<Rightarrow> nat \<Rightarrow> u32" where
  "pt_page s pgdir i = P2V (PTE_ADDR (get_pte (pgdir, i) s))"

definition pte_at :: "'a kmem_scheme \<Rightarrow> u32 \<Rightarrow> u32 \<Rightarrow> u32" where
  "pte_at s pgdir va =
     (if pd_present s pgdir (PDX va) then get_pte (pt_page s pgdir (PDX va), PTX va) s else 0)"

text \<open>
  Well-formedness: page tables are distinct pages, different from the directory, and none
  of them is on the free list \<open>xs\<close>.
\<close>

definition vm_wf :: "'a kmem_scheme \<Rightarrow> u32 \<Rightarrow> u32 list \<Rightarrow> bool" where
  "vm_wf s pgdir xs \<longleftrightarrow> free_pages s xs \<and> pgdir \<notin> set xs
     \<and> (\<forall>i<1024. pd_present s pgdir i \<longrightarrow>
          pt_page s pgdir i \<noteq> pgdir \<and> pt_page s pgdir i \<notin> set xs)
     \<and> (\<forall>i<1024. \<forall>j<1024. pd_present s pgdir i \<longrightarrow> pd_present s pgdir j \<longrightarrow>
          pt_page s pgdir i = pt_page s pgdir j \<longrightarrow> i = j)"

text \<open>The pages a page table is made of.\<close>

definition vm_pages :: "'a kmem_scheme \<Rightarrow> u32 \<Rightarrow> u32 set" where
  "vm_pages s pgdir = insert pgdir (pt_page s pgdir ` {i. i < 1024 \<and> pd_present s pgdir i})"

lemma get_set_pte [simp]:
  "get_pte p (set_pte q v s) = (if p = q then v else get_pte p s)"
proof (cases "fst p = fst q")
  case True
  show ?thesis
  proof (cases "snd p = snd q")
    case False
    then have "4 * snd q + 4 \<le> 4 * snd p \<or> 4 * snd p + 4 \<le> 4 * snd q" by linarith
    with True False show ?thesis
      by (auto simp: get_pte_def set_pte_def load32_def store32_def prod_eq_iff)
  qed (use True in \<open>simp add: get_pte_def set_pte_def load32_def store32_def prod_eq_iff\<close>)
qed (auto simp: get_pte_def set_pte_def load32_def store32_def)

lemma get_pte_fill [simp]:
  "get_pte p (fill_page v 0 s) = (if fst p = v then 0 else get_pte p s)"
  by (simp add: get_pte_def load32_def fill_page_def load4_def)

lemma get_pte_freelist [simp]: "get_pte p (s\<lparr>freelist := a\<rparr>) = get_pte p s"
  by (simp add: get_pte_def load32_def)

lemma free_pages_mem:
  assumes "free_pages s xs" and "v \<notin> set xs"
  shows "free_pages (s\<lparr>mem := (mem s)(v := b)\<rparr>) xs"
  using assms by (simp add: free_pages_def)

lemma free_pages_set_pte:
  "free_pages s xs \<Longrightarrow> fst p \<notin> set xs \<Longrightarrow> free_pages (set_pte p v s) xs"
  by (simp add: set_pte_def store32_def free_pages_mem)

lemma free_pages_fill:
  "free_pages s xs \<Longrightarrow> v \<notin> set xs \<Longrightarrow> free_pages (fill_page v c s) xs"
  by (simp add: fill_page_def free_pages_mem)

lemma walkpgdir_present:
  "pd_present s pgdir (PDX va) \<Longrightarrow>
    walkpgdir pgdir va al s = Ok (Some (pt_page s pgdir (PDX va), PTX va)) s"
  by (simp add: walkpgdir_def pd_present_def pt_page_def)

lemma walkpgdir_absent:
  "\<not> pd_present s pgdir (PDX va) \<Longrightarrow> walkpgdir pgdir va False s = Ok None s"
  by (simp add: walkpgdir_def pd_present_def)

lemma walkpgdir_alloc_Nil:
  "\<not> pd_present s pgdir (PDX va) \<Longrightarrow> free_pages s [] \<Longrightarrow> walkpgdir pgdir va True s = Ok None s"
  by (simp add: walkpgdir_def pd_present_def kalloc_free_pages_Nil)

text \<open>A walk that has to add a page table takes one page and changes no translation.\<close>

definition add_table :: "u32 \<Rightarrow> nat \<Rightarrow> u32 \<Rightarrow> 'a kmem_scheme \<Rightarrow> 'a kmem_scheme" where
  "add_table pgdir i x s =
     set_pte (pgdir, i) (V2P x OR PTE_P OR PTE_W OR PTE_U)
       (fill_page x 0 (s\<lparr>freelist := load4 0 (mem s x)\<rparr>))"

lemma walkpgdir_alloc_Cons:
  assumes "\<not> pd_present s pgdir (PDX va)" and "free_pages s (x # xs)"
  shows "walkpgdir pgdir va True s = Ok (Some (x, PTX va)) (add_table pgdir (PDX va) x s)"
  using assms kalloc_free_pages_Cons [OF assms(2)]
  by (auto simp: walkpgdir_def pd_present_def add_table_def free_pages_def kpage_def)

lemma get_pte_add_table:
  "get_pte p (add_table pgdir i x s) =
    (if p = (pgdir, i) then V2P x OR PTE_P OR PTE_W OR PTE_U
     else if fst p = x then 0 else get_pte p s)"
  by (simp add: add_table_def)

lemma add_table_props:
  assumes wf: "vm_wf s pgdir (x # xs)" and i: "i < 1024" and np: "\<not> pd_present s pgdir i"
  defines "t \<equiv> add_table pgdir i x s"
  shows "vm_wf t pgdir xs" and "pd_present t pgdir i" and "pt_page t pgdir i = x"
    and "pte_at t pgdir va = pte_at s pgdir va"
    and "vm_pages t pgdir \<union> set xs = vm_pages s pgdir \<union> set (x # xs)"
    and "w \<noteq> pgdir \<Longrightarrow> w \<noteq> x \<Longrightarrow> mem t w = mem s w"
proof -
  from wf have x: "x \<noteq> pgdir" "take_bit 12 x = 0" "x \<notin> set xs" "pgdir \<notin> set xs"
    by (auto simp: vm_wf_def free_pages_def intro: kpage_aligned)
  have entry: "get_pte p t = (if p = (pgdir, i) then V2P x OR PTE_P OR PTE_W OR PTE_U
      else if fst p = x then 0 else get_pte p s)" for p
    by (simp add: t_def get_pte_add_table)
  then have pde: "get_pte (pgdir, j) t =
      (if j = i then V2P x OR PTE_P OR PTE_W OR PTE_U else get_pte (pgdir, j) s)" for j
    using x by simp
  have pres: "pd_present t pgdir j \<longleftrightarrow> j = i \<or> pd_present s pgdir j" for j
    using pde_of_page(2) [OF x(2)] by (simp add: pd_present_def pde)
  have page: "pt_page t pgdir j = (if j = i then x else pt_page s pgdir j)" for j
    using pde_of_page(1) [OF x(2)] by (simp add: pt_page_def pde)
  have "free_pages t xs"
    unfolding t_def add_table_def using x wf kalloc_free_pages_Cons(2) [of s x xs]
    by (intro free_pages_set_pte free_pages_fill) (auto simp: vm_wf_def)
  with wf x show "vm_wf t pgdir xs"
    by (auto simp: vm_wf_def pres page)
  show "pd_present t pgdir i" "pt_page t pgdir i = x" by (simp_all add: pres page)
  have "{j. j < 1024 \<and> pd_present t pgdir j} = insert i {j. j < 1024 \<and> pd_present s pgdir j}"
    using i by (auto simp: pres)
  then have "vm_pages t pgdir =
      insert pgdir (insert x (pt_page t pgdir ` {j. j < 1024 \<and> pd_present s pgdir j}))"
    unfolding vm_pages_def by (simp only: image_insert) (simp add: page [of i])
  also have "pt_page t pgdir ` {j. j < 1024 \<and> pd_present s pgdir j}
      = pt_page s pgdir ` {j. j < 1024 \<and> pd_present s pgdir j}"
    using np by (intro image_cong) (auto simp: page)
  finally show "vm_pages t pgdir \<union> set xs = vm_pages s pgdir \<union> set (x # xs)"
    by (simp add: vm_pages_def insert_commute)
  show "w \<noteq> pgdir \<Longrightarrow> w \<noteq> x \<Longrightarrow> mem t w = mem s w"
    by (simp add: t_def add_table_def set_pte_def store32_def fill_page_def)
  have "pt_page s pgdir j \<noteq> x" "pt_page s pgdir j \<noteq> pgdir" if "pd_present s pgdir j" "j < 1024" for j
    using wf that by (auto simp: vm_wf_def)
  then show "pte_at t pgdir va = pte_at s pgdir va"
    using np PDX_less [of va] by (auto simp: pte_at_def pres page entry x(1))
qed

lemma set_pte_props:
  fixes v :: u32 and j :: nat
  assumes wf: "vm_wf s pgdir xs" and i: "i < 1024" and p: "pd_present s pgdir i"
  defines "t \<equiv> set_pte (pt_page s pgdir i, j) v s"
  shows "vm_wf t pgdir xs" and "pd_present t pgdir k = pd_present s pgdir k"
    and "pt_page t pgdir k = pt_page s pgdir k"
    and "pte_at t pgdir va = (if PDX va = i \<and> PTX va = j then v else pte_at s pgdir va)"
    and "vm_pages t pgdir = vm_pages s pgdir"
    and "w \<noteq> pt_page s pgdir i \<Longrightarrow> mem t w = mem s w"
proof -
  from assms have ne: "pt_page s pgdir i \<noteq> pgdir" "pt_page s pgdir i \<notin> set xs"
    by (auto simp: vm_wf_def)
  have entry: "get_pte p t = (if p = (pt_page s pgdir i, j) then v else get_pte p s)" for p
    by (simp add: t_def)
  with ne have pde: "get_pte (pgdir, k) t = get_pte (pgdir, k) s" for k
    by auto
  then show pres: "pd_present t pgdir k = pd_present s pgdir k"
    and page: "pt_page t pgdir k = pt_page s pgdir k" for k
    by (simp_all add: pd_present_def pt_page_def)
  have "free_pages t xs"
    unfolding t_def using wf ne by (intro free_pages_set_pte) (auto simp: vm_wf_def)
  with wf show "vm_wf t pgdir xs" by (simp add: vm_wf_def pres page)
  show "vm_pages t pgdir = vm_pages s pgdir" by (simp add: vm_pages_def pres page)
  show "w \<noteq> pt_page s pgdir i \<Longrightarrow> mem t w = mem s w"
    by (simp add: t_def set_pte_def store32_def)
  have "pt_page s pgdir (PDX va) = pt_page s pgdir i \<longleftrightarrow> PDX va = i"
    if "pd_present s pgdir (PDX va)"
    using wf i p that by (auto simp: vm_wf_def)
  then show "pte_at t pgdir va = (if PDX va = i \<and> PTX va = j then v else pte_at s pgdir va)"
    using p by (auto simp: pte_at_def pres page entry)
qed

text \<open>One iteration of \<^verbatim>\<open>mappages\<close>: the walk and the store.\<close>

lemma map_one:
  assumes wf: "vm_wf s pgdir xs" and free: "pte_at s pgdir va AND PTE_P = 0"
  shows "(\<not> pd_present s pgdir (PDX va) \<and> xs = [] \<and> walkpgdir pgdir va True s = Ok None s)
    \<or> (\<exists>p t ys. walkpgdir pgdir va True s = Ok (Some p) t \<and> get_pte p t AND PTE_P = 0
        \<and> length xs \<le> Suc (length ys) \<and> vm_wf (set_pte p v t) pgdir ys
        \<and> (\<forall>w. pte_at (set_pte p v t) pgdir w =
             (if PDX w = PDX va \<and> PTX w = PTX va then v else pte_at s pgdir w))
        \<and> vm_pages (set_pte p v t) pgdir \<union> set ys = vm_pages s pgdir \<union> set xs
        \<and> (\<forall>w. w \<notin> vm_pages s pgdir \<union> set xs \<longrightarrow> mem (set_pte p v t) w = mem s w))"
proof (cases "pd_present s pgdir (PDX va)")
  case True
  note sp = set_pte_props [OF wf PDX_less True, where j = "PTX va" and v = v]
  have "get_pte (pt_page s pgdir (PDX va), PTX va) s AND PTE_P = 0"
    using free True by (simp add: pte_at_def)
  moreover have "pt_page s pgdir (PDX va) \<in> vm_pages s pgdir"
    using True by (simp add: vm_pages_def)
  ultimately show ?thesis
    using walkpgdir_present [OF True, of True] sp
    by (intro disjI2 exI [of _ "(pt_page s pgdir (PDX va), PTX va)"] exI [of _ s] exI [of _ xs]) (auto intro!: sp)
next
  case False
  show ?thesis
  proof (cases xs)
    case Nil
    with False wf show ?thesis by (auto simp: vm_wf_def walkpgdir_alloc_Nil)
  next
    case (Cons x ys)
    let ?t = "add_table pgdir (PDX va) x s"
    note at = add_table_props [OF wf [unfolded Cons] PDX_less False]
    note sp = set_pte_props [OF at(1) PDX_less at(2), where j = "PTX va" and v = v, unfolded at(3)]
    have "walkpgdir pgdir va True s = Ok (Some (x, PTX va)) ?t"
      using wf False Cons by (intro walkpgdir_alloc_Cons) (auto simp: vm_wf_def)
    moreover have "get_pte (x, PTX va) ?t = pte_at s pgdir va"
      using at(2,3,4) by (metis pte_at_def)
    moreover have "pgdir \<in> vm_pages s pgdir" by (simp add: vm_pages_def)
    ultimately show ?thesis
      using sp at(4-6) free Cons
      by (intro disjI2 exI [of _ "(x, PTX va)"] exI [of _ ?t] exI [of _ ys]) (auto intro!: sp at(6))
  qed
qed

text \<open>Virtual page numbers, which a directory index and a table index make up.\<close>

definition vpn :: "u32 \<Rightarrow> nat" where "vpn va = unat va div 4096"

lemma unat_less_4G: "unat (va :: u32) < 4294967296"
  using unsigned_less [of va] by simp

lemma unat_ten_bits: "unat (drop_bit n (va :: u32) AND 0x3FF) = unat va div 2 ^ n mod 1024"
proof -
  have "drop_bit n va AND 0x3FF = take_bit 10 (drop_bit n va)"
    by (simp add: take_bit_eq_mask mask_eq_exp_minus_1)
  then have "unat (drop_bit n va AND 0x3FF) = take_bit 10 (drop_bit n (unat va))"
    by (simp only: unsigned_take_bit_eq unat_drop_bit_eq)
  then show ?thesis by (simp add: drop_bit_eq_div take_bit_eq_mod)
qed

lemma PDX_eq: "PDX va = vpn va div 1024" and PTX_eq: "PTX va = vpn va mod 1024"
proof -
  have "unat va div 2 ^ 22 = vpn va div 1024"
    by (simp add: vpn_def div_mult2_eq [symmetric])
  moreover have "vpn va div 1024 < 1024"
    by (simp add: vpn_def less_mult_imp_div_less unat_less_4G)
  ultimately show "PDX va = vpn va div 1024" by (simp add: PDX_def unat_ten_bits)
  show "PTX va = vpn va mod 1024" by (simp add: PTX_def unat_ten_bits vpn_def)
qed

lemma vpn_eq_iff: "PDX a = PDX b \<and> PTX a = PTX b \<longleftrightarrow> vpn a = vpn b"
  unfolding PDX_eq PTX_eq by (metis div_mult_mod_eq)

lemma vpn_add_PGSIZE:
  assumes "vpn a + 1 < 2 ^ 20"
  shows "vpn (a + PGSIZE) = vpn a + 1"
proof -
  have "unat a + 4096 < 2 ^ 32"
    using assms by (simp add: vpn_def)
  then have "unat (a + PGSIZE) = unat a + 4096" by (simp add: PGSIZE_def unat_word_ariths)
  then show ?thesis by (simp add: vpn_def)
qed

lemma mappages_loop_spec:
  assumes "vm_wf s pgdir xs" and "vpn a + n < 2 ^ 20"
    and "\<And>va. vpn a \<le> vpn va \<Longrightarrow> vpn va \<le> vpn a + n \<Longrightarrow> pte_at s pgdir va AND PTE_P = 0"
  shows "\<exists>r t ys. mappages_loop n pgdir a pa perm s = Ok r t \<and> vm_wf t pgdir ys \<and> (r = 0 \<or> r = -1 \<and> ys = [])
    \<and> (\<forall>va. \<not> (vpn a \<le> vpn va \<and> vpn va \<le> vpn a + n) \<longrightarrow> pte_at t pgdir va = pte_at s pgdir va)
    \<and> (r = 0 \<longrightarrow> (\<forall>va. vpn a \<le> vpn va \<and> vpn va \<le> vpn a + n \<longrightarrow>
         pte_at t pgdir va = (pa + of_nat (vpn va - vpn a) * PGSIZE) OR perm OR PTE_P))
    \<and> vm_pages t pgdir \<union> set ys = vm_pages s pgdir \<union> set xs
    \<and> (\<forall>w. w \<notin> vm_pages s pgdir \<union> set xs \<longrightarrow> mem t w = mem s w)"
  using assms
proof (induction n arbitrary: a pa s xs)
  case (0 a pa s xs)
  let ?v = "pa OR perm OR PTE_P"
  have "pte_at s pgdir a AND PTE_P = 0" using 0 by simp
  from map_one [OF "0.prems"(1) this, of ?v] show ?case
  proof (elim disjE exE conjE, goal_cases)
    case 1
    with 0 show ?case by (simp add: mappages_loop.simps [of 0])
  next
    case (2 p t ys)
    then show ?case
      by (intro exI [of _ 0] exI [of _ "set_pte p ?v t"] exI [of _ ys])
        (auto simp: mappages_loop.simps [of 0] vpn_eq_iff)
  qed
next
  case (Suc n a pa s xs)
  let ?v = "pa OR perm OR PTE_P"
  have "pte_at s pgdir a AND PTE_P = 0" using Suc.prems by simp
  from map_one [OF Suc.prems(1) this, of ?v] show ?case
  proof (elim disjE exE conjE, goal_cases)
    case 1
    with Suc.prems show ?case by (simp add: mappages_loop.simps [of "Suc n"])
  next
    case (2 p t ys)
    let ?t = "set_pte p ?v t"
    have v: "vpn (a + PGSIZE) = vpn a + 1" using Suc.prems(2) by (intro vpn_add_PGSIZE) simp
    have pt: "pte_at ?t pgdir w = (if vpn w = vpn a then ?v else pte_at s pgdir w)" for w
      using 2 by (simp add: vpn_eq_iff)
    from Suc.IH [of ?t ys "a + PGSIZE" "pa + PGSIZE"] 2 Suc.prems v
    obtain r u zs where u: "mappages_loop n pgdir (a + PGSIZE) (pa + PGSIZE) perm ?t = Ok r u"
      "vm_wf u pgdir zs" "r = 0 \<or> r = -1 \<and> zs = []"
      "\<forall>va. \<not> (vpn a + 1 \<le> vpn va \<and> vpn va \<le> vpn a + 1 + n) \<longrightarrow> pte_at u pgdir va = pte_at ?t pgdir va"
      "r = 0 \<longrightarrow> (\<forall>va. vpn a + 1 \<le> vpn va \<and> vpn va \<le> vpn a + 1 + n \<longrightarrow>
         pte_at u pgdir va = (pa + PGSIZE + of_nat (vpn va - (vpn a + 1)) * PGSIZE) OR perm OR PTE_P)"
      "vm_pages u pgdir \<union> set zs = vm_pages ?t pgdir \<union> set ys"
      "\<forall>w. w \<notin> vm_pages ?t pgdir \<union> set ys \<longrightarrow> mem u w = mem ?t w"
      by (force simp: pt)
    have shift: "pa + PGSIZE + of_nat (k - (vpn a + 1)) * PGSIZE = pa + of_nat (k - vpn a) * PGSIZE"
      if "vpn a + 1 \<le> k" for k
    proof -
      have "k - vpn a = Suc (k - (vpn a + 1))" using that by simp
      then show ?thesis by (simp only: of_nat_Suc distrib_right add.assoc mult_1)
    qed
    have "pte_at u pgdir va = (pa + of_nat (vpn va - vpn a) * PGSIZE) OR perm OR PTE_P"
      if "r = 0" "vpn a \<le> vpn va" "vpn va \<le> vpn a + Suc n" for va
    proof (cases "vpn va = vpn a")
      case True
      then show ?thesis using u(4) pt by simp
    next
      case False
      then have le: "vpn a + 1 \<le> vpn va" using that by simp
      with that u(5) have "pte_at u pgdir va =
          (pa + PGSIZE + of_nat (vpn va - (vpn a + 1)) * PGSIZE) OR perm OR PTE_P" by simp
      then show ?thesis unfolding shift [OF le] .
    qed
    moreover have "pte_at u pgdir va = pte_at s pgdir va"
      if "\<not> (vpn a \<le> vpn va \<and> vpn va \<le> vpn a + Suc n)" for va
      using that u(4) pt by auto
    ultimately show ?case
      using 2 u by (intro exI [of _ r] exI [of _ u] exI [of _ zs])
        (auto simp: mappages_loop.simps [of "Suc n"])
  qed
qed

lemma PGROUNDDOWN_eq: "PGROUNDDOWN va = va - take_bit 12 va"
  using mask_split [of va "mask 12"]
  by (simp add: PGROUNDDOWN_mask take_bit_eq_mask eq_diff_eq)

lemma unat_PGROUNDDOWN: "unat (PGROUNDDOWN va) = vpn va * 4096"
proof -
  have "take_bit 12 va \<le> va" by (simp add: take_bit_eq_mask word_and_le2)
  moreover have "unat (take_bit 12 va) = unat va mod 4096"
    by (simp only: unsigned_take_bit_eq) (simp add: take_bit_eq_mod)
  ultimately show ?thesis
    by (simp add: PGROUNDDOWN_eq unat_sub vpn_def minus_mod_eq_div_mult)
qed

lemma vpn_PGROUNDDOWN [simp]: "vpn (PGROUNDDOWN va) = vpn va"
  using unat_PGROUNDDOWN [of va] by (simp add: vpn_def)

lemma vpn_mono: "a \<le> b \<Longrightarrow> vpn a \<le> vpn b"
  by (simp add: vpn_def word_le_nat_alt div_le_mono)

lemma vpn_less: "vpn va < 2 ^ 20"
  using unat_less_4G [of va] by (simp add: vpn_def)

lemma mappages_count:
  assumes "va \<le> va + n - 1"
  shows "unat (PGROUNDDOWN (va + n - 1) - PGROUNDDOWN va) div 4096 = vpn (va + n - 1) - vpn va"
proof -
  note le = vpn_mono [OF assms]
  then have "PGROUNDDOWN va \<le> PGROUNDDOWN (va + n - 1)"
    by (simp add: word_le_nat_alt unat_PGROUNDDOWN)
  with le show ?thesis
    by (simp add: unat_sub unat_PGROUNDDOWN diff_mult_distrib [symmetric])
qed

lemma mappages_spec:
  assumes wf: "vm_wf s pgdir xs" and range: "va \<le> va + n - 1"
    and free: "\<And>w. vpn va \<le> vpn w \<Longrightarrow> vpn w \<le> vpn (va + n - 1) \<Longrightarrow> pte_at s pgdir w AND PTE_P = 0"
  shows "\<exists>r t ys. mappages pgdir va n pa perm s = Ok r t \<and> vm_wf t pgdir ys \<and> (r = 0 \<or> r = -1 \<and> ys = [])
    \<and> (\<forall>w. \<not> (vpn va \<le> vpn w \<and> vpn w \<le> vpn (va + n - 1)) \<longrightarrow> pte_at t pgdir w = pte_at s pgdir w)
    \<and> (r = 0 \<longrightarrow> (\<forall>w. vpn va \<le> vpn w \<and> vpn w \<le> vpn (va + n - 1) \<longrightarrow>
         pte_at t pgdir w = (pa + of_nat (vpn w - vpn va) * PGSIZE) OR perm OR PTE_P))
    \<and> vm_pages t pgdir \<union> set ys = vm_pages s pgdir \<union> set xs
    \<and> (\<forall>w. w \<notin> vm_pages s pgdir \<union> set xs \<longrightarrow> mem t w = mem s w)"
proof -
  have sum: "vpn va + (vpn (va + n - 1) - vpn va) = vpn (va + n - 1)"
    using vpn_mono [OF range] by simp
  have "mappages pgdir va n pa perm s
      = mappages_loop (vpn (va + n - 1) - vpn va) pgdir (PGROUNDDOWN va) pa perm s"
    by (simp add: mappages_def mappages_count [OF range])
  moreover note mappages_loop_spec [OF wf, of "PGROUNDDOWN va" "vpn (va + n - 1) - vpn va" pa perm]
  ultimately show ?thesis
    using free vpn_less [of "va + n - 1"] by (simp only: vpn_PGROUNDDOWN sum)
qed

text \<open>Mapping changes memory and the free list, and nothing else of the kernel's state.\<close>

definition mem_only :: "'a kmem_scheme \<Rightarrow> 'a kmem_scheme \<Rightarrow> bool" where
  "mem_only s t \<longleftrightarrow> t = s\<lparr>mem := mem t, freelist := freelist t\<rparr>"

lemma mem_onlyI: "mem_only s (s\<lparr>mem := m, freelist := f\<rparr>)" "mem_only s (s\<lparr>mem := m\<rparr>)"
  "mem_only s (s\<lparr>freelist := f\<rparr>)" "mem_only s s"
  by (cases s, simp add: mem_only_def)+

lemma mem_only_trans: "mem_only s t \<Longrightarrow> mem_only t u \<Longrightarrow> mem_only s u"
  by (cases s; cases t; cases u) (simp add: mem_only_def)

lemma mem_only_simps:
  assumes "mem_only s t"
  shows "held t = held s" "ion t = ion s" "procs t = procs s" "cpus t = cpus s" "kend t = kend s"
    "lapicid t = lapicid s" "on_cpu c t = on_cpu c s" "kpage t v = kpage s v" "use_lock t = use_lock s"
  using assms by (cases s; cases t; simp add: mem_only_def on_cpu_def kpage_def)+

lemma mem_only_set_pte: "mem_only s (set_pte p v s)" "mem_only s (fill_page a c s)"
  by (simp_all add: set_pte_def store32_def fill_page_def mem_onlyI)

lemma walkpgdir_mem_only:
  assumes "L_kmem \<notin> set (held s)" and "walkpgdir pgdir va al s = Ok r t"
  shows "mem_only s t"
  using assms
  by (auto simp: walkpgdir_def kalloc_eq Let_def split: if_splits
      intro: mem_onlyI mem_only_set_pte mem_only_trans [OF mem_onlyI(3)]
        mem_only_trans [OF mem_only_trans [OF mem_onlyI(3) mem_only_set_pte(2)] mem_only_set_pte(1)])

lemma mappages_loop_OkE:
  assumes "mappages_loop n pgdir a pa perm s = Ok r t"
  obtains u where "walkpgdir pgdir a True s = Ok None u" "t = u"
  | q u where "walkpgdir pgdir a True s = Ok (Some q) u" "n = 0" "t = set_pte q (pa OR perm OR PTE_P) u"
  | q u m where "walkpgdir pgdir a True s = Ok (Some q) u" "n = Suc m"
      "mappages_loop m pgdir (a + PGSIZE) (pa + PGSIZE) perm (set_pte q (pa OR perm OR PTE_P) u) = Ok r t"
proof -
  obtain p u where w: "walkpgdir pgdir a True s = Ok p u"
    and e: "(case p of None \<Rightarrow> Ok (-1) u | Some p \<Rightarrow>
        if get_pte p u AND PTE_P \<noteq> 0 then Panic ''remap''
        else let s = set_pte p (pa OR perm OR PTE_P) u in
          case n of 0 \<Rightarrow> Ok 0 s
          | Suc n' \<Rightarrow> mappages_loop n' pgdir (a + PGSIZE) (pa + PGSIZE) perm s) = Ok r t"
    using assms by (subst (asm) mappages_loop.simps) (erule rbind_eq_OkE)
  show thesis
  proof (cases p)
    case None
    with w e that(1) show thesis by simp
  next
    case (Some q)
    show thesis
    proof (cases n)
      case 0
      with Some w e that(2) show thesis by (simp split: if_splits)
    next
      case (Suc m)
      with Some w e that(3) show thesis by (simp split: if_splits)
    qed
  qed
qed

lemma mappages_loop_mem_only:
  assumes "L_kmem \<notin> set (held s)" and "mappages_loop n pgdir a pa perm s = Ok r t"
  shows "mem_only s t"
  using assms
proof (induction n arbitrary: a pa s)
  case 0
  from "0.prems"(2) show ?case
    by (rule mappages_loop_OkE)
      (use walkpgdir_mem_only [OF "0.prems"(1)] mem_only_trans mem_only_set_pte(1) in blast)+
next
  case (Suc n)
  from Suc.prems(2) show ?case
  proof (rule mappages_loop_OkE)
    fix q m and u :: "'a kmem_scheme"
    let ?u = "set_pte q (pa OR perm OR PTE_P) u"
    assume w: "walkpgdir pgdir a True s = Ok (Some q) u" and m: "Suc n = Suc m"
      and e: "mappages_loop m pgdir (a + PGSIZE) (pa + PGSIZE) perm ?u = Ok r t"
    have su: "mem_only s ?u"
      using walkpgdir_mem_only [OF Suc.prems(1) w] mem_only_set_pte(1) by (rule mem_only_trans)
    then have "L_kmem \<notin> set (held ?u)" using Suc.prems(1) mem_only_simps(1) by metis
    from Suc.IH [OF this] e m su show "mem_only s t" using mem_only_trans by blast
  qed (use walkpgdir_mem_only [OF Suc.prems(1)] in auto)
qed

lemma mappages_mem_only:
  "L_kmem \<notin> set (held s) \<Longrightarrow> mappages pgdir va n pa perm s = Ok r t \<Longrightarrow> mem_only s t"
  unfolding mappages_def Let_def by (rule mappages_loop_mem_only)

lemma mappages_remap:
  assumes "pd_present s pgdir (PDX va)" and "pte_at s pgdir va AND PTE_P \<noteq> 0"
  shows "mappages pgdir va n pa perm s = Panic ''remap''"
proof -
  have "PDX (PGROUNDDOWN va) = PDX va" "PTX (PGROUNDDOWN va) = PTX va"
    by (simp_all add: PDX_eq PTX_eq)
  with assms show ?thesis
    by (simp add: mappages_def mappages_loop.simps [of _ pgdir "PGROUNDDOWN va"] walkpgdir_present pte_at_def)
qed

text \<open>What a page table says depends on its own pages only.\<close>

lemma vm_frame:
  assumes "\<And>w. w \<in> vm_pages s pgdir \<Longrightarrow> mem t w = mem s w"
  shows "pd_present t pgdir = pd_present s pgdir" "pt_page t pgdir = pt_page s pgdir"
    "vm_pages t pgdir = vm_pages s pgdir" "pte_at t pgdir va = pte_at s pgdir va"
proof -
  have pd: "get_pte (pgdir, i) t = get_pte (pgdir, i) s" for i
    using assms [of pgdir] by (simp add: get_pte_def load32_def vm_pages_def)
  then show p: "pd_present t pgdir = pd_present s pgdir" "pt_page t pgdir = pt_page s pgdir"
    by (simp_all add: pd_present_def pt_page_def fun_eq_iff)
  then show "vm_pages t pgdir = vm_pages s pgdir" by (simp add: vm_pages_def)
  have "mem t (pt_page s pgdir (PDX va)) = mem s (pt_page s pgdir (PDX va))"
    if "pd_present s pgdir (PDX va)" using that by (intro assms) (simp add: vm_pages_def)
  then show "pte_at t pgdir va = pte_at s pgdir va"
    by (simp add: pte_at_def p get_pte_def load32_def)
qed

lemma and_or_nonzero: "m AND (f :: u32) \<noteq> 0 \<Longrightarrow> (a OR m OR b) AND f \<noteq> 0"
proof
  assume "m AND f \<noteq> 0" "(a OR m OR b) AND f = 0"
  then have "m AND f = 0"
    by (metis bit.conj_disj_distrib2 bit.conj_zero_right or_eq_0_iff)
  with \<open>m AND f \<noteq> 0\<close> show False by simp
qed

lemma uva2ka_mapped:
  assumes "pte_at s pgdir w = pa OR perm OR PTE_P" and "take_bit 12 pa = 0"
    and "perm AND NOT (mask 12) = 0" and "perm AND PTE_U \<noteq> 0"
  shows "uva2ka pgdir w s = Ok (P2V pa) s"
proof -
  have "(pa OR perm OR PTE_P) AND PTE_P \<noteq> 0"
    using present_or [of "pa OR perm"] by (simp add: or.assoc)
  then have present: "pd_present s pgdir (PDX w)"
    using assms(1) by (auto simp: pte_at_def split: if_splits)
  have "PTE_ADDR (pa OR (perm OR PTE_P)) = pa"
    using assms by (intro PTE_ADDR_or) (simp_all add: bit.conj_disj_distrib2 PTE_P_def mask_eq_exp_minus_1)
  moreover have "(pa OR perm OR PTE_P) AND PTE_U \<noteq> 0"
    using assms(4) by (rule and_or_nonzero)
  ultimately show ?thesis
    using present assms(1) \<open>(pa OR perm OR PTE_P) AND PTE_P \<noteq> 0\<close>
    by (simp add: uva2ka_def walkpgdir_present pte_at_def or.assoc)
qed

text \<open>
  C18. \<^verbatim>\<open>mappages\<close> on a range of unmapped pages never panics. It returns 0, and then the
  kernel's lookup \<^verbatim>\<open>uva2ka\<close> finds, for every address of the range, the physical page at the
  same distance from \<^verbatim>\<open>pa\<close>; or it returns -1, and then the allocator has no page left. Either
  way the entries outside the range keep their value, the pages the table is made of come
  from the free list only, and no other page of memory is written.
\<close>

theorem mappages_correct:
  assumes "vm_wf s pgdir xs" and "va \<le> va + n - 1" and "take_bit 12 pa = 0"
    and "perm AND NOT (mask 12) = 0" and "perm AND PTE_U \<noteq> 0"
    and "\<forall>w. vpn va \<le> vpn w \<and> vpn w \<le> vpn (va + n - 1) \<longrightarrow> pte_at s pgdir w AND PTE_P = 0"
  shows "\<exists>r t ys. mappages pgdir va n pa perm s = Ok r t \<and> vm_wf t pgdir ys
    \<and> (r = 0 \<and> (\<forall>w. vpn va \<le> vpn w \<and> vpn w \<le> vpn (va + n - 1) \<longrightarrow>
          uva2ka pgdir w t = Ok (P2V (pa + of_nat (vpn w - vpn va) * PGSIZE)) t)
       \<or> r = -1 \<and> ys = [])
    \<and> (\<forall>w. \<not> (vpn va \<le> vpn w \<and> vpn w \<le> vpn (va + n - 1)) \<longrightarrow> pte_at t pgdir w = pte_at s pgdir w)
    \<and> vm_pages t pgdir \<union> set ys = vm_pages s pgdir \<union> set xs
    \<and> (\<forall>w. w \<notin> vm_pages s pgdir \<union> set xs \<longrightarrow> mem t w = mem s w)"
proof -
  have aligned: "take_bit 12 (pa + of_nat k * PGSIZE) = 0" for k
  proof -
    have "pa = push_bit 12 (drop_bit 12 pa)"
      using assms(3) bits_ident [of 12 pa] by simp
    moreover have "of_nat k * PGSIZE = push_bit 12 (of_nat k :: u32)"
      by (simp add: push_bit_eq_mult PGSIZE_def)
    ultimately have "pa + of_nat k * PGSIZE = push_bit 12 (drop_bit 12 pa + of_nat k)"
      by (simp add: push_bit_add)
    then show ?thesis by (simp only: take_bit_push_bit) simp
  qed
  obtain r t ys where "mappages pgdir va n pa perm s = Ok r t" "vm_wf t pgdir ys" "r = 0 \<or> r = -1 \<and> ys = []"
    "\<forall>w. \<not> (vpn va \<le> vpn w \<and> vpn w \<le> vpn (va + n - 1)) \<longrightarrow> pte_at t pgdir w = pte_at s pgdir w"
    "r = 0 \<longrightarrow> (\<forall>w. vpn va \<le> vpn w \<and> vpn w \<le> vpn (va + n - 1) \<longrightarrow>
         pte_at t pgdir w = (pa + of_nat (vpn w - vpn va) * PGSIZE) OR perm OR PTE_P)"
    "vm_pages t pgdir \<union> set ys = vm_pages s pgdir \<union> set xs"
    "\<forall>w. w \<notin> vm_pages s pgdir \<union> set xs \<longrightarrow> mem t w = mem s w"
    using mappages_spec [OF assms(1,2), of pa perm] assms(6) by blast
  then show ?thesis
    using uva2ka_mapped [OF _ aligned assms(4,5)] by (intro exI [of _ r] exI [of _ t] exI [of _ ys]) blast
qed

lemma vm_wf_empty:
  assumes "free_pages s xs" and "pgdir \<notin> set xs" and "mem s pgdir = (\<lambda>_. 0)"
  shows "vm_wf s pgdir xs" and "pte_at s pgdir w = 0"
proof -
  have "\<not> pd_present s pgdir i" for i
    by (simp add: pd_present_def get_pte_def load32_def assms(3) load4_def)
  with assms show "vm_wf s pgdir xs" "pte_at s pgdir w = 0"
    by (simp_all add: vm_wf_def pte_at_def)
qed

theorem mappages_correct_witness:
  "\<exists>r t. mappages 0x80500000 0x3000 8192 0x600000 (PTE_W OR PTE_U) kmem3 = Ok r t
    \<and> (r = 0 \<or> r = -1)"
proof -
  have "mem kmem3 0x80500000 = (\<lambda>_. 0)" by (simp add: kmem3_def ptab.defs)
  note wf = vm_wf_empty [OF kmem3_free _ this]
  have "take_bit 12 (0x600000 :: u32) = 0" by (simp add: take_bit_eq_mod)
  moreover have "(PTE_W OR PTE_U) AND NOT (mask 12) = 0" "(PTE_W OR PTE_U) AND PTE_U \<noteq> 0"
    by (simp_all add: PTE_W_def PTE_U_def mask_eq_exp_minus_1)
  ultimately show ?thesis
    using mappages_correct [of kmem3 "0x80500000" "[0x80402000, 0x80401000, 0x80400000]" "0x3000" 8192
        "0x600000" "PTE_W OR PTE_U"] wf by fastforce
qed

end
