(* ===== verification/Pipe.thy ===== *)
theory Pipe
  imports Vm
begin

text \<open>
  Pipes: \<^verbatim>\<open>pipeclose\<close>, \<^verbatim>\<open>pipewrite\<close> and \<^verbatim>\<open>piperead\<close> of \<^verbatim>\<open>pipe.c\<close>. A pipe occupies a page that
  \<^verbatim>\<open>kalloc\<close> returned; its fields are kept in a table indexed by the address of that page. The
  ring buffer is shown to implement a bounded queue, the interface of which is a locale, and
  the two blocking system calls are shown safe under any interference that keeps the ring
  well formed. User memory is a byte sequence given to \<^verbatim>\<open>pipewrite\<close> and returned by
  \<^verbatim>\<open>piperead\<close>.
\<close>

section \<open>Data\<close>

definition PIPESIZE :: nat where "PIPESIZE = 512"

record pipe =
  pp_data :: bytes
  pp_nread :: u32
  pp_nwrite :: u32
  pp_readopen :: bool
  pp_writeopen :: bool

record pipest = kmem +
  pipes :: "u32 \<Rightarrow> pipe"

definition upd_pipe :: "u32 \<Rightarrow> (pipe \<Rightarrow> pipe) \<Rightarrow> 'a pipest_scheme \<Rightarrow> 'a pipest_scheme" where
  "upd_pipe p f s = s\<lparr>pipes := (pipes s)(p := f (pipes s p))\<rparr>"

text \<open>\<^verbatim>\<open>p->data[p->nwrite++ % PIPESIZE] = b\<close> and \<^verbatim>\<open>p->data[p->nread++ % PIPESIZE]\<close>.\<close>

definition pipe_put :: "u8 \<Rightarrow> pipe \<Rightarrow> pipe" where
  "pipe_put b q = q\<lparr>pp_data := (pp_data q)(unat (pp_nwrite q) mod PIPESIZE := b),
     pp_nwrite := pp_nwrite q + 1\<rparr>"

definition pipe_get :: "pipe \<Rightarrow> u8 \<times> pipe" where
  "pipe_get q = (pp_data q (unat (pp_nread q) mod PIPESIZE), q\<lparr>pp_nread := pp_nread q + 1\<rparr>)"

definition pipe_full :: "pipe \<Rightarrow> bool" where
  "pipe_full q \<longleftrightarrow> pp_nwrite q = pp_nread q + of_nat PIPESIZE"

definition pipe_empty :: "pipe \<Rightarrow> bool" where
  "pipe_empty q \<longleftrightarrow> pp_nread q = pp_nwrite q"

section \<open>Operations\<close>

definition pipeclose :: "u32 \<Rightarrow> bool \<Rightarrow> 'a pipest_scheme \<Rightarrow> ('a pipest_scheme, unit) res" where
  "pipeclose p writable s =
     rbind (acquire (L_pipe p) s) (\<lambda>_ s.
     rbind (if writable
            then wakeup (Some (Ch_nread p)) (upd_pipe p (\<lambda>q. q\<lparr>pp_writeopen := False\<rparr>) s)
            else wakeup (Some (Ch_nwrite p)) (upd_pipe p (\<lambda>q. q\<lparr>pp_readopen := False\<rparr>) s)) (\<lambda>_ s.
       if \<not> pp_readopen (pipes s p) \<and> \<not> pp_writeopen (pipes s p)
       then rbind (release (L_pipe p) s) (\<lambda>_ s. kfree p s)
       else release (L_pipe p) s))"

text \<open>The inner loop of \<^verbatim>\<open>pipewrite\<close>: it returns True when the writer has to give up.\<close>

definition pipewrite_wait :: "u32 \<Rightarrow> 'a pipest_scheme \<Rightarrow> ('a pipest_scheme, bool) res" where
  "pipewrite_wait p =
     sleep_loop (\<lambda>s.
       if pipe_full (pipes s p) then
         rbind (if \<not> pp_readopen (pipes s p) then Ok True s else myproc_killed s) (\<lambda>stop s.
           if stop then rbind (release (L_pipe p) s) (\<lambda>_ s. Ok (Inl True) s)
           else rbind (wakeup (Some (Ch_nread p)) s) (\<lambda>_ s.
                rbind (sleep (Ch_nwrite p) (Some (L_pipe p)) s) (\<lambda>_ s. Ok (Inr ()) s)))
       else Ok (Inl False) s)"

primrec pipewrite_loop ::
  "nat \<Rightarrow> nat \<Rightarrow> u32 \<Rightarrow> (nat \<Rightarrow> u8) \<Rightarrow> 'a pipest_scheme \<Rightarrow> ('a pipest_scheme, bool) res" where
  "pipewrite_loop 0 i p addr s = Ok False s"
| "pipewrite_loop (Suc k) i p addr s =
     rbind (pipewrite_wait p s) (\<lambda>stop s.
       if stop then Ok True s
       else pipewrite_loop k (i + 1) p addr (upd_pipe p (pipe_put (addr i)) s))"

definition pipewrite ::
  "u32 \<Rightarrow> (nat \<Rightarrow> u8) \<Rightarrow> int \<Rightarrow> 'a pipest_scheme \<Rightarrow> ('a pipest_scheme, int) res" where
  "pipewrite p addr n s =
     rbind (acquire (L_pipe p) s) (\<lambda>_ s.
     rbind (pipewrite_loop (nat n) 0 p addr s) (\<lambda>stop s.
       if stop then Ok (-1) s
       else rbind (wakeup (Some (Ch_nread p)) s) (\<lambda>_ s.
            rbind (release (L_pipe p) s) (\<lambda>_ s. Ok n s))))"

definition piperead_wait :: "u32 \<Rightarrow> 'a pipest_scheme \<Rightarrow> ('a pipest_scheme, bool) res" where
  "piperead_wait p =
     sleep_loop (\<lambda>s.
       if pipe_empty (pipes s p) \<and> pp_writeopen (pipes s p) then
         rbind (myproc_killed s) (\<lambda>stop s.
           if stop then rbind (release (L_pipe p) s) (\<lambda>_ s. Ok (Inl True) s)
           else rbind (sleep (Ch_nread p) (Some (L_pipe p)) s) (\<lambda>_ s. Ok (Inr ()) s))
       else Ok (Inl False) s)"

primrec piperead_loop :: "nat \<Rightarrow> pipe \<Rightarrow> u8 list \<times> pipe" where
  "piperead_loop 0 q = ([], q)"
| "piperead_loop (Suc k) q =
     (if pipe_empty q then ([], q)
      else let (b, q) = pipe_get q; (bs, q) = piperead_loop k q in (b # bs, q))"

definition piperead :: "u32 \<Rightarrow> int \<Rightarrow> 'a pipest_scheme \<Rightarrow> ('a pipest_scheme, int \<times> u8 list) res" where
  "piperead p n s =
     rbind (acquire (L_pipe p) s) (\<lambda>_ s.
     rbind (piperead_wait p s) (\<lambda>stop s.
       if stop then Ok (-1, []) s
       else let (bs, q) = piperead_loop (nat n) (pipes s p);
                s = upd_pipe p (\<lambda>_. q) s in
         rbind (wakeup (Some (Ch_nwrite p)) s) (\<lambda>_ s.
         rbind (release (L_pipe p) s) (\<lambda>_ s. Ok (int (length bs), bs) s))))"

section \<open>The ring buffer as a bounded queue\<close>

text \<open>What the clients of a bounded byte queue rely on.\<close>

locale bounded_queue =
  fixes put :: "'b \<Rightarrow> 'q \<Rightarrow> 'q"
    and get :: "'q \<Rightarrow> 'b \<times> 'q"
    and contents :: "'q \<Rightarrow> 'b list"
    and inv :: "'q \<Rightarrow> bool"
    and cap :: nat
  assumes put_contents: "inv q \<Longrightarrow> length (contents q) < cap \<Longrightarrow> contents (put b q) = contents q @ [b]"
    and put_inv: "inv q \<Longrightarrow> length (contents q) < cap \<Longrightarrow> inv (put b q)"
    and get_contents: "inv q \<Longrightarrow> contents q \<noteq> [] \<Longrightarrow> contents q = fst (get q) # contents (snd (get q))"
    and get_inv: "inv q \<Longrightarrow> contents q \<noteq> [] \<Longrightarrow> inv (snd (get q))"
    and bounded: "inv q \<Longrightarrow> length (contents q) \<le> cap"
begin

lemma put_all:
  assumes "inv q" and "length (contents q) + length bs \<le> cap"
  shows "contents (fold put bs q) = contents q @ bs \<and> inv (fold put bs q)"
  using assms
proof (induction bs arbitrary: q)
  case (Cons b bs)
  then have "inv (put b q)" "contents (put b q) = contents q @ [b]"
    by (simp_all add: put_inv put_contents)
  with Cons.IH [of "put b q"] Cons.prems show ?case by simp
qed simp

primrec get_n :: "nat \<Rightarrow> 'q \<Rightarrow> 'b list \<times> 'q" where
  "get_n 0 q = ([], q)"
| "get_n (Suc k) q =
     (if contents q = [] then ([], q)
      else let (b, q) = get q; (bs, q) = get_n k q in (b # bs, q))"

lemma get_n_contents:
  assumes "inv q"
  shows "fst (get_n k q) = take k (contents q) \<and> contents (snd (get_n k q)) = drop k (contents q)
    \<and> inv (snd (get_n k q))"
  using assms
proof (induction k arbitrary: q)
  case (Suc k)
  show ?case
  proof (cases "contents q = []")
    case False
    obtain b q' where g: "get q = (b, q')" by (cases "get q")
    with Suc.prems False have "contents q = b # contents q'" "inv q'"
      using get_contents [of q] get_inv [of q] by simp_all
    with Suc.IH [of q'] g False show ?thesis by (cases "get_n k q'") simp
  qed (use Suc.prems in simp)
qed simp

lemma fifo:
  assumes "inv q" and "length (contents q) + length bs \<le> cap"
  shows "fst (get_n (length (contents q) + length bs) (fold put bs q)) = contents q @ bs"
  using put_all [OF assms] get_n_contents [of "fold put bs q"] by simp

end

definition pipe_inv :: "pipe \<Rightarrow> bool" where
  "pipe_inv q \<longleftrightarrow> unat (pp_nwrite q - pp_nread q) \<le> PIPESIZE"

definition pipe_contents :: "pipe \<Rightarrow> u8 list" where
  "pipe_contents q = map (\<lambda>k. pp_data q ((unat (pp_nread q) + k) mod PIPESIZE))
     [0..<unat (pp_nwrite q - pp_nread q)]"

lemma unat_add_mod: "unat (r + x) mod PIPESIZE = (unat (r :: u32) + unat x) mod PIPESIZE"
  by (simp add: unat_word_ariths PIPESIZE_def mod_mod_cancel)

lemma nwrite_mod:
  "unat (pp_nwrite q) mod PIPESIZE
    = (unat (pp_nread q) + unat (pp_nwrite q - pp_nread q)) mod PIPESIZE"
  using unat_add_mod [of "pp_nread q" "pp_nwrite q - pp_nread q"] by simp

lemma unat_Suc_small: "unat (d :: u32) < PIPESIZE \<Longrightarrow> unat (d + 1) = Suc (unat d)"
  by (simp add: PIPESIZE_def unat_word_ariths)

lemma mod_window: "k < d \<Longrightarrow> d < PIPESIZE \<Longrightarrow> (a + k) mod PIPESIZE \<noteq> (a + d) mod PIPESIZE"
proof
  assume "k < d" "d < PIPESIZE" "(a + k) mod PIPESIZE = (a + d) mod PIPESIZE"
  then have "PIPESIZE dvd d - k"
    using mod_eq_dvd_iff_nat [of "a + k" "a + d" PIPESIZE] by simp
  with \<open>k < d\<close> \<open>d < PIPESIZE\<close> show False by (auto dest: dvd_imp_le)
qed

lemma pipe_empty_iff: "pipe_empty q \<longleftrightarrow> pipe_contents q = []"
  by (auto simp: pipe_empty_def pipe_contents_def unat_eq_0)

lemma pipe_full_iff: "pipe_full q \<longleftrightarrow> length (pipe_contents q) = PIPESIZE"
proof -
  have "pipe_full q \<longleftrightarrow> pp_nwrite q - pp_nread q = 512"
    by (auto simp: pipe_full_def PIPESIZE_def algebra_simps)
  also have "\<dots> \<longleftrightarrow> unat (pp_nwrite q - pp_nread q) = 512"
    by (simp add: word_unat_eq_iff)
  finally show ?thesis by (simp add: pipe_contents_def PIPESIZE_def)
qed

lemma put_distance:
  "pp_nwrite (pipe_put b q) - pp_nread (pipe_put b q) = pp_nwrite q - pp_nread q + 1"
  by (simp add: pipe_put_def)

lemma pipe_put_contents:
  assumes "length (pipe_contents q) < PIPESIZE"
  shows "pipe_contents (pipe_put b q) = pipe_contents q @ [b]"
proof -
  let ?d = "unat (pp_nwrite q - pp_nread q)"
  have d: "?d < PIPESIZE" using assms by (simp add: pipe_contents_def)
  have "unat (pp_nwrite (pipe_put b q) - pp_nread (pipe_put b q)) = Suc ?d"
    unfolding put_distance using d by (rule unat_Suc_small)
  then have "pipe_contents (pipe_put b q)
      = map (\<lambda>k. pp_data (pipe_put b q) ((unat (pp_nread q) + k) mod PIPESIZE)) [0..<?d]
        @ [pp_data (pipe_put b q) ((unat (pp_nread q) + ?d) mod PIPESIZE)]"
    by (simp add: pipe_contents_def pipe_put_def)
  also have "\<dots> = pipe_contents q @ [b]"
    using mod_window [OF _ d] by (simp add: pipe_put_def nwrite_mod pipe_contents_def)
  finally show ?thesis .
qed

lemma pipe_get_contents:
  assumes "pipe_contents q \<noteq> []"
  shows "pipe_contents q = fst (pipe_get q) # pipe_contents (snd (pipe_get q))"
proof -
  let ?d = "pp_nwrite q - pp_nread q"
  have "?d \<noteq> 0" using assms by (simp add: pipe_contents_def unat_eq_0)
  then have "unat (?d - 1) = unat ?d - 1" by (simp add: unat_minus_one)
  moreover have "unat ?d > 0" using \<open>?d \<noteq> 0\<close> by (simp add: unat_gt_0)
  ultimately have d: "unat ?d = Suc (unat (?d - 1))" by simp
  have "(unat (pp_nread q + 1) + k) mod PIPESIZE = (unat (pp_nread q) + Suc k) mod PIPESIZE" for k
  proof -
    have "(unat (pp_nread q + 1) + k) mod PIPESIZE = (unat (pp_nread q + 1) mod PIPESIZE + k) mod PIPESIZE"
      by (simp only: mod_add_left_eq)
    also have "\<dots> = (unat (pp_nread q) + 1 + k) mod PIPESIZE"
      by (simp only: unat_add_mod unsigned_1 mod_add_left_eq)
    finally show ?thesis by simp
  qed
  then have "pipe_contents (snd (pipe_get q))
      = map (\<lambda>k. pp_data q ((unat (pp_nread q) + Suc k) mod PIPESIZE)) [0..<unat (?d - 1)]"
    unfolding pipe_contents_def pipe_get_def by (simp add: diff_diff_eq)
  then show ?thesis
    unfolding pipe_contents_def [of q] pipe_get_def by (simp only: d map_upt_Suc) simp
qed

lemma pipe_get_inv:
  assumes "pipe_inv q" and "pipe_contents q \<noteq> []"
  shows "pipe_inv (snd (pipe_get q))"
proof -
  have "length (pipe_contents q) = Suc (length (pipe_contents (snd (pipe_get q))))"
    using pipe_get_contents [OF assms(2)] by (metis length_Cons)
  with assms(1) show ?thesis by (simp add: pipe_inv_def pipe_contents_def)
qed

lemma pipe_put_inv:
  assumes "length (pipe_contents q) < PIPESIZE"
  shows "pipe_inv (pipe_put b q)"
proof -
  have "length (pipe_contents (pipe_put b q)) \<le> PIPESIZE"
    using pipe_put_contents [OF assms] assms by simp
  then show ?thesis by (simp add: pipe_inv_def pipe_contents_def)
qed

interpretation ring: bounded_queue pipe_put pipe_get pipe_contents pipe_inv PIPESIZE
  by unfold_locales
    (simp_all add: pipe_put_contents pipe_put_inv pipe_get_contents [symmetric] pipe_get_inv,
     simp add: pipe_inv_def pipe_contents_def)

section \<open>The system calls without contention\<close>

text \<open>A pipe whose counters are about to wrap around, on the machine of \<^const>\<open>kmem3\<close>.\<close>

definition wrap_pipe :: "nat \<Rightarrow> pipe" where
  "wrap_pipe n = \<lparr>pp_data = (\<lambda>_. 65), pp_nread = 0xFFFFFFFE, pp_nwrite = 0xFFFFFFFE + of_nat n,
     pp_readopen = True, pp_writeopen = True\<rparr>"

definition pipe3 :: "nat \<Rightarrow> pipest" where
  "pipe3 n = kmem.extend kmem3 \<lparr>pipes = (\<lambda>_. wrap_pipe n)\<rparr>"

lemma pipe3_simps [simp]:
  "held (pipe3 n) = []" "pipes (pipe3 n) p = wrap_pipe n" "runs 0 (pipe3 n)"
  "procs (pipe3 n) = [user_proc 1 RUNNING 3]"
  by (simp_all add: pipe3_def kmem3_def tab_of_def ptab.defs kmem.defs runs_def on_cpu_def)

lemma wrap_pipe_simps [simp]:
  "pipe_contents (wrap_pipe 0) = []" "pipe_contents (wrap_pipe 3) = [65, 65, 65]"
  "pipe_inv (wrap_pipe 0)" "pipe_inv (wrap_pipe 3)"
  by (simp_all add: wrap_pipe_def pipe_contents_def pipe_inv_def PIPESIZE_def upt_rec)

lemma pipe3_free: "free_pages (pipe3 n) [0x80402000, 0x80401000, 0x80400000]"
  using kmem3_free by (simp add: free_pages_def kpage_def pipe3_def kmem.defs)

lemma upd_pipe_simps [simp]:
  "held (upd_pipe p f s) = held s" "ion (upd_pipe p f s) = ion s" "procs (upd_pipe p f s) = procs s"
  "pipes (upd_pipe p f s) p = f (pipes s p)" "runs i (upd_pipe p f s) = runs i s"
  "q \<noteq> p \<Longrightarrow> pipes (upd_pipe p f s) q = pipes s q"
  by (simp_all add: upd_pipe_def runs_def on_cpu_def)

lemma pipes_frame [simp]:
  "pipes (wakeup1 ch s) = pipes s" "pipes (upd_proc i f s) = pipes s"
  by (simp_all add: wakeup1_def upd_proc_def)

lemma pipewrite_wait_room: "\<not> pipe_full (pipes s p) \<Longrightarrow> pipewrite_wait p s = Ok False s"
  by (simp add: pipewrite_wait_def sleep_loop_unfold)

lemma piperead_wait_ready:
  "\<not> pipe_empty (pipes s p) \<or> \<not> pp_writeopen (pipes s p) \<Longrightarrow> piperead_wait p s = Ok False s"
  by (auto simp: piperead_wait_def sleep_loop_unfold)

lemma upd_pipe_twice: "upd_pipe p f (upd_pipe p g s) = upd_pipe p (\<lambda>q. f (g q)) s"
  by (simp add: upd_pipe_def)

lemma pipewrite_loop_room:
  assumes "length (pipe_contents (pipes s p)) + k \<le> PIPESIZE"
  shows "pipewrite_loop k i p addr s
    = Ok False (upd_pipe p (fold pipe_put (map addr [i..<i + k])) s)"
  using assms
proof (induction k arbitrary: i s)
  case 0
  then show ?case by (simp add: upd_pipe_def)
next
  case (Suc k)
  let ?s = "upd_pipe p (pipe_put (addr i)) s"
  have room: "\<not> pipe_full (pipes s p)" using Suc.prems by (simp add: pipe_full_iff)
  have "length (pipe_contents (pipes ?s p)) + k \<le> PIPESIZE"
    using Suc.prems by (simp add: pipe_put_contents)
  from Suc.IH [OF this, of "i + 1"] room
  have "pipewrite_loop (Suc k) i p addr s
      = Ok False (upd_pipe p (\<lambda>q. fold pipe_put (map addr [i + 1..<i + 1 + k]) (pipe_put (addr i) q)) s)"
    by (simp add: pipewrite_wait_room upd_pipe_twice del: upt_Suc)
  moreover have "map addr [i..<i + Suc k] = addr i # map addr [i + 1..<i + 1 + k]"
    by (simp add: upt_conv_Cons del: upt_Suc)
  ultimately show ?case by (simp add: upd_pipe_def del: upt_Suc pipewrite_loop.simps)
qed

text \<open>
  C23. A write that fits is not interrupted: it appends exactly its bytes to the queue, wakes
  the readers and returns \<open>n\<close>.
\<close>

theorem pipewrite_correct:
  assumes "L_pipe p \<notin> set (held s)" and "L_ptable \<notin> set (held s)" and "pipe_inv (pipes s p)"
    and "0 \<le> n" and "length (pipe_contents (pipes s p)) + nat n \<le> PIPESIZE"
  shows "\<exists>t. pipewrite p addr n s = Ok n t \<and> held t = held s \<and> pipe_inv (pipes t p)
    \<and> pipe_contents (pipes t p) = pipe_contents (pipes s p) @ map addr [0..<nat n]
    \<and> procs t = map (wake (Some (Ch_nread p))) (procs s) \<and> (\<forall>q. q \<noteq> p \<longrightarrow> pipes t q = pipes s q)"
proof -
  let ?s = "s\<lparr>held := L_pipe p # held s\<rparr>" and ?f = "fold pipe_put (map addr [0..<nat n])"
  let ?t = "wakeup1 (Some (Ch_nread p)) (upd_pipe p ?f ?s)"
  have "pipewrite_loop (nat n) 0 p addr ?s = Ok False (upd_pipe p ?f ?s)"
    using assms(5) pipewrite_loop_room [of ?s p "nat n" 0 addr] by simp
  then have run: "pipewrite p addr n s = Ok n (?t\<lparr>held := held s\<rparr>)"
    using assms(1,2) by (simp add: pipewrite_def wakeup_eq)
  have "pipe_contents (?f (pipes s p)) = pipe_contents (pipes s p) @ map addr [0..<nat n]
      \<and> pipe_inv (?f (pipes s p))"
    using ring.put_all [OF assms(3), of "map addr [0..<nat n]"] assms(5) by simp
  with run show ?thesis by simp
qed

theorem pipewrite_correct_witness:
  "\<exists>t. pipewrite 0x80500000 (\<lambda>i. of_nat (i + 97)) 3 (pipe3 0) = Ok 3 t
    \<and> pipe_contents (pipes t 0x80500000) = [97, 98, 99]"
  using pipewrite_correct [of "0x80500000" "pipe3 0" 3 "\<lambda>i. of_nat (i + 97)"]
  by (auto simp: PIPESIZE_def upt_rec)

lemma piperead_loop_ring: "piperead_loop k q = ring.get_n k q"
  by (induction k arbitrary: q) (simp_all add: pipe_empty_iff)

text \<open>
  C24. A read of a pipe that has data, or whose write end is closed, does not block: it
  returns the oldest bytes of the queue, at most \<open>n\<close> and all there are if fewer, removes
  exactly these, and wakes the writers.
\<close>

theorem piperead_correct:
  assumes "L_pipe p \<notin> set (held s)" and "L_ptable \<notin> set (held s)" and "pipe_inv (pipes s p)"
    and "0 \<le> n" and "pipe_contents (pipes s p) \<noteq> [] \<or> \<not> pp_writeopen (pipes s p)"
  shows "\<exists>t. piperead p n s =
      Ok (int (min (nat n) (length (pipe_contents (pipes s p)))), take (nat n) (pipe_contents (pipes s p))) t
    \<and> held t = held s \<and> pipe_inv (pipes t p)
    \<and> pipe_contents (pipes t p) = drop (nat n) (pipe_contents (pipes s p))
    \<and> procs t = map (wake (Some (Ch_nwrite p))) (procs s) \<and> (\<forall>q. q \<noteq> p \<longrightarrow> pipes t q = pipes s q)"
proof -
  let ?s = "s\<lparr>held := L_pipe p # held s\<rparr>"
  obtain bs q where g: "ring.get_n (nat n) (pipes s p) = (bs, q)"
    by (cases "ring.get_n (nat n) (pipes s p)")
  let ?t = "wakeup1 (Some (Ch_nwrite p)) (upd_pipe p (\<lambda>_. q) ?s)"
  have bs: "bs = take (nat n) (pipe_contents (pipes s p))" "pipe_inv q"
    "pipe_contents q = drop (nat n) (pipe_contents (pipes s p))"
    using ring.get_n_contents [OF assms(3), of "nat n"] g by simp_all
  have "piperead_wait p ?s = Ok False ?s"
    using assms(5) by (intro piperead_wait_ready) (auto simp: pipe_empty_iff)
  then have "piperead p n s = Ok (int (length bs), bs) (?t\<lparr>held := held s\<rparr>)"
    using assms(1,2) g by (simp add: piperead_def wakeup_eq piperead_loop_ring)
  with bs show ?thesis by (simp add: min.commute)
qed

theorem piperead_correct_witness:
  "\<exists>t. piperead 0x80500000 2 (pipe3 3) = Ok (2, [65, 65]) t \<and> pipe_contents (pipes t 0x80500000) = [65]"
  using piperead_correct [of "0x80500000" "pipe3 3" 2] by (auto simp: numeral_2_eq_2)

section \<open>Blocking\<close>

text \<open>
  What a blocked writer leaves behind, and what it may rely on when it is scheduled again:
  the ring is well formed, whatever the other threads have put in or taken out.
\<close>

definition writer_sleeps :: "u32 \<Rightarrow> nat \<Rightarrow> 'a pipest_scheme \<Rightarrow> bool" where
  "writer_sleeps p i s \<longleftrightarrow> held s = [L_ptable] \<and> pipe_inv (pipes s p)
     \<and> pipe_full (pipes s p) \<and> pp_readopen (pipes s p)
     \<and> p_state (procs s ! i) = SLEEPING \<and> p_chan (procs s ! i) = Some (Ch_nwrite p)
     \<and> (\<forall>q\<in>set (procs s). \<not> (p_state q = SLEEPING \<and> p_chan q = Some (Ch_nread p)))"

definition reader_sleeps :: "u32 \<Rightarrow> nat \<Rightarrow> 'a pipest_scheme \<Rightarrow> bool" where
  "reader_sleeps p i s \<longleftrightarrow> held s = [L_ptable] \<and> pipe_inv (pipes s p)
     \<and> pipe_contents (pipes s p) = [] \<and> pp_writeopen (pipes s p)
     \<and> p_state (procs s ! i) = SLEEPING \<and> p_chan (procs s ! i) = Some (Ch_nread p)"

definition others :: "u32 \<Rightarrow> nat \<Rightarrow> 'a pipest_scheme \<Rightarrow> 'a pipest_scheme \<Rightarrow> bool" where
  "others p i s t \<longleftrightarrow> runs i t \<and> held t = [L_ptable] \<and> pipe_inv (pipes t p)"

definition in_pipe :: "u32 \<Rightarrow> nat \<Rightarrow> 'a pipest_scheme \<Rightarrow> bool" where
  "in_pipe p i s \<longleftrightarrow> runs i s \<and> held s = [L_pipe p] \<and> pipe_inv (pipes s p)"

lemma asleep_simps [simp]:
  "pipes (asleep i ch s) = pipes s" "held (asleep i ch s) = [L_ptable]"
  "procs (asleep i ch s) = (procs s)[i := (procs s ! i)\<lparr>p_chan := Some ch, p_state := SLEEPING\<rparr>]"
  by (simp_all add: asleep_def)

lemma wake_none: "\<not> (p_state (wake ch q) = SLEEPING \<and> p_chan (wake ch q) = ch)"
  by (simp add: wake_def)

lemma writer_sleepsI:
  assumes "in_pipe p i s" and "pipe_full (pipes s p)" and "pp_readopen (pipes s p)"
  shows "writer_sleeps p i (asleep i (Ch_nwrite p) (wakeup1 (Some (Ch_nread p)) s))"
proof -
  have "i < length (procs s)" using assms(1) by (simp add: in_pipe_def runs_def)
  moreover have "\<not> (p_state q = SLEEPING \<and> p_chan q = Some (Ch_nread p))"
    if "q \<in> set ((map (wake (Some (Ch_nread p))) (procs s))[i := r])" "p_chan r = Some (Ch_nwrite p)" for q r
    using set_update_subset_insert that wake_none by fastforce
  ultimately show ?thesis
    using assms by (simp add: writer_sleeps_def in_pipe_def)
qed

lemma pipewrite_wait_safe:
  assumes "in_pipe p i s"
  shows "safe (writer_sleeps p i) (others p i) (pipewrite_wait p s)
    (\<lambda>stop t. if stop then held t = [] \<and> runs i t \<and> pipe_inv (pipes t p)
      else in_pipe p i t \<and> \<not> pipe_full (pipes t p))"
  unfolding pipewrite_wait_def
proof (rule safe_sleep_loop [where J = "in_pipe p i", OF assms], goal_cases)
  case (1 s)
  then have i: "runs i s" "held s = [L_pipe p]" "pipe_inv (pipes s p)" by (simp_all add: in_pipe_def)
  let ?s = "wakeup1 (Some (Ch_nread p)) s"
  have "safe (writer_sleeps p i) (others p i) (sleep (Ch_nwrite p) (Some (L_pipe p)) ?s) (\<lambda>_. in_pipe p i)"
    if "pipe_full (pipes s p)" "pp_readopen (pipes s p)"
    using i writer_sleepsI [OF 1 that] by (intro safe_sleep) (auto simp: others_def in_pipe_def)
  then show ?case
    using i 1 by (auto simp: myproc_killed_def wakeup_eq intro!: safe_bind)
next
  case (2 s u s')
  then have "runs i s" "held s = [L_pipe p]" by (simp_all add: in_pipe_def)
  then show ?case
    by (auto simp: myproc_killed_def wakeup_eq runs_sleep [of i "wakeup1 (Some (Ch_nread p)) s"])
qed

lemma pipewrite_loop_safe:
  assumes "in_pipe p i s"
  shows "safe (writer_sleeps p i) (others p i) (pipewrite_loop k j p addr s)
    (\<lambda>stop t. if stop then held t = [] \<and> runs i t \<and> pipe_inv (pipes t p) else in_pipe p i t)"
  using assms
proof (induction k arbitrary: j s)
  case (Suc k)
  have put: "in_pipe p i (upd_pipe p (pipe_put b) t)"
    if "in_pipe p i t" "\<not> pipe_full (pipes t p)" for b and t :: "'a pipest_scheme"
  proof -
    have "length (pipe_contents (pipes t p)) < PIPESIZE"
      using that by (auto simp: in_pipe_def pipe_full_iff pipe_inv_def pipe_contents_def)
    then have "pipe_inv (pipe_put b (pipes t p))" by (rule pipe_put_inv)
    with that(1) show ?thesis by (simp add: in_pipe_def)
  qed
  show ?case
    unfolding pipewrite_loop.simps
  proof (rule safe_bind [OF pipewrite_wait_safe [OF Suc.prems]])
    fix stop and t :: "'a pipest_scheme"
    assume "if stop then held t = [] \<and> runs i t \<and> pipe_inv (pipes t p)
      else in_pipe p i t \<and> \<not> pipe_full (pipes t p)"
    then show "safe (writer_sleeps p i) (others p i)
      (if stop then Ok True t else pipewrite_loop k (j + 1) p addr (upd_pipe p (pipe_put (addr j)) t))
      (\<lambda>stop t. if stop then held t = [] \<and> runs i t \<and> pipe_inv (pipes t p) else in_pipe p i t)"
      by (cases stop) (simp_all add: Suc.IH put)
  qed
qed simp

text \<open>
  C25. A write is safe whatever the other threads do to the pipe, as long as they keep its
  ring well formed: it never panics; it blocks only while the pipe is full and the read end
  open, and only after it has woken every reader that slept on the pipe (so no wakeup is
  missed); it returns \<open>n\<close> or -1, with no lock held and the ring well formed.
\<close>

theorem pipewrite_safe:
  assumes "runs i s" and "held s = []" and "pipe_inv (pipes s p)"
  shows "safe (writer_sleeps p i) (others p i) (pipewrite p addr n s)
    (\<lambda>r t. held t = [] \<and> pipe_inv (pipes t p) \<and> (r = n \<or> r = -1))"
proof -
  let ?s = "s\<lparr>held := [L_pipe p]\<rparr>"
  have start: "in_pipe p i ?s" using assms by (simp add: in_pipe_def)
  have "safe (writer_sleeps p i) (others p i)
    (rbind (pipewrite_loop (nat n) 0 p addr ?s) (\<lambda>stop s.
       if stop then Ok (-1) s
       else rbind (wakeup (Some (Ch_nread p)) s) (\<lambda>_ s.
            rbind (release (L_pipe p) s) (\<lambda>_ s. Ok n s))))
    (\<lambda>r t. held t = [] \<and> pipe_inv (pipes t p) \<and> (r = n \<or> r = -1))"
    by (rule safe_bind [OF pipewrite_loop_safe [OF start]])
      (auto simp: wakeup_eq in_pipe_def)
  with assms(2) show ?thesis by (simp add: pipewrite_def)
qed

theorem pipewrite_safe_witness:
  "safe (writer_sleeps 0x80500000 0) (others 0x80500000 0)
    (pipewrite 0x80500000 (\<lambda>_. 7) 600 (pipe3 3))
    (\<lambda>r t. held t = [] \<and> pipe_inv (pipes t 0x80500000) \<and> (r = 600 \<or> r = -1))"
  using pipewrite_safe [of 0 "pipe3 3" "0x80500000" "\<lambda>_. 7" 600] by simp

lemma piperead_loop_writeopen: "pp_writeopen (snd (piperead_loop k q)) = pp_writeopen q"
proof (induction k arbitrary: q)
  case (Suc k)
  then show ?case by (simp add: pipe_get_def case_prod_beta)
qed simp

lemma piperead_wait_safe:
  assumes "in_pipe p i s"
  shows "safe (reader_sleeps p i) (others p i) (piperead_wait p s)
    (\<lambda>stop t. if stop then held t = [] \<and> runs i t \<and> pipe_inv (pipes t p)
      else in_pipe p i t \<and> (pipe_contents (pipes t p) \<noteq> [] \<or> \<not> pp_writeopen (pipes t p)))"
  unfolding piperead_wait_def
proof (rule safe_sleep_loop [where J = "in_pipe p i", OF assms], goal_cases)
  case (1 s)
  then have i: "runs i s" "held s = [L_pipe p]" "pipe_inv (pipes s p)" "i < length (procs s)"
    by (simp_all add: in_pipe_def runs_def)
  have "safe (reader_sleeps p i) (others p i) (sleep (Ch_nread p) (Some (L_pipe p)) s) (\<lambda>_. in_pipe p i)"
    if "pipe_empty (pipes s p)" "pp_writeopen (pipes s p)"
    using i that by (intro safe_sleep) (auto simp: others_def in_pipe_def reader_sleeps_def pipe_empty_iff)
  then show ?case
    using i 1 by (auto simp: myproc_killed_def pipe_empty_iff intro!: safe_bind)
next
  case (2 s u s')
  then have "runs i s" "held s = [L_pipe p]" by (simp_all add: in_pipe_def)
  then show ?case by (auto simp: myproc_killed_def runs_sleep)
qed

text \<open>
  C26. A read is safe in the same way: it blocks only while the pipe is empty and its write
  end open, and a result other than -1 is the number of bytes it took, at most \<open>n\<close>, and 0
  only if \<open>n\<close> is not positive or the write end is closed.
\<close>

theorem piperead_safe:
  assumes "runs i s" and "held s = []" and "pipe_inv (pipes s p)"
  shows "safe (reader_sleeps p i) (others p i) (piperead p n s)
    (\<lambda>r t. held t = [] \<and> pipe_inv (pipes t p)
      \<and> (r = (-1, []) \<or> fst r = int (length (snd r)) \<and> length (snd r) \<le> nat n
           \<and> (snd r = [] \<longrightarrow> n \<le> 0 \<or> \<not> pp_writeopen (pipes t p))))"
proof -
  let ?s = "s\<lparr>held := [L_pipe p]\<rparr>"
  have start: "in_pipe p i ?s" using assms by (simp add: in_pipe_def)
  have "safe (reader_sleeps p i) (others p i)
    (rbind (piperead_wait p ?s) (\<lambda>stop s.
       if stop then Ok (-1, []) s
       else let (bs, q) = piperead_loop (nat n) (pipes s p); s = upd_pipe p (\<lambda>_. q) s in
         rbind (wakeup (Some (Ch_nwrite p)) s) (\<lambda>_ s.
         rbind (release (L_pipe p) s) (\<lambda>_ s. Ok (int (length bs), bs) s))))
    (\<lambda>r t. held t = [] \<and> pipe_inv (pipes t p)
      \<and> (r = (-1, []) \<or> fst r = int (length (snd r)) \<and> length (snd r) \<le> nat n
           \<and> (snd r = [] \<longrightarrow> n \<le> 0 \<or> \<not> pp_writeopen (pipes t p))))"
  proof (rule safe_bind [OF piperead_wait_safe [OF start]], goal_cases)
    case (1 stop t)
    show ?case
    proof (cases stop)
      case False
      obtain bs q where g: "piperead_loop (nat n) (pipes t p) = (bs, q)"
        by (cases "piperead_loop (nat n) (pipes t p)")
      have t: "held t = [L_pipe p]" "pipe_inv (pipes t p)"
        "pipe_contents (pipes t p) \<noteq> [] \<or> \<not> pp_writeopen (pipes t p)"
        using 1 False by (simp_all add: in_pipe_def)
      have q: "bs = take (nat n) (pipe_contents (pipes t p))" "pipe_inv q"
        using ring.get_n_contents [OF t(2), of "nat n"] g by (simp_all add: piperead_loop_ring)
      have "pp_writeopen q = pp_writeopen (pipes t p)"
        using piperead_loop_writeopen [of "nat n" "pipes t p"] g by simp
      with t q g False show ?thesis by (auto simp: wakeup_eq)
    qed (use 1 in simp)
  qed
  with assms(2) show ?thesis by (simp add: piperead_def)
qed

theorem piperead_safe_witness:
  "safe (reader_sleeps 0x80500000 0) (others 0x80500000 0) (piperead 0x80500000 9 (pipe3 0))
    (\<lambda>r t. held t = [] \<and> pipe_inv (pipes t 0x80500000)
      \<and> (r = (-1, []) \<or> fst r = int (length (snd r)) \<and> length (snd r) \<le> nat 9
           \<and> (snd r = [] \<longrightarrow> 9 \<le> (0::int) \<or> \<not> pp_writeopen (pipes t 0x80500000))))"
  using piperead_safe [of 0 "pipe3 0" "0x80500000" 9] by simp

text \<open>
  \<^verbatim>\<open>pipeclose\<close> of the first end keeps the page and wakes the other side; closing the
  second end gives the page back to the allocator.
\<close>

theorem pipeclose_correct:
  assumes "L_pipe p \<notin> set (held s)" and "L_ptable \<notin> set (held s)"
    and "free_pages s xs" and "kpage s p" and "p \<notin> set xs"
  shows "\<exists>t. pipeclose p writable s = Ok () t \<and> held t = held s
    \<and> procs t = map (wake (Some (if writable then Ch_nread p else Ch_nwrite p))) (procs s)
    \<and> (if writable then \<not> pp_writeopen (pipes t p) \<and> pp_readopen (pipes t p) = pp_readopen (pipes s p)
       else \<not> pp_readopen (pipes t p) \<and> pp_writeopen (pipes t p) = pp_writeopen (pipes s p))
    \<and> free_pages t (if (if writable then pp_readopen (pipes s p) else pp_writeopen (pipes s p))
                     then xs else p # xs)"
proof -
  define s1 where "s1 = (if writable
    then wakeup1 (Some (Ch_nread p)) (upd_pipe p (\<lambda>q. q\<lparr>pp_writeopen := False\<rparr>) s)
    else wakeup1 (Some (Ch_nwrite p)) (upd_pipe p (\<lambda>q. q\<lparr>pp_readopen := False\<rparr>) s))"
  have f: "free_pages s1 xs" "kpage s1 p" "held s1 = held s"
    using assms by (auto simp: s1_def free_pages_def kpage_def wakeup1_def upd_pipe_def)
  have run: "pipeclose p writable s =
      (if \<not> pp_readopen (pipes s1 p) \<and> \<not> pp_writeopen (pipes s1 p) then kfree p s1 else Ok () s1)"
    using assms(1,2) by (cases s) (auto simp: pipeclose_def s1_def wakeup_eq wakeup1_def upd_pipe_def)
  have k: "kfree p s1 = Ok () (s1\<lparr>mem := (mem s1)(p := store4 0 (freelist s1) (\<lambda>_. 1)), freelist := p\<rparr>)"
    using f by (intro kfree_page) (simp_all add: free_pages_def)
  obtain t where "kfree p s1 = Ok () t" "free_pages t (p # xs)"
    using kfree_free_pages [OF f(1,2) assms(5)] by blast
  with k have "free_pages (s1\<lparr>mem := (mem s1)(p := store4 0 (freelist s1) (\<lambda>_. 1)), freelist := p\<rparr>) (p # xs)"
    by simp
  with run k f show ?thesis by (cases writable) (auto simp: s1_def)
qed

theorem pipeclose_correct_witness:
  "\<exists>t. pipeclose 0x80500000 True (pipe3 0) = Ok () t \<and> \<not> pp_writeopen (pipes t 0x80500000)"
proof -
  have "kpage (pipe3 0) 0x80500000"
    by (simp add: pipe3_def kmem3_def ptab.defs kmem.defs kpage_def PGSIZE_def V2P_def KERNBASE_def PHYSTOP_def)
  with pipeclose_correct [of "0x80500000" "pipe3 0" "[0x80402000, 0x80401000, 0x80400000]" True] pipe3_free
  show ?thesis by auto
qed

end
