(* ===== verification/Sleeplock.thy ===== *)
theory Sleeplock
  imports Pipe
begin

text \<open>
  Sleep locks, \<^verbatim>\<open>sleeplock.c\<close>. Every sleep lock of the kernel is embedded in a buffer or an
  inode; the state keeps them in one table indexed by that owner. The lock word is protected
  by the lock's own spin lock.
\<close>

section \<open>Operations\<close>

record sleeplock =
  sl_locked :: bool
  sl_pid :: int

record slst = pipest +
  slks :: "slid \<Rightarrow> sleeplock"

definition upd_slk :: "slid \<Rightarrow> (sleeplock \<Rightarrow> sleeplock) \<Rightarrow> 'a slst_scheme \<Rightarrow> 'a slst_scheme" where
  "upd_slk l f s = s\<lparr>slks := (slks s)(l := f (slks s l))\<rparr>"

definition initsleeplock :: "slid \<Rightarrow> 'a slst_scheme \<Rightarrow> 'a slst_scheme" where
  "initsleeplock l s = upd_slk l (\<lambda>k. k\<lparr>sl_locked := False, sl_pid := 0\<rparr>) s"

definition acquiresleep :: "slid \<Rightarrow> 'a slst_scheme \<Rightarrow> ('a slst_scheme, unit) res" where
  "acquiresleep l s =
     rbind (acquire (L_slk l) s) (\<lambda>_ s.
     rbind (sleep_loop (\<lambda>s.
              if sl_locked (slks s l)
              then rbind (sleep (Ch_slk l) (Some (L_slk l)) s) (\<lambda>_ s. Ok (Inr ()) s)
              else Ok (Inl ()) s) s) (\<lambda>_ s.
     let s = upd_slk l (\<lambda>k. k\<lparr>sl_locked := True\<rparr>) s in
     rbind (myproc s) (\<lambda>p s.
       case p of None \<Rightarrow> Panic ''nullptr''
       | Some i \<Rightarrow> release (L_slk l) (upd_slk l (\<lambda>k. k\<lparr>sl_pid := p_pid (procs s ! i)\<rparr>) s))))"

definition releasesleep :: "slid \<Rightarrow> 'a slst_scheme \<Rightarrow> ('a slst_scheme, unit) res" where
  "releasesleep l s =
     rbind (acquire (L_slk l) s) (\<lambda>_ s.
     rbind (wakeup (Some (Ch_slk l)) (upd_slk l (\<lambda>k. k\<lparr>sl_locked := False, sl_pid := 0\<rparr>) s)) (\<lambda>_ s.
       release (L_slk l) s))"

definition holdingsleep :: "slid \<Rightarrow> 'a slst_scheme \<Rightarrow> ('a slst_scheme, bool) res" where
  "holdingsleep l s =
     rbind (acquire (L_slk l) s) (\<lambda>_ s.
     rbind (if sl_locked (slks s l)
            then rbind (myproc s) (\<lambda>p s. case p of None \<Rightarrow> Panic ''nullptr''
                   | Some i \<Rightarrow> Ok (sl_pid (slks s l) = p_pid (procs s ! i)) s)
            else Ok False s) (\<lambda>r s.
     rbind (release (L_slk l) s) (\<lambda>_ s. Ok r s)))"

section \<open>Frame lemmas\<close>

lemma upd_slk_simps [simp]:
  "held (upd_slk l f s) = held s" "ion (upd_slk l f s) = ion s" "procs (upd_slk l f s) = procs s"
  "pipes (upd_slk l f s) = pipes s" "runs i (upd_slk l f s) = runs i s" "on_cpu c (upd_slk l f s) = on_cpu c s"
  "slks (upd_slk l f s) = (slks s)(l := f (slks s l))" "slst.more (upd_slk l f s) = slst.more s"
  by (simp_all add: upd_slk_def runs_def on_cpu_def)

lemma slks_frame [simp]:
  "slks (wakeup1 ch s) = slks s" "slks (upd_proc i f s) = slks s" "slks (asleep i c s) = slks s"
  "slst.more (wakeup1 ch s) = slst.more s" "slst.more (upd_proc i f s) = slst.more s"
  "slst.more (asleep i c s) = slst.more s"
  by (simp_all add: wakeup1_def upd_proc_def asleep_def)

section \<open>Correctness\<close>

lemma acquiresleep_free:
  assumes "runs i s" and "L_slk l \<notin> set (held s)" and "\<not> sl_locked (slks s l)"
  shows "acquiresleep l s
    = Ok () (upd_slk l (\<lambda>k. k\<lparr>sl_locked := True, sl_pid := p_pid (procs s ! i)\<rparr>) s)"
  using assms by (cases s)
    (simp add: acquiresleep_def sleep_loop_unfold Let_def upd_slk_def runs_def on_cpu_def)

lemma releasesleep_eq:
  assumes "L_slk l \<notin> set (held s)" and "L_ptable \<notin> set (held s)"
  shows "releasesleep l s = Ok () (wakeup1 (Some (Ch_slk l))
    (upd_slk l (\<lambda>k. k\<lparr>sl_locked := False, sl_pid := 0\<rparr>) s))"
  using assms by (cases s) (simp add: releasesleep_def wakeup_eq upd_slk_def wakeup1_def)

lemma holdingsleep_eq:
  assumes "runs i s" and "L_slk l \<notin> set (held s)"
  shows "holdingsleep l s = Ok (sl_locked (slks s l) \<and> sl_pid (slks s l) = p_pid (procs s ! i)) s"
  using assms by (simp add: holdingsleep_def)


definition slk3 :: "slid \<Rightarrow> bool \<Rightarrow> slst" where
  "slk3 l b = pipest.extend (pipe3 0) \<lparr>slks = (\<lambda>_. \<lparr>sl_locked = False, sl_pid = 0\<rparr>)(l := \<lparr>sl_locked = b, sl_pid = 9\<rparr>)\<rparr>"

lemma slk3_simps [simp]:
  "held (slk3 l b) = []" "runs 0 (slk3 l b)" "procs (slk3 l b) = [user_proc 1 RUNNING 3]"
  using pipe3_simps by (simp_all add: slk3_def pipest.defs runs_def on_cpu_def)


end
