(* ===== verification/Ide.thy ===== *)
theory Ide
  imports Sleeplock
begin

text \<open>
  The disk driver, \<^verbatim>\<open>ide.c\<close>, and the buffers it serves (\<^verbatim>\<open>buf.h\<close>). The device is modelled by
  the sectors it stores, the sector selected by the last command, and whether its status
  register reports an error; a write takes effect when its data has been transferred, and
  each command ends in an interrupt. Polling the status register (\<^verbatim>\<open>idewait\<close>) is reading its
  final value. A block is one sector (\<^verbatim>\<open>BSIZE == SECTOR_SIZE\<close>).
\<close>

section \<open>Buffers and the device\<close>

definition NBUF :: nat where "NBUF = 30"
definition FSSIZE :: u32 where "FSSIZE = 1000"
definition BSIZE :: nat where "BSIZE = 512"

type_synonym block = "u8 list"

text \<open>The two flag bits are booleans; \<open>b_prev\<close> and \<open>b_next\<close> are indices into the cache.\<close>

record buf =
  b_valid :: bool
  b_dirty :: bool
  b_dev :: u32
  b_blockno :: u32
  b_refcnt :: u32
  b_prev :: nat
  b_next :: nat
  b_qnext :: "nat option"
  b_data :: block

record bst = slst +
  bufs :: "buf list"
  idequeue :: "nat option"
  havedisk1 :: bool
  disk :: "u32 \<Rightarrow> u32 \<Rightarrow> block"
  ide_sel :: "u32 \<times> u32"
  ide_err :: bool

definition upd_buf :: "nat \<Rightarrow> (buf \<Rightarrow> buf) \<Rightarrow> 'a bst_scheme \<Rightarrow> 'a bst_scheme" where
  "upd_buf b f s = s\<lparr>bufs := (bufs s)[b := f (bufs s ! b)]\<rparr>"

definition disk_write :: "u32 \<Rightarrow> u32 \<Rightarrow> block \<Rightarrow> (u32 \<Rightarrow> u32 \<Rightarrow> block) \<Rightarrow> u32 \<Rightarrow> u32 \<Rightarrow> block" where
  "disk_write d n x D = D(d := (D d)(n := x))"

section \<open>The driver\<close>

definition idewait :: "bool \<Rightarrow> 'a bst_scheme \<Rightarrow> int" where
  "idewait checkerr s = (if checkerr \<and> ide_err s then -1 else 0)"

text \<open>\<open>status i\<close> is what the \<open>i\<close>-th poll of the status port of disk 1 reads.\<close>

definition ideinit :: "(nat \<Rightarrow> u8) \<Rightarrow> 'a bst_scheme \<Rightarrow> 'a bst_scheme" where
  "ideinit status s = (if list_ex (\<lambda>i. status i \<noteq> 0) [0..<1000] then s\<lparr>havedisk1 := True\<rparr> else s)"

definition idestart :: "nat option \<Rightarrow> 'a bst_scheme \<Rightarrow> ('a bst_scheme, unit) res" where
  "idestart q s =
     (case q of
        None \<Rightarrow> Panic ''idestart''
      | Some b \<Rightarrow>
          let x = bufs s ! b in
          if b_blockno x \<ge> FSSIZE then Panic ''incorrect blockno''
          else let s = s\<lparr>ide_sel := (b_dev x AND 1, b_blockno x)\<rparr> in
            if b_dirty x
            then Ok () (s\<lparr>disk := disk_write (b_dev x AND 1) (b_blockno x) (b_data x) (disk s)\<rparr>)
            else Ok () s)"

definition ideintr :: "'a bst_scheme \<Rightarrow> ('a bst_scheme, unit) res" where
  "ideintr s =
     rbind (acquire L_ide s) (\<lambda>_ s.
       case idequeue s of
         None \<Rightarrow> release L_ide s
       | Some b \<Rightarrow>
           let s = s\<lparr>idequeue := b_qnext (bufs s ! b)\<rparr>;
               s = (if \<not> b_dirty (bufs s ! b) \<and> idewait True s \<ge> 0
                    then upd_buf b (\<lambda>x. x\<lparr>b_data := disk s (fst (ide_sel s)) (snd (ide_sel s))\<rparr>) s
                    else s);
               s = upd_buf b (\<lambda>x. x\<lparr>b_valid := True\<rparr>) s;
               s = upd_buf b (\<lambda>x. x\<lparr>b_dirty := False\<rparr>) s
           in rbind (wakeup (Some (Ch_buf b)) s) (\<lambda>_ s.
              rbind (if idequeue s \<noteq> None then idestart (idequeue s) s else Ok () s) (\<lambda>_ s.
                release L_ide s)))"

text \<open>
  The walk to the end of \<^verbatim>\<open>idequeue\<close>. Every queued buffer is one of the \<open>NBUF\<close> buffers of the
  cache and is queued once, so \<open>NBUF\<close> steps reach the end.
\<close>

fun idequeue_last :: "nat \<Rightarrow> buf list \<Rightarrow> nat \<Rightarrow> nat" where
  "idequeue_last 0 bs q = q"
| "idequeue_last (Suc k) bs q =
     (case b_qnext (bs ! q) of None \<Rightarrow> q | Some q' \<Rightarrow> idequeue_last k bs q')"

definition idequeue_append :: "nat \<Rightarrow> 'a bst_scheme \<Rightarrow> 'a bst_scheme" where
  "idequeue_append b s =
     (let s = upd_buf b (\<lambda>x. x\<lparr>b_qnext := None\<rparr>) s in
      case idequeue s of
        None \<Rightarrow> s\<lparr>idequeue := Some b\<rparr>
      | Some q \<Rightarrow> upd_buf (idequeue_last NBUF (bufs s) q) (\<lambda>x. x\<lparr>b_qnext := Some b\<rparr>) s)"

definition iderw :: "nat \<Rightarrow> 'a bst_scheme \<Rightarrow> ('a bst_scheme, unit) res" where
  "iderw b s =
     rbind (holdingsleep (SL_buf b) s) (\<lambda>h s.
       if \<not> h then Panic ''iderw: buf not locked''
       else if b_valid (bufs s ! b) \<and> \<not> b_dirty (bufs s ! b) then Panic ''iderw: nothing to do''
       else if b_dev (bufs s ! b) \<noteq> 0 \<and> \<not> havedisk1 s then Panic ''iderw: ide disk 1 not present''
       else rbind (acquire L_ide s) (\<lambda>_ s.
         let s = idequeue_append b s in
         rbind (if idequeue s = Some b then idestart (Some b) s else Ok () s) (\<lambda>_ s.
         rbind (sleep_loop (\<lambda>s.
                  if \<not> (b_valid (bufs s ! b) \<and> \<not> b_dirty (bufs s ! b))
                  then rbind (sleep (Ch_buf b) (Some L_ide) s) (\<lambda>_ s. Ok (Inr ()) s)
                  else Ok (Inl ()) s) s) (\<lambda>_ s.
           release L_ide s))))"

section \<open>The request queue\<close>

lemma map_upd_same: "f y = f (xs ! i) \<Longrightarrow> map f (xs[i := y]) = map f xs"
  by (cases "i < length xs") (simp_all add: map_update list_update_same_conv not_less list_update_beyond)

text \<open>\<open>queue_is bs q xs\<close>: following \<^verbatim>\<open>qnext\<close> from \<open>q\<close> visits \<open>xs\<close>.\<close>

fun queue_is :: "buf list \<Rightarrow> nat option \<Rightarrow> nat list \<Rightarrow> bool" where
  "queue_is bs q [] \<longleftrightarrow> q = None"
| "queue_is bs q (x # xs) \<longleftrightarrow> q = Some x \<and> x < length bs \<and> queue_is bs (b_qnext (bs ! x)) xs"

lemma queue_is_upd:
  "y \<notin> set xs \<Longrightarrow> queue_is (bs[y := b]) q xs = queue_is bs q xs"
  by (induction xs arbitrary: q) auto

lemma idequeue_last_queue:
  assumes "queue_is bs (Some q) xs" and "length xs \<le> k"
  shows "idequeue_last k bs q = last xs"
  using assms
proof (induction xs arbitrary: q k)
  case (Cons x xs)
  then obtain j where j: "k = Suc j" by (cases k) auto
  show ?case
  proof (cases xs)
    case Nil
    with Cons.prems j show ?thesis by simp
  next
    case (Cons y ys)
    with Cons.prems j Cons.IH [of y j] show ?thesis by auto
  qed
qed simp

lemma queue_is_snoc:
  assumes "queue_is bs (Some q) xs" and "distinct xs" and "b \<notin> set xs" and "b < length bs"
    and "b_qnext (bs ! b) = None"
  shows "queue_is (bs[last xs := (bs ! last xs)\<lparr>b_qnext := Some b\<rparr>]) (Some q) (xs @ [b])"
  using assms
proof (induction xs arbitrary: q)
  case (Cons x xs)
  show ?case
  proof (cases xs)
    case Nil
    with Cons.prems show ?thesis by auto
  next
    case (Cons y ys)
    then have ne: "x \<noteq> last xs" using Cons.prems(2) by (metis distinct.simps(2) last_in_set list.distinct(1))
    have "queue_is bs (Some y) xs" "b_qnext (bs ! x) = Some y"
      using Cons Cons.prems(1) by auto
    with Cons.IH [of y] Cons.prems Cons ne show ?thesis by auto
  qed
qed simp

text \<open>
  \<^verbatim>\<open>iderw\<close> queues at the end: with the queue holding the distinct buffers \<open>xs\<close>, the
  append makes it \<open>xs @ [b]\<close>, and nothing but queue links changes.
\<close>

theorem idequeue_append_correct:
  assumes "queue_is (bufs s) (idequeue s) xs" and "distinct xs" and "b \<notin> set xs"
    and "b < length (bufs s)" and "length xs \<le> NBUF"
  shows "queue_is (bufs (idequeue_append b s)) (idequeue (idequeue_append b s)) (xs @ [b])
    \<and> map (\<lambda>x. x\<lparr>b_qnext := None\<rparr>) (bufs (idequeue_append b s)) = map (\<lambda>x. x\<lparr>b_qnext := None\<rparr>) (bufs s)"
proof (cases xs)
  case Nil
  with assms show ?thesis
    by (simp add: idequeue_append_def upd_buf_def map_upd_same)
next
  case (Cons q ys)
  let ?bs = "(bufs s)[b := (bufs s ! b)\<lparr>b_qnext := None\<rparr>]"
  have q: "queue_is ?bs (Some q) xs" "idequeue s = Some q"
    using assms(1,3) Cons by (auto simp: queue_is_upd)
  have "idequeue_last NBUF ?bs q = last xs"
    using q(1) assms(5) by (rule idequeue_last_queue)
  moreover have "queue_is (?bs[last xs := (?bs ! last xs)\<lparr>b_qnext := Some b\<rparr>]) (Some q) (xs @ [b])"
    using queue_is_snoc [OF q(1) assms(2,3)] assms(4) by simp
  moreover have "map (\<lambda>x. x\<lparr>b_qnext := None\<rparr>) (?bs[i := (?bs ! i)\<lparr>b_qnext := y\<rparr>])
      = map (\<lambda>x. x\<lparr>b_qnext := None\<rparr>) (bufs s)" for i y
    by (simp add: map_upd_same)
  ultimately show ?thesis
    using q(2) by (simp add: idequeue_append_def upd_buf_def Let_def)
qed

theorem idequeue_append_correct_witness:
  "\<exists>s :: bst. queue_is (bufs s) (idequeue s) [1] \<and> queue_is (bufs (idequeue_append 0 s)) (idequeue (idequeue_append 0 s)) [1, 0]"
proof -
  let ?b = "\<lparr>b_valid = False, b_dirty = False, b_dev = 1, b_blockno = 2, b_refcnt = 1, b_prev = 0, b_next = 0,
    b_qnext = None, b_data = []\<rparr>"
  let ?s = "slst.extend (slk3 (SL_buf 0) False) \<lparr>bufs = [?b, ?b], idequeue = Some 1, havedisk1 = True,
    disk = (\<lambda>_ _. []), ide_sel = (0, 0), ide_err = False\<rparr>"
  have "queue_is (bufs ?s) (idequeue ?s) [1]" by (simp add: slst.defs)
  moreover from this have "queue_is (bufs (idequeue_append 0 ?s)) (idequeue (idequeue_append 0 ?s)) ([1] @ [0])"
    using idequeue_append_correct [of ?s "[1]" 0] by (simp add: slst.defs NBUF_def)
  ultimately show ?thesis by force
qed

section \<open>A request from start to finish\<close>

lemma upd_buf_simps [simp]:
  "held (upd_buf b f s) = held s" "ion (upd_buf b f s) = ion s" "procs (upd_buf b f s) = procs s"
  "runs i (upd_buf b f s) = runs i s" "on_cpu c (upd_buf b f s) = on_cpu c s"
  "slks (upd_buf b f s) = slks s" "idequeue (upd_buf b f s) = idequeue s"
  "havedisk1 (upd_buf b f s) = havedisk1 s" "disk (upd_buf b f s) = disk s"
  "ide_sel (upd_buf b f s) = ide_sel s" "ide_err (upd_buf b f s) = ide_err s"
  "bufs (upd_buf b f s) = (bufs s)[b := f (bufs s ! b)]" "bst.more (upd_buf b f s) = bst.more s"
  by (simp_all add: upd_buf_def runs_def on_cpu_def)

lemma bst_frame [simp]:
  "bufs (wakeup1 ch s) = bufs s" "idequeue (wakeup1 ch s) = idequeue s" "disk (wakeup1 ch s) = disk s"
  "havedisk1 (wakeup1 ch s) = havedisk1 s" "ide_sel (wakeup1 ch s) = ide_sel s"
  "ide_err (wakeup1 ch s) = ide_err s" "bst.more (wakeup1 ch s) = bst.more s"
  "bufs (upd_proc i f s) = bufs s" "idequeue (upd_proc i f s) = idequeue s" "disk (upd_proc i f s) = disk s"
  "havedisk1 (upd_proc i f s) = havedisk1 s" "ide_sel (upd_proc i f s) = ide_sel s"
  "ide_err (upd_proc i f s) = ide_err s" "bst.more (upd_proc i f s) = bst.more s"
  "bufs (asleep i c s) = bufs s" "idequeue (asleep i c s) = idequeue s" "disk (asleep i c s) = disk s"
  "havedisk1 (asleep i c s) = havedisk1 s" "ide_sel (asleep i c s) = ide_sel s"
  "ide_err (asleep i c s) = ide_err s" "bst.more (asleep i c s) = bst.more s"
  "bufs (upd_slk l g s) = bufs s" "idequeue (upd_slk l g s) = idequeue s" "disk (upd_slk l g s) = disk s"
  "havedisk1 (upd_slk l g s) = havedisk1 s" "ide_sel (upd_slk l g s) = ide_sel s"
  "ide_err (upd_slk l g s) = ide_err s" "bst.more (upd_slk l g s) = bst.more s"
  by (simp_all add: wakeup1_def upd_proc_def asleep_def upd_slk_def)

lemma runs_bst [simp]:
  "runs i (s\<lparr>idequeue := q\<rparr>) = runs i s" "runs i (s\<lparr>ide_sel := e\<rparr>) = runs i s"
  "runs i (s\<lparr>disk := d\<rparr>) = runs i s" "runs i (s\<lparr>bufs := bs\<rparr>) = runs i s"
  by (simp_all add: runs_def on_cpu_def)

text \<open>What the interrupt that ends a request leaves in its buffer.\<close>

definition finished :: "'a bst_scheme \<Rightarrow> buf \<Rightarrow> buf" where
  "finished s x = x\<lparr>b_data := (if \<not> b_dirty x \<and> \<not> ide_err s
       then disk s (fst (ide_sel s)) (snd (ide_sel s)) else b_data x),
     b_valid := True, b_dirty := False\<rparr>"

lemma ideintr_one:
  assumes "L_ide \<notin> set (held s)" and "L_ptable \<notin> set (held s)" and "idequeue s = Some b"
    and "b_qnext (bufs s ! b) = None" and "b < length (bufs s)"
  shows "ideintr s = Ok () (wakeup1 (Some (Ch_buf b)) (upd_buf b (finished s) (s\<lparr>idequeue := None\<rparr>)))"
  using assms by (cases s)
    (auto simp: ideintr_def Let_def idewait_def upd_buf_def finished_def wakeup_eq wakeup1_def)

text \<open>
  The machine while one process does its I/O: no other process uses the disk, the pending
  request completes, and the process is scheduled again, on any CPU.
\<close>

definition quiet :: "nat \<Rightarrow> 'a bst_scheme \<Rightarrow> 'a bst_scheme \<Rightarrow> bool" where
  "quiet i s t \<longleftrightarrow> (\<exists>u. ideintr (s\<lparr>held := []\<rparr>) = Ok () u \<and> runs i t \<and> held t = [L_ptable]
     \<and> bufs t = bufs u \<and> slks t = slks u \<and> idequeue t = idequeue u \<and> disk t = disk u
     \<and> ide_sel t = ide_sel u \<and> ide_err t = ide_err u \<and> havedisk1 t = havedisk1 u
     \<and> bst.more t = bst.more u \<and> map p_pid (procs t) = map p_pid (procs u))"

text \<open>The disk after the request for buffer \<open>x\<close>, and the state in which \<^verbatim>\<open>iderw\<close> returns.\<close>

definition io_disk :: "buf \<Rightarrow> (u32 \<Rightarrow> u32 \<Rightarrow> block) \<Rightarrow> u32 \<Rightarrow> u32 \<Rightarrow> block" where
  "io_disk x D = (if b_dirty x then disk_write (b_dev x AND 1) (b_blockno x) (b_data x) D else D)"

definition io_buf :: "(u32 \<Rightarrow> u32 \<Rightarrow> block) \<Rightarrow> buf \<Rightarrow> buf" where
  "io_buf D x = x\<lparr>b_valid := True, b_dirty := False, b_qnext := None,
     b_data := (if b_dirty x then b_data x else D (b_dev x AND 1) (b_blockno x))\<rparr>"

definition io_ready :: "nat \<Rightarrow> 'a bst_scheme \<Rightarrow> bool" where
  "io_ready i s \<longleftrightarrow> runs i s \<and> held s = [] \<and> idequeue s = None \<and> havedisk1 s \<and> \<not> ide_err s"

definition has_slk :: "nat \<Rightarrow> slid \<Rightarrow> 'a slst_scheme \<Rightarrow> bool" where
  "has_slk i l s \<longleftrightarrow> sl_locked (slks s l) \<and> sl_pid (slks s l) = p_pid (procs s ! i)"

lemma iderw_safe:
  assumes "io_ready i s" and "has_slk i (SL_buf b) s" and "b < length (bufs s)"
    and "\<not> (b_valid (bufs s ! b) \<and> \<not> b_dirty (bufs s ! b))" and "b_blockno (bufs s ! b) < FSSIZE"
    and "P (io_disk (bufs s ! b) (disk s))"
  shows "safe (\<lambda>t. P (disk t)) (quiet i) (iderw b s)
    (\<lambda>_ t. io_ready i t \<and> slks t = slks s \<and> map p_pid (procs t) = map p_pid (procs s)
      \<and> bst.more t = bst.more s \<and> disk t = io_disk (bufs s ! b) (disk s)
      \<and> bufs t = (bufs s)[b := io_buf (disk s) (bufs s ! b)])"
    (is "safe ?G ?R _ ?Q")
proof -
  let ?x = "(bufs s ! b)\<lparr>b_qnext := None\<rparr>"
  let ?body = "\<lambda>s. if \<not> (b_valid (bufs s ! b) \<and> \<not> b_dirty (bufs s ! b))
    then rbind (sleep (Ch_buf b) (Some L_ide) s) (\<lambda>_ s. Ok (Inr ()) s) else Ok (Inl ()) s"
  let ?q = "(upd_buf b (\<lambda>x. x\<lparr>b_qnext := None\<rparr>) (s\<lparr>held := [L_ide]\<rparr>))\<lparr>idequeue := Some b,
    ide_sel := (b_dev ?x AND 1, b_blockno ?x)\<rparr>"
  define p where "p = (if b_dirty ?x then ?q\<lparr>disk := io_disk ?x (disk s)\<rparr> else ?q)"
  have i: "runs i s" "held s = []" "idequeue s = None" "havedisk1 s" "\<not> ide_err s"
    using assms(1) by (simp_all add: io_ready_def)
  have start: "idestart (Some b) ((upd_buf b (\<lambda>x. x\<lparr>b_qnext := None\<rparr>) (s\<lparr>held := [L_ide]\<rparr>))\<lparr>idequeue := Some b\<rparr>)
      = Ok () p"
    using assms(3,5) by (simp add: idestart_def p_def io_disk_def Let_def not_le [symmetric])
  have run: "iderw b s = rbind (sleep_loop ?body p) (\<lambda>_ s. release L_ide s)"
    using i assms(2-4) start
    by (auto simp: iderw_def holdingsleep_eq has_slk_def idequeue_append_def Let_def)
  have p: "runs i p" "held p = [L_ide]" "bufs p = (bufs s)[b := ?x]" "idequeue p = Some b"
    "slks p = slks s" "bst.more p = bst.more s" "procs p = procs s" "disk p = io_disk ?x (disk s)"
    "ide_err p = ide_err s" "havedisk1 p = havedisk1 s" "ide_sel p = (b_dev ?x AND 1, b_blockno ?x)"
    using i by (auto simp: p_def io_disk_def)
  have sl: "sleep (Ch_buf b) (Some L_ide) p = Swtch (asleep i (Ch_buf b) p) (awake i L_ide (ion p))"
    using p(1,2) by (rule runs_sleep)
  have loop: "sleep_loop ?body p = Swtch (asleep i (Ch_buf b) p)
      (\<lambda>t. sleep_loop_from ?body (rbind (awake i L_ide (ion p) t) (\<lambda>_ s. Ok (Inr ()) s)))"
    unfolding sleep_loop_unfold [of ?body p] using p(3) assms(3,4) sl by simp
  let ?a = "(asleep i (Ch_buf b) p)\<lparr>held := []\<rparr>"
  let ?u = "wakeup1 (Some (Ch_buf b)) (upd_buf b (finished ?a) (?a\<lparr>idequeue := None\<rparr>))"
  have intr: "ideintr ?a = Ok () ?u"
    using p assms(3) by (intro ideintr_one) simp_all
  have "finished ?a ?x = io_buf (disk s) (bufs s ! b)"
    using p i(5) by (cases "bufs s ! b") (simp add: finished_def io_buf_def io_disk_def)
  then have ubufs: "bufs ?u = (bufs s)[b := io_buf (disk s) (bufs s ! b)]"
    using p(3) assms(3) by simp
  have upids: "map p_pid (procs ?u) = map p_pid (procs s)"
    using p(7) by (simp add: o_def map_upd_same)
  have "safe ?G ?R (rbind (sleep_loop_from ?body (rbind (awake i L_ide (ion p) t) (\<lambda>_ s. Ok (Inr ()) s)))
      (\<lambda>_ s. release L_ide s)) ?Q" if "?R (asleep i (Ch_buf b) p) t" for t
  proof -
    have t: "runs i t" "held t = [L_ptable]" "bufs t = bufs ?u" "slks t = slks s" "idequeue t = None"
      "disk t = disk p" "ide_err t = ide_err s" "havedisk1 t = havedisk1 s" "bst.more t = bst.more s"
      "map p_pid (procs t) = map p_pid (procs s)"
      using that intr upids p(5-10) by (auto simp: quiet_def)
    let ?v = "upd_proc i (\<lambda>p. p\<lparr>p_chan := None\<rparr>) (t\<lparr>ion := ion p, held := [L_ide]\<rparr>)"
    have "?body ?v = Ok (Inl ()) ?v"
      using t(3) ubufs assms(3) by (simp add: io_buf_def)
    then have "sleep_loop ?body ?v = Ok () ?v" by (simp add: sleep_loop_unfold)
    then show ?thesis
      using t ubufs i p(8) by (simp add: awake_Ok io_ready_def map_upd_same io_disk_def)
  qed
  moreover have "P (disk (asleep i (Ch_buf b) p))"
    using assms(6) p(8) by (simp add: io_disk_def split: if_splits)
  ultimately show ?thesis unfolding run loop by simp
qed

end
