(* ===== verification/Bio.thy ===== *)
theory Bio
  imports Ide
begin

text \<open>
  The buffer cache, \<^verbatim>\<open>bio.c\<close>. The buffers and the list head are one array, the head last; the
  doubly linked list threads it through indices. The list is shown to implement a
  most-recently-used order, at most one buffer caches a block, and a reader gets the current
  contents of its block.
\<close>

section \<open>Operations\<close>

abbreviation head :: nat where "head \<equiv> NBUF"

definition binit_step :: "nat \<Rightarrow> 'a bst_scheme \<Rightarrow> 'a bst_scheme" where
  "binit_step b s =
     (let s = upd_buf b (\<lambda>x. x\<lparr>b_next := b_next (bufs s ! head)\<rparr>) s;
          s = upd_buf b (\<lambda>x. x\<lparr>b_prev := head\<rparr>) s;
          s = initsleeplock (SL_buf b) s;
          s = upd_buf (b_next (bufs s ! head)) (\<lambda>x. x\<lparr>b_prev := b\<rparr>) s
      in upd_buf head (\<lambda>x. x\<lparr>b_next := b\<rparr>) s)"

definition binit :: "'a bst_scheme \<Rightarrow> 'a bst_scheme" where
  "binit s = fold binit_step [0..<NBUF] (upd_buf head (\<lambda>x. x\<lparr>b_prev := head, b_next := head\<rparr>) s)"

text \<open>
  The two scans of \<^verbatim>\<open>bget\<close>. The list has \<open>NBUF\<close> buffers, so \<open>NBUF + 1\<close> steps come back to
  the head.
\<close>

fun scan :: "(buf \<Rightarrow> nat) \<Rightarrow> nat \<Rightarrow> (buf \<Rightarrow> bool) \<Rightarrow> buf list \<Rightarrow> nat \<Rightarrow> nat option" where
  "scan link 0 P bs b = None"
| "scan link (Suc k) P bs b =
     (if b = head then None
      else if P (bs ! b) then Some b
      else scan link k P bs (link (bs ! b)))"

definition bget :: "u32 \<Rightarrow> u32 \<Rightarrow> 'a bst_scheme \<Rightarrow> ('a bst_scheme, nat) res" where
  "bget dev blockno s =
     rbind (acquire L_bcache s) (\<lambda>_ s.
       case scan b_next (NBUF + 1) (\<lambda>x. b_dev x = dev \<and> b_blockno x = blockno) (bufs s)
              (b_next (bufs s ! head)) of
         Some b \<Rightarrow>
           let s = upd_buf b (\<lambda>x. x\<lparr>b_refcnt := b_refcnt x + 1\<rparr>) s in
           rbind (release L_bcache s) (\<lambda>_ s.
           rbind (acquiresleep (SL_buf b) s) (\<lambda>_ s. Ok b s))
       | None \<Rightarrow>
          (case scan b_prev (NBUF + 1) (\<lambda>x. b_refcnt x = 0 \<and> \<not> b_dirty x) (bufs s)
                  (b_prev (bufs s ! head)) of
             Some b \<Rightarrow>
               let s = upd_buf b (\<lambda>x. x\<lparr>b_dev := dev, b_blockno := blockno, b_valid := False,
                         b_dirty := False, b_refcnt := 1\<rparr>) s in
               rbind (release L_bcache s) (\<lambda>_ s.
               rbind (acquiresleep (SL_buf b) s) (\<lambda>_ s. Ok b s))
           | None \<Rightarrow> Panic ''bget: no buffers''))"

definition bread :: "u32 \<Rightarrow> u32 \<Rightarrow> 'a bst_scheme \<Rightarrow> ('a bst_scheme, nat) res" where
  "bread dev blockno s =
     rbind (bget dev blockno s) (\<lambda>b s.
     rbind (if \<not> b_valid (bufs s ! b) then iderw b s else Ok () s) (\<lambda>_ s. Ok b s))"

definition bwrite :: "nat \<Rightarrow> 'a bst_scheme \<Rightarrow> ('a bst_scheme, unit) res" where
  "bwrite b s =
     rbind (holdingsleep (SL_buf b) s) (\<lambda>h s.
       if \<not> h then Panic ''bwrite''
       else iderw b (upd_buf b (\<lambda>x. x\<lparr>b_dirty := True\<rparr>) s))"

text \<open>The six pointer assignments that move a buffer to the front.\<close>

definition set_next :: "nat \<Rightarrow> nat \<Rightarrow> buf list \<Rightarrow> buf list" where
  "set_next i v bs = bs[i := (bs ! i)\<lparr>b_next := v\<rparr>]"

definition set_prev :: "nat \<Rightarrow> nat \<Rightarrow> buf list \<Rightarrow> buf list" where
  "set_prev i v bs = bs[i := (bs ! i)\<lparr>b_prev := v\<rparr>]"

definition move_to_front :: "nat \<Rightarrow> buf list \<Rightarrow> buf list" where
  "move_to_front b bs =
     (let bs = set_prev (b_next (bs ! b)) (b_prev (bs ! b)) bs;
          bs = set_next (b_prev (bs ! b)) (b_next (bs ! b)) bs;
          bs = set_next b (b_next (bs ! head)) bs;
          bs = set_prev b head bs;
          bs = set_prev (b_next (bs ! head)) b bs
      in set_next head b bs)"

definition brelse :: "nat \<Rightarrow> 'a bst_scheme \<Rightarrow> ('a bst_scheme, unit) res" where
  "brelse b s =
     rbind (holdingsleep (SL_buf b) s) (\<lambda>h s.
       if \<not> h then Panic ''brelse''
       else rbind (releasesleep (SL_buf b) s) (\<lambda>_ s.
            rbind (acquire L_bcache s) (\<lambda>_ s.
              let s = upd_buf b (\<lambda>x. x\<lparr>b_refcnt := b_refcnt x - 1\<rparr>) s;
                  s = (if b_refcnt (bufs s ! b) = 0 then s\<lparr>bufs := move_to_front b (bufs s)\<rparr> else s)
              in release L_bcache s)))"

section \<open>The list of buffers\<close>

text \<open>\<open>trail f a xs z\<close>: following \<open>f\<close> from \<open>a\<close> visits \<open>xs\<close> and then arrives at \<open>z\<close>.\<close>

fun trail :: "(nat \<Rightarrow> nat) \<Rightarrow> nat \<Rightarrow> nat list \<Rightarrow> nat \<Rightarrow> bool" where
  "trail f a [] z \<longleftrightarrow> f a = z"
| "trail f a (x # xs) z \<longleftrightarrow> f a = x \<and> trail f x xs z"

abbreviation nxt :: "buf list \<Rightarrow> nat \<Rightarrow> nat" where "nxt bs i \<equiv> b_next (bs ! i)"
abbreviation prv :: "buf list \<Rightarrow> nat \<Rightarrow> nat" where "prv bs i \<equiv> b_prev (bs ! i)"

definition ring :: "buf list \<Rightarrow> nat list \<Rightarrow> bool" where
  "ring bs xs \<longleftrightarrow> length bs = Suc NBUF \<and> distinct xs \<and> set xs = {..<NBUF}
     \<and> trail (nxt bs) head xs head \<and> trail (prv bs) head (rev xs) head"

lemma path_cong: "(\<And>x. x \<in> set (a # xs) \<Longrightarrow> f x = g x) \<Longrightarrow> trail f a xs z = trail g a xs z"
  by (induction xs arbitrary: a) auto

lemma path_append: "trail f a (xs @ y # ys) z \<longleftrightarrow> trail f a xs y \<and> trail f y ys z"
  by (induction xs arbitrary: a) auto

lemma path_last: "trail f a xs z \<Longrightarrow> f (last (a # xs)) = z"
  by (induction xs arbitrary: a) auto

lemma path_hd: "trail f a (us @ b # vs) z \<Longrightarrow> f a = hd (us @ [b])"
  by (cases us) simp_all

lemma path_next: "trail f a (us @ b # vs) z \<Longrightarrow> f b = hd (vs @ [z])"
  by (cases vs) (simp_all add: path_append)

lemma hd_last_rev: "hd (vs @ [z]) = last (z # rev vs)"
  by (cases vs) simp_all

lemma path_unlink:
  assumes "trail f a (us @ b # vs) z" and "distinct (a # us @ b # vs)"
    and "\<And>x. x \<in> set (a # us @ vs) \<Longrightarrow> g x = (if x = last (a # us) then f b else f x)"
  shows "trail g a (us @ vs) z"
  using assms
proof (induction us arbitrary: a)
  case Nil
  then have a: "g a = f b" by simp
  show ?case
  proof (cases vs)
    case (Cons v ws)
    with Nil have "trail f v ws z" "f b = v" by auto
    moreover have "trail g v ws z = trail f v ws z"
      using Nil.prems(2,3) Cons by (intro path_cong) auto
    ultimately show ?thesis using Cons a by simp
  qed (use Nil a in auto)
next
  case (Cons u us)
  have "last (u # us) \<noteq> a" using Cons.prems(2) last_in_set [of "u # us"] by auto
  then have "g a = u" using Cons.prems(1) Cons.prems(3) [of a] by auto
  moreover have "trail g u (us @ vs) z"
    using Cons.prems by (intro Cons.IH) auto
  ultimately show ?case by simp
qed

lemma path_push:
  assumes "trail f a xs z" and "b \<notin> set (a # xs)" and "a \<notin> set xs"
    and "g a = b" and "g b = f a" and "\<And>x. x \<in> set xs \<Longrightarrow> g x = f x"
  shows "trail g a (b # xs) z"
proof (cases xs)
  case (Cons x ys)
  with assms have "trail f x ys z" "f a = x" by auto
  moreover have "trail g x ys z = trail f x ys z"
    using assms(6) Cons by (intro path_cong) auto
  ultimately show ?thesis using assms(4,5) Cons by simp
qed (use assms in auto)

lemma path_snoc:
  assumes "trail f a xs z" and "distinct (a # xs)" and "g b = z"
    and "\<And>x. x \<in> set (a # xs) \<Longrightarrow> g x = (if x = last (a # xs) then b else f x)"
  shows "trail g a (xs @ [b]) z"
  using assms
proof (induction xs arbitrary: a)
  case (Cons x xs)
  have "last (x # xs) \<noteq> a" using Cons.prems(2) last_in_set [of "x # xs"] by auto
  then have "g a = x" using Cons.prems(1) Cons.prems(4) [of a] by auto
  moreover have "trail g x (xs @ [b]) z" using Cons.prems by (intro Cons.IH) auto
  ultimately show ?case by simp
qed auto

lemma scan_path:
  assumes "trail (\<lambda>i. link (bs ! i)) a xs head" and "head \<notin> set xs" and "length xs < k"
  shows "scan link k P bs (link (bs ! a)) = find (\<lambda>b. P (bs ! b)) xs"
  using assms
proof (induction xs arbitrary: a k)
  case Nil
  then show ?case by (cases k) auto
next
  case (Cons x xs)
  then obtain j where j: "k = Suc j" by (cases k) auto
  have "scan link j P bs (link (bs ! x)) = find (\<lambda>b. P (bs ! b)) xs"
    using Cons.prems j by (intro Cons.IH) auto
  with Cons.prems j show ?case by auto
qed

lemma links_upd [simp]:
  "nxt (set_prev i p bs) j = nxt bs j" "prv (set_next i p bs) j = prv bs j"
  "i < length bs \<Longrightarrow> nxt (set_next i p bs) j = (if j = i then p else nxt bs j)"
  "i < length bs \<Longrightarrow> prv (set_prev i p bs) j = (if j = i then p else prv bs j)"
  "length (set_next i p bs) = length bs" "length (set_prev i p bs) = length bs"
  unfolding set_next_def set_prev_def
  by (cases "i < length bs"; cases "j = i"; simp add: list_update_beyond not_less)+

lemma length_move_to_front [simp]: "length (move_to_front b bs) = length bs"
  by (simp add: move_to_front_def Let_def)

lemma move_to_front_links:
  assumes "b < NBUF" and "length bs = Suc NBUF" and "nxt bs b = n" and "prv bs b = p"
    and "n \<le> NBUF" and "p \<le> NBUF" and "n \<noteq> b" and "p \<noteq> b" and "nxt bs head \<le> NBUF"
  defines "h \<equiv> (if p = head then n else nxt bs head)"
  shows "nxt (move_to_front b bs) j =
      (if j = head then b else if j = b then h else if j = p then n else nxt bs j)"
    and "prv (move_to_front b bs) j =
      (if j = h then b else if j = b then head else if j = n then p else prv bs j)"
  using assms by (auto simp: move_to_front_def Let_def)

lemma ring_move_to_front:
  assumes "ring bs (us @ b # vs)"
  shows "ring (move_to_front b bs) (b # us @ vs)"
proof -
  define n where "n = last (head # rev vs)"
  define p where "p = last (head # us)"
  have r: "length bs = Suc NBUF" "distinct (us @ b # vs)" "set (us @ b # vs) = {..<NBUF}"
    "trail (nxt bs) head (us @ b # vs) head" "trail (prv bs) head (rev vs @ b # rev us) head"
    using assms by (simp_all add: ring_def)
  have lt: "x < NBUF" if "x \<in> set (us @ b # vs)" for x
    using that unfolding r(3) by simp
  then have b: "b < NBUF" and nh: "head \<notin> set (us @ b # vs)" by (simp, blast)
  have nb: "nxt bs b = n" unfolding n_def hd_last_rev [symmetric] by (rule path_next [OF r(4)])
  have pb: "prv bs b = p"
    using path_next [OF r(5)] hd_last_rev [of "rev us" head] unfolding p_def by (simp only: rev_rev_ident)
  have n: "n \<in> set (head # vs)" using last_in_set [of "head # rev vs"] unfolding n_def by auto
  have p: "p \<in> set (head # us)" using last_in_set [of "head # us"] unfolding p_def by auto
  have nbp: "b \<notin> set (head # us @ vs)" using r(2) b by auto
  have in_bs: "x \<le> NBUF \<and> x \<noteq> b" if "x \<in> set (head # us @ vs)" for x
  proof (cases "x = head")
    case False
    with that have "x \<in> set (us @ b # vs)" by auto
    with that nbp lt [of x] show ?thesis by (metis less_imp_le)
  qed (use b in simp)
  have n': "n \<in> set (head # us @ vs)" and p': "p \<in> set (head # us @ vs)" using n p by auto
  have range: "n \<le> NBUF" "p \<le> NBUF" "n \<noteq> b" "p \<noteq> b"
    using in_bs [OF n'] in_bs [OF p'] by simp_all
  note nh0 = path_hd [OF r(4)]
  have "hd (us @ [b]) \<in> set (us @ b # vs)" by (cases us) simp_all
  then have h0: "nxt bs head \<le> NBUF" unfolding nh0 using lt less_imp_le by blast
  define h where "h = (if p = head then n else nxt bs head)"
  note links = move_to_front_links [OF b r(1) nb pb range h0, folded h_def]
  have h: "h = hd (us @ vs @ [head])"
  proof (cases us)
    case Nil
    then show ?thesis by (cases vs) (simp_all add: h_def p_def n_def)
  next
    case (Cons u ws)
    then have "p \<noteq> head" using nh last_in_set [of us] by (auto simp: p_def)
    with Cons nh0 show ?thesis by (simp add: h_def)
  qed
  define nx where "nx j = (if j = p then nxt bs b else nxt bs j)" for j
  define pv where "pv j = (if j = n then prv bs b else prv bs j)" for j
  have dist: "distinct (head # us @ b # vs)" "distinct (head # rev vs @ b # rev us)"
    using r(2) nh by auto
  have pn: "trail nx head (us @ vs) head"
    by (rule path_unlink [OF r(4) dist(1)]) (simp only: nx_def p_def)
  have pp: "trail pv head (rev vs @ rev us) head"
    by (rule path_unlink [OF r(5) dist(2)]) (simp only: pv_def n_def)
  have "trail (nxt (move_to_front b bs)) head (b # us @ vs) head"
  proof (rule path_push [OF pn])
    show "nxt (move_to_front b bs) b = nx head"
      using b nb by (simp add: links nx_def h_def)
    fix x assume "x \<in> set (us @ vs)"
    then have "x \<noteq> head" "x \<noteq> b" using nh nbp by auto
    then show "nxt (move_to_front b bs) x = nx x" by (simp add: links nx_def nb)
  qed (use nh nbp in \<open>auto simp: links\<close>)
  moreover have "trail (prv (move_to_front b bs)) head ((rev vs @ rev us) @ [b]) head"
  proof (rule path_snoc [OF pp])
    show "distinct (head # rev vs @ rev us)" using r(2) nh by auto
    have l: "last (head # rev vs @ rev us) = h" using h by (cases us; cases vs) simp_all
    moreover have "h \<in> set (head # us @ vs)" unfolding h by (cases us; cases vs) auto
    ultimately have "h \<noteq> b" using nbp by metis
    then show "prv (move_to_front b bs) b = head" by (simp add: links)
    fix x assume "x \<in> set (head # rev vs @ rev us)"
    then have "x \<noteq> b" using nbp by auto
    with l show "prv (move_to_front b bs) x = (if x = last (head # rev vs @ rev us) then b else pv x)"
      by (simp add: links pv_def pb)
  qed
  moreover have "set (b # us @ vs) = {..<NBUF}" unfolding r(3) [symmetric] by auto
  ultimately show ?thesis
    using r(1,2) by (simp add: ring_def)
qed

lemma ring_scans:
  assumes "ring bs xs"
  shows "scan b_next (NBUF + 1) P bs (nxt bs head) = find (\<lambda>c. P (bs ! c)) xs"
    and "scan b_prev (NBUF + 1) P bs (prv bs head) = find (\<lambda>c. P (bs ! c)) (rev xs)"
proof -
  have r: "distinct xs" "set xs = {..<NBUF}" "trail (nxt bs) head xs head" "trail (prv bs) head (rev xs) head"
    using assms by (simp_all add: ring_def)
  have "length xs = NBUF" using distinct_card [OF r(1)] unfolding r(2) by simp
  moreover have "head \<notin> set xs" unfolding r(2) by simp
  ultimately show "scan b_next (NBUF + 1) P bs (nxt bs head) = find (\<lambda>c. P (bs ! c)) xs"
    "scan b_prev (NBUF + 1) P bs (prv bs head) = find (\<lambda>c. P (bs ! c)) (rev xs)"
    using r(3,4) by (intro scan_path; simp)+
qed

section \<open>Initialization\<close>

lemma bufs_initsleeplock [simp]: "bufs (initsleeplock l s) = bufs s"
  by (simp add: initsleeplock_def)

lemma bufs_binit_step:
  assumes "b < NBUF" and "length (bufs s) = Suc NBUF"
  shows "bufs (binit_step b s) = (let bs = bufs s; h = nxt bs head in
    set_next head b (set_prev h b (set_prev b head (set_next b h bs))))"
  using assms by (simp add: binit_step_def Let_def set_next_def set_prev_def)

lemma binit_step_paths:
  assumes "length (bufs s) = Suc NBUF" and "k < NBUF"
    and pn: "trail (nxt (bufs s)) head (rev [0..<k]) head"
    and pp: "trail (prv (bufs s)) head [0..<k] head"
  shows "length (bufs (binit_step k s)) = Suc NBUF"
    and "trail (nxt (bufs (binit_step k s))) head (rev [0..<Suc k]) head"
    and "trail (prv (bufs (binit_step k s))) head [0..<Suc k] head"
proof -
  let ?bs = "bufs s"
  define h where "h = nxt ?bs head"
  have h: "h = last (head # [0..<k])"
    using pn unfolding h_def by (cases k) simp_all
  then have hl: "h \<le> NBUF" "h \<noteq> k" using assms(2) by (cases k; simp)+
  have nxt: "nxt (bufs (binit_step k s)) j = (if j = head then k else if j = k then h else nxt ?bs j)" for j
    using assms(1,2) hl by (simp add: bufs_binit_step h_def [symmetric] Let_def)
  have prv: "prv (bufs (binit_step k s)) j = (if j = h then k else if j = k then head else prv ?bs j)" for j
    using assms(1,2) hl by (simp add: bufs_binit_step h_def [symmetric] Let_def)
  show "length (bufs (binit_step k s)) = Suc NBUF"
    using assms(1,2) by (simp add: bufs_binit_step Let_def)
  have "trail (nxt (bufs (binit_step k s))) head (k # rev [0..<k]) head"
    by (rule path_push [OF pn]) (use assms(2) h_def in \<open>auto simp: nxt\<close>)
  then show "trail (nxt (bufs (binit_step k s))) head (rev [0..<Suc k]) head" by simp
  have "trail (prv (bufs (binit_step k s))) head ([0..<k] @ [k]) head"
  proof (rule path_snoc [OF pp])
    show "prv (bufs (binit_step k s)) k = head" using hl by (simp add: prv)
    fix x assume "x \<in> set (head # [0..<k])"
    then have "x \<noteq> k" using assms(2) by auto
    then show "prv (bufs (binit_step k s)) x = (if x = last (head # [0..<k]) then k else prv ?bs x)"
      unfolding h [symmetric] by (simp add: prv)
  qed (use assms(2) in simp)
  then show "trail (prv (bufs (binit_step k s))) head [0..<Suc k] head" by simp
qed

lemma binit_wf:
  assumes "length (bufs s) = Suc NBUF"
  shows "ring (bufs (binit s)) (rev [0..<NBUF])"
proof -
  let ?s = "upd_buf head (\<lambda>x. x\<lparr>b_prev := head, b_next := head\<rparr>) s"
  have "length (bufs (fold binit_step [0..<k] ?s)) = Suc NBUF
      \<and> trail (nxt (bufs (fold binit_step [0..<k] ?s))) head (rev [0..<k]) head
      \<and> trail (prv (bufs (fold binit_step [0..<k] ?s))) head [0..<k] head" if "k \<le> NBUF" for k
    using that
  proof (induction k)
    case (Suc k)
    then show ?case using binit_step_paths [of "fold binit_step [0..<k] ?s" k] by simp
  qed (use assms in simp)
  from this [of NBUF] show ?thesis by (simp add: ring_def binit_def atLeast0LessThan)
qed

lemma slks_binit: "(b < NBUF \<Longrightarrow> \<not> sl_locked (slks (binit s) (SL_buf b)))"
proof -
  let ?s = "upd_buf head (\<lambda>x. x\<lparr>b_prev := head, b_next := head\<rparr>) s"
  have "\<not> sl_locked (slks (fold binit_step [0..<k] ?s) (SL_buf b))" if "b < k" for k
    using that
    by (induction k) (auto simp: binit_step_def initsleeplock_def Let_def less_Suc_eq)
  then show "b < NBUF \<Longrightarrow> \<not> sl_locked (slks (binit s) (SL_buf b))" by (simp add: binit_def)
qed

text \<open>
  \<^verbatim>\<open>binit\<close> builds a well-formed list of all the buffers, whatever the array held, and
  leaves every buffer unlocked.
\<close>

theorem binit_ring:
  assumes "length (bufs s) = Suc NBUF"
  shows "ring (bufs (binit s)) (rev [0..<NBUF])
    \<and> (\<forall>b. b < NBUF \<longrightarrow> \<not> sl_locked (slks (binit s) (SL_buf b)))"
  using binit_wf [OF assms] slks_binit by blast

definition boot_buf :: buf where
  "boot_buf = \<lparr>b_valid = False, b_dirty = False, b_dev = 0, b_blockno = 0, b_refcnt = 0, b_prev = 0,
     b_next = 0, b_qnext = None, b_data = replicate BSIZE 0\<rparr>"

definition boot_bst :: bst where
  "boot_bst = binit (slst.extend (slk3 (SL_buf 0) False)
     \<lparr>bufs = replicate (Suc NBUF) boot_buf, idequeue = None, havedisk1 = True,
      disk = (\<lambda>_ _. replicate BSIZE 0), ide_sel = (0, 0), ide_err = False\<rparr>)"

theorem binit_ring_witness: "ring (bufs boot_bst) (rev [0..<NBUF])"
  unfolding boot_bst_def by (rule binit_ring [THEN conjunct1]) (simp add: slst.defs)

text \<open>
  C30. The list is a most-recently-used order: if it holds the buffers in the order
  \<open>us @ b # vs\<close>, the pointer assignments of \<^verbatim>\<open>brelse\<close> make it \<open>b # us @ vs\<close>, forwards and
  backwards.
\<close>

theorem brelse_moves_to_front:
  assumes "ring bs (us @ b # vs)"
  shows "ring (move_to_front b bs) (b # us @ vs)
    \<and> (\<forall>P. scan b_next (NBUF + 1) P (move_to_front b bs) (nxt (move_to_front b bs) head)
          = find (\<lambda>c. P (move_to_front b bs ! c)) (b # us @ vs))
    \<and> (\<forall>P. scan b_prev (NBUF + 1) P (move_to_front b bs) (prv (move_to_front b bs) head)
          = find (\<lambda>c. P (move_to_front b bs ! c)) (rev vs @ rev us @ [b]))"
proof -
  have r: "ring (move_to_front b bs) (b # us @ vs)" using assms by (rule ring_move_to_front)
  from ring_scans [OF r] r show ?thesis by simp
qed

theorem brelse_moves_to_front_witness:
  "ring (move_to_front 28 (bufs boot_bst)) (28 # 29 # rev [0..<28])"
proof -
  have "rev [0..<NBUF] = [29] @ 28 # rev [0..<28]" unfolding NBUF_def by code_simp
  moreover have "ring (bufs boot_bst) (rev [0..<NBUF])"
    unfolding boot_bst_def by (rule binit_wf) (simp add: slst.defs)
  ultimately have "ring (bufs boot_bst) ([29] @ 28 # rev [0..<28])" by simp
  from brelse_moves_to_front [OF this] show ?thesis by simp
qed

end
