(* ===== verification/Cache.thy ===== *)
theory Cache
  imports Bio
begin

text \<open>
  What the buffer cache promises to the layers above it: the current contents of a block, and
  the contracts of \<^verbatim>\<open>bread\<close>, \<^verbatim>\<open>bwrite\<close> and \<^verbatim>\<open>brelse\<close> in terms of them, for one process at a time
  doing I/O. The contracts also say what the disk holds whenever the CPU is given up, which
  is when a crash can find it.
\<close>

section \<open>One cached copy of each block\<close>

text \<open>
  Every block of a device other than 0 has at most one buffer. (At boot all buffers are
  empty and claim block 0 of device 0, which the kernel never reads.)
\<close>

definition uniq :: "buf list \<Rightarrow> bool" where
  "uniq bs \<longleftrightarrow> (\<forall>i<NBUF. \<forall>j<NBUF. b_dev (bs ! i) \<noteq> 0 \<and> b_dev (bs ! i) = b_dev (bs ! j)
     \<and> b_blockno (bs ! i) = b_blockno (bs ! j) \<longrightarrow> i = j)"

definition dirty_set :: "'a bst_scheme \<Rightarrow> nat set" where
  "dirty_set s = {b. b < NBUF \<and> b_dirty (bufs s ! b)}"

text \<open>
  The cache between two operations of process \<open>i\<close>, which has locked the buffers \<open>L\<close>: no other
  buffer is locked or referenced, the clean ones agree with the disk, and all of them hold
  blocks of the root device.
\<close>

definition bwf :: "nat \<Rightarrow> nat set \<Rightarrow> 'a bst_scheme \<Rightarrow> bool" where
  "bwf i L s \<longleftrightarrow> io_ready i s \<and> (\<exists>xs. ring (bufs s) xs) \<and> uniq (bufs s) \<and> L \<subseteq> {..<NBUF}
     \<and> (\<forall>b<NBUF. b_valid (bufs s ! b) \<longrightarrow> b_dev (bufs s ! b) = 1)
     \<and> (\<forall>b\<in>L. has_slk i (SL_buf b) s \<and> b_refcnt (bufs s ! b) = 1 \<and> b_valid (bufs s ! b))
     \<and> (\<forall>b<NBUF. b \<notin> L \<longrightarrow> \<not> sl_locked (slks s (SL_buf b)) \<and> b_refcnt (bufs s ! b) = 0
         \<and> (b_dirty (bufs s ! b) \<longrightarrow> b_valid (bufs s ! b))
         \<and> (b_valid (bufs s ! b) \<and> \<not> b_dirty (bufs s ! b) \<longrightarrow>
             b_data (bufs s ! b) = disk s 1 (b_blockno (bufs s ! b))))"

text \<open>The current contents of a block of the root device: its cached copy, or the disk's.\<close>

definition cached :: "u32 \<Rightarrow> buf \<Rightarrow> bool" where
  "cached k x \<longleftrightarrow> b_valid x \<and> b_dev x = 1 \<and> b_blockno x = k"

definition cview :: "'a bst_scheme \<Rightarrow> u32 \<Rightarrow> block" where
  "cview s k = (case first_index (cached k) (take NBUF (bufs s)) of
     Some b \<Rightarrow> b_data (bufs s ! b) | None \<Rightarrow> disk s 1 k)"

lemma ring_length: "ring bs xs \<Longrightarrow> length bs = Suc NBUF"
  by (simp add: ring_def)

lemma cview_cached:
  assumes "uniq (bufs s)" and "length (bufs s) = Suc NBUF" and "b < NBUF" and "cached k (bufs s ! b)"
  shows "cview s k = b_data (bufs s ! b)"
proof -
  have "\<not> cached k (take NBUF (bufs s) ! c)" if "c < b" for c
  proof
    assume "cached k (take NBUF (bufs s) ! c)"
    with that assms(1,3,4) have "c = b" by (simp add: uniq_def cached_def)
    with that show False by simp
  qed
  then have "first_index (cached k) (take NBUF (bufs s)) = Some b"
    using assms(2-4) by (simp add: first_index_Some_iff)
  then show ?thesis by (simp add: cview_def)
qed

lemma cview_uncached:
  assumes "length (bufs s) = Suc NBUF" and "\<And>b. b < NBUF \<Longrightarrow> \<not> cached k (bufs s ! b)"
  shows "cview s k = disk s 1 k"
proof -
  have "first_index (cached k) (take NBUF (bufs s)) = None"
    unfolding first_index_None_iff using assms by (auto simp: in_set_conv_nth)
  then show ?thesis by (simp add: cview_def)
qed

lemma cview_only:
  assumes "uniq (bufs s)" and "length (bufs s) = Suc NBUF"
    and "\<And>c. c < NBUF \<Longrightarrow> c \<noteq> b \<Longrightarrow> \<not> cached k (bufs s ! c)"
  shows "cview s k = (if b < NBUF \<and> cached k (bufs s ! b) then b_data (bufs s ! b) else disk s 1 k)"
proof (cases "b < NBUF \<and> cached k (bufs s ! b)")
  case True
  then show ?thesis using cview_cached [OF assms(1,2)] by simp
next
  case False
  then have "\<not> cached k (bufs s ! c)" if "c < NBUF" for c
    using assms(3) [OF that] that by (cases "c = b") simp_all
  from cview_uncached [OF assms(2) this] show ?thesis using False by (simp only: if_False)
qed

text \<open>
  Two states have the same contents of block \<open>k\<close> if they agree on the disk and on all buffers
  but one, and that one, where it caches \<open>k\<close>, has the disk's data or the same data in both.
\<close>

lemma cview_same:
  fixes s t :: "'a bst_scheme"
  assumes wf: "uniq (bufs s)" "length (bufs s) = Suc NBUF" "uniq (bufs t)" "length (bufs t) = Suc NBUF"
    and disk: "disk t 1 k = disk s 1 k"
    and other: "\<And>c. c < NBUF \<Longrightarrow> c \<noteq> b \<Longrightarrow> cached k (bufs t ! c) = cached k (bufs s ! c)
      \<and> b_data (bufs t ! c) = b_data (bufs s ! c)"
    and this_s: "cached k (bufs s ! b) \<Longrightarrow> b_data (bufs s ! b) = disk s 1 k
      \<or> cached k (bufs t ! b) \<and> b_data (bufs t ! b) = b_data (bufs s ! b)"
    and this_t: "cached k (bufs t ! b) \<Longrightarrow> b_data (bufs t ! b) = disk s 1 k
      \<or> cached k (bufs s ! b) \<and> b_data (bufs t ! b) = b_data (bufs s ! b)"
  shows "cview t k = cview s k"
proof (cases "\<exists>c<NBUF. c \<noteq> b \<and> cached k (bufs s ! c)")
  case True
  then obtain c where c: "c < NBUF" "c \<noteq> b" "cached k (bufs s ! c)" by blast
  note o = other [OF c(1,2)]
  have "cview t k = b_data (bufs t ! c)" using cview_cached [OF wf(3,4) c(1)] o c(3) by simp
  also have "\<dots> = cview s k" using cview_cached [OF wf(1,2) c(1,3)] o by simp
  finally show ?thesis .
next
  case False
  then have ns: "\<And>c. c < NBUF \<Longrightarrow> c \<noteq> b \<Longrightarrow> \<not> cached k (bufs s ! c)" by blast
  then have nt: "\<And>c. c < NBUF \<Longrightarrow> c \<noteq> b \<Longrightarrow> \<not> cached k (bufs t ! c)"
    using other by blast
  have "cview s k = (if b < NBUF \<and> cached k (bufs s ! b) then b_data (bufs s ! b) else disk s 1 k)"
    by (intro cview_only wf ns)
  moreover have "cview t k = (if b < NBUF \<and> cached k (bufs t ! b) then b_data (bufs t ! b) else disk s 1 k)"
    unfolding disk [symmetric] by (intro cview_only wf nt)
  ultimately show ?thesis using this_s this_t
    by (cases "b < NBUF"; cases "cached k (bufs s ! b)"; cases "cached k (bufs t ! b)") auto
qed


section \<open>Getting a buffer\<close>

declare scan.simps [simp del]

lemma find_Some: "find P xs = Some x \<Longrightarrow> x \<in> set xs \<and> P x"
  by (auto simp: find_Some_iff)

lemma upd_buf_held: "(upd_buf b f (s\<lparr>held := x\<rparr>))\<lparr>held := y\<rparr> = upd_buf b f (s\<lparr>held := y\<rparr>)"
  by (cases s) (simp add: upd_buf_def)

definition own_slk :: "nat \<Rightarrow> nat \<Rightarrow> 'a bst_scheme \<Rightarrow> 'a bst_scheme" where
  "own_slk i b s = upd_slk (SL_buf b) (\<lambda>k. k\<lparr>sl_locked := True, sl_pid := p_pid (procs s ! i)\<rparr>) s"

lemma own_slk_simps [simp]:
  "held (own_slk i b s) = held s" "procs (own_slk i b s) = procs s" "runs j (own_slk i b s) = runs j s"
  "bufs (own_slk i b s) = bufs s" "disk (own_slk i b s) = disk s" "idequeue (own_slk i b s) = idequeue s"
  "havedisk1 (own_slk i b s) = havedisk1 s" "ide_err (own_slk i b s) = ide_err s"
  "bst.more (own_slk i b s) = bst.more s" "has_slk i (SL_buf b) (own_slk i b s)"
  "c \<noteq> b \<Longrightarrow> slks (own_slk i b s) (SL_buf c) = slks s (SL_buf c)"
  "io_ready j (own_slk i b s) = io_ready j s"
  by (simp_all add: own_slk_def has_slk_def io_ready_def)

lemma bget_take:
  assumes "io_ready i s" and "\<not> sl_locked (slks s (SL_buf b))"
  shows "rbind (release L_bcache (upd_buf b f (s\<lparr>held := [L_bcache]\<rparr>)))
      (\<lambda>_ s. rbind (acquiresleep (SL_buf b) s) (\<lambda>_ s. Ok b s))
    = Ok b (own_slk i b (upd_buf b f s))"
proof -
  have i: "runs i s" "held s = []" using assms(1) by (simp_all add: io_ready_def)
  have "s\<lparr>held := []\<rparr> = s" using held_id [of s] i(2) by simp
  then have "release L_bcache (upd_buf b f (s\<lparr>held := [L_bcache]\<rparr>)) = Ok () (upd_buf b f s)"
    by (simp add: upd_buf_held)
  moreover have "acquiresleep (SL_buf b) (upd_buf b f s) = Ok () (own_slk i b (upd_buf b f s))"
    using i assms(2) acquiresleep_free [of i "upd_buf b f s" "SL_buf b"] by (simp add: own_slk_def)
  ultimately show ?thesis by simp
qed

lemma bwf_simps:
  assumes "bwf i L s"
  shows "io_ready i s" "uniq (bufs s)" "length (bufs s) = Suc NBUF" "L \<subseteq> {..<NBUF}"
    "\<And>b. b < NBUF \<Longrightarrow> b \<notin> L \<Longrightarrow> \<not> sl_locked (slks s (SL_buf b))"
    "\<And>b. b < NBUF \<Longrightarrow> b \<notin> L \<Longrightarrow> b_refcnt (bufs s ! b) = 0"
    "\<And>b. b < NBUF \<Longrightarrow> b \<notin> L \<Longrightarrow> b_dirty (bufs s ! b) \<Longrightarrow> b_valid (bufs s ! b)"
    "\<And>b. b < NBUF \<Longrightarrow> b \<notin> L \<Longrightarrow> b_valid (bufs s ! b) \<Longrightarrow> \<not> b_dirty (bufs s ! b) \<Longrightarrow>
       b_data (bufs s ! b) = disk s 1 (b_blockno (bufs s ! b))"
    "\<And>b. b \<in> L \<Longrightarrow> has_slk i (SL_buf b) s" "\<And>b. b \<in> L \<Longrightarrow> b_refcnt (bufs s ! b) = 1"
    "\<And>b. b \<in> L \<Longrightarrow> b_valid (bufs s ! b)" "\<And>b. b \<in> L \<Longrightarrow> b < NBUF"
    "\<And>b. b < NBUF \<Longrightarrow> b_valid (bufs s ! b) \<Longrightarrow> b_dev (bufs s ! b) = 1"
  using assms by (simp_all add: bwf_def ring_def) auto

definition same_key :: "u32 \<Rightarrow> buf \<Rightarrow> bool" where
  "same_key k x \<longleftrightarrow> b_dev x = 1 \<and> b_blockno x = k"

lemma free_buffer:
  assumes "bwf i L s" and "card (L \<union> dirty_set s) < NBUF"
  shows "\<exists>b<NBUF. b_refcnt (bufs s ! b) = 0 \<and> \<not> b_dirty (bufs s ! b)"
proof (rule ccontr)
  assume no: "\<not> ?thesis"
  have "{..<NBUF} \<subseteq> L \<union> dirty_set s"
  proof
    fix b assume b: "b \<in> {..<NBUF}"
    with no have "b_refcnt (bufs s ! b) = 0 \<Longrightarrow> b_dirty (bufs s ! b)" by blast
    with b bwf_simps(6) [OF assms(1), of b] show "b \<in> L \<union> dirty_set s"
      by (cases "b \<in> L") (simp_all add: dirty_set_def)
  qed
  moreover have "finite (L \<union> dirty_set s)"
    using bwf_simps(4) [OF assms(1)] finite_subset [of L "{..<NBUF}"] by (simp add: dirty_set_def)
  ultimately have "card {..<NBUF} \<le> card (L \<union> dirty_set s)" by (intro card_mono)
  with assms(2) show False by simp
qed

text \<open>The blocks whose cached copy may not be evicted.\<close>

definition pinned :: "'a bst_scheme \<Rightarrow> u32 set" where
  "pinned s = (\<lambda>b. b_blockno (bufs s ! b)) ` dirty_set s"

lemma pinned_key:
  assumes "bwf i L s" and "k \<in> pinned s"
  shows "\<exists>b<NBUF. same_key k (bufs s ! b) \<and> cached k (bufs s ! b)"
proof -
  from assms(2) obtain b where b: "b < NBUF" "b_dirty (bufs s ! b)" "k = b_blockno (bufs s ! b)"
    by (auto simp: pinned_def dirty_set_def)
  then have "b_valid (bufs s ! b)" using bwf_simps(7,11) [OF assms(1)] by blast
  with b bwf_simps(13) [OF assms(1) b(1)] show ?thesis by (auto simp: same_key_def cached_def)
qed

lemma pinned_iff:
  assumes wf: "bwf i L s" and b: "b < NBUF" "cached k (bufs s ! b)"
  shows "k \<in> pinned s \<longleftrightarrow> b_dirty (bufs s ! b)"
proof
  assume "k \<in> pinned s"
  then obtain c where c: "c < NBUF" "b_dirty (bufs s ! c)" "k = b_blockno (bufs s ! c)"
    by (auto simp: pinned_def dirty_set_def)
  then have "b_valid (bufs s ! c)" using bwf_simps(7,11) [OF wf] by blast
  with c b bwf_simps(2) [OF wf] bwf_simps(13) [OF wf c(1)] have "c = b"
    by (simp add: uniq_def cached_def)
  with c(2) show "b_dirty (bufs s ! b)" by simp
next
  assume "b_dirty (bufs s ! b)"
  with b show "k \<in> pinned s" by (auto simp: pinned_def dirty_set_def cached_def)
qed

lemma card_dirty:
  assumes "bwf i L s"
  shows "card (dirty_set s) = card (pinned s)"
proof -
  have "inj_on (\<lambda>b. b_blockno (bufs s ! b)) (dirty_set s)"
  proof (rule inj_onI)
    fix a b assume ab: "a \<in> dirty_set s" "b \<in> dirty_set s" "b_blockno (bufs s ! a) = b_blockno (bufs s ! b)"
    then have n: "a < NBUF" "b < NBUF" "b_dirty (bufs s ! a)" "b_dirty (bufs s ! b)" by (auto simp: dirty_set_def)
    then have "b_valid (bufs s ! a)" "b_valid (bufs s ! b)" using bwf_simps(7,11) [OF assms] by blast+
    then have "b_dev (bufs s ! a) = 1" "b_dev (bufs s ! b) = 1" using bwf_simps(13) [OF assms] n by blast+
    with ab n bwf_simps(2) [OF assms] show "a = b" by (simp add: uniq_def)
  qed
  then show ?thesis by (simp add: pinned_def card_image)
qed

lemma room_card:
  assumes "bwf i L s" and "card L + card (pinned s) < NBUF"
  shows "card (L \<union> dirty_set s) < NBUF"
  using card_Un_le [of L "dirty_set s"] assms(2) card_dirty [OF assms(1)] by simp

lemma bget_cases:
  assumes wf: "bwf i L s" and "\<forall>b\<in>L. \<not> same_key k (bufs s ! b)"
    and room: "k \<in> pinned s \<or> card (L \<union> dirty_set s) < NBUF"
  obtains (hit) b where "b < NBUF" "b \<notin> L" "same_key k (bufs s ! b)"
      "bget 1 k s = Ok b (own_slk i b (upd_buf b (\<lambda>x. x\<lparr>b_refcnt := b_refcnt x + 1\<rparr>) s))"
  | (miss) b where "b < NBUF" "b \<notin> L" "\<not> b_dirty (bufs s ! b)"
      "\<And>c. c < NBUF \<Longrightarrow> \<not> same_key k (bufs s ! c)"
      "bget 1 k s = Ok b (own_slk i b (upd_buf b (\<lambda>x. x\<lparr>b_dev := 1, b_blockno := k, b_valid := False,
         b_dirty := False, b_refcnt := 1\<rparr>) s))"
proof -
  obtain xs where ring: "ring (bufs s) xs" using wf by (auto simp: bwf_def)
  then have xs: "set xs = {..<NBUF}" by (simp add: ring_def)
  have hd: "held s = []" using bwf_simps(1) [OF wf] by (simp add: io_ready_def)
  let ?s = "s\<lparr>held := [L_bcache]\<rparr>"
  have acq: "acquire L_bcache s = Ok () ?s" using hd by simp
  have key: "(\<lambda>x. b_dev x = 1 \<and> b_blockno x = k) = same_key k"
    by (simp add: fun_eq_iff same_key_def)
  note scans = ring_scans [OF ring, unfolded One_nat_def [symmetric]]
  show thesis
  proof (cases "find (\<lambda>c. same_key k (bufs s ! c)) xs")
    case (Some b)
    then have b: "b < NBUF" "same_key k (bufs s ! b)" using find_Some xs by fastforce+
    moreover from this assms(2) have nl: "b \<notin> L" by blast
    moreover have "bget 1 k s = rbind (release L_bcache (upd_buf b (\<lambda>x. x\<lparr>b_refcnt := b_refcnt x + 1\<rparr>) ?s))
        (\<lambda>_ s. rbind (acquiresleep (SL_buf b) s) (\<lambda>_ s. Ok b s))"
      using Some scans(1) by (simp add: bget_def acq key)
    ultimately show thesis
      using hit bget_take [OF bwf_simps(1) [OF wf] bwf_simps(5) [OF wf b(1) nl]] by simp
  next
    case None
    then have no: "\<not> same_key k (bufs s ! c)" if "c < NBUF" for c
      using that xs by (simp add: find_None_iff)
    have "k \<notin> pinned s" using no pinned_key [OF wf] by blast
    then have "card (L \<union> dirty_set s) < NBUF" using room by blast
    then obtain b where b: "find (\<lambda>c. b_refcnt (bufs s ! c) = 0 \<and> \<not> b_dirty (bufs s ! c)) (rev xs) = Some b"
      using free_buffer [OF wf] xs
      by (cases "find (\<lambda>c. b_refcnt (bufs s ! c) = 0 \<and> \<not> b_dirty (bufs s ! c)) (rev xs)")
        (auto simp: find_None_iff)
    then have b': "b < NBUF" "b_refcnt (bufs s ! b) = 0" "\<not> b_dirty (bufs s ! b)"
      using find_Some xs by fastforce+
    moreover from this have nl: "b \<notin> L" using bwf_simps(10) [OF wf] by auto
    moreover have "bget 1 k s = rbind (release L_bcache (upd_buf b (\<lambda>x. x\<lparr>b_dev := 1, b_blockno := k,
         b_valid := False, b_dirty := False, b_refcnt := 1\<rparr>) ?s))
        (\<lambda>_ s. rbind (acquiresleep (SL_buf b) s) (\<lambda>_ s. Ok b s))"
      using None b scans by (simp add: bget_def acq key)
    ultimately show thesis
      using miss no bget_take [OF bwf_simps(1) [OF wf] bwf_simps(5) [OF wf b'(1) nl]] by simp
  qed
qed

lemma ring_upd:
  assumes "ring bs xs" and "b_next x = nxt bs b" and "b_prev x = prv bs b"
  shows "ring (bs[b := x]) xs"
proof -
  have "nxt (bs[b := x]) = nxt bs" "prv (bs[b := x]) = prv bs"
    using assms(2,3) by (cases "b < length bs"; simp add: fun_eq_iff nth_list_update list_update_beyond)+
  with assms(1) show ?thesis by (simp add: ring_def)
qed

lemma uniq_upd:
  assumes "uniq bs" and "b < length bs"
    and "\<And>c. c < NBUF \<Longrightarrow> c \<noteq> b \<Longrightarrow> \<not> (b_dev (bs ! c) = b_dev x \<and> b_blockno (bs ! c) = b_blockno x)"
  shows "uniq (bs[b := x])"
  unfolding uniq_def
proof (intro allI impI)
  fix i j
  assume "i < NBUF" "j < NBUF" and k: "b_dev (bs[b := x] ! i) \<noteq> 0
    \<and> b_dev (bs[b := x] ! i) = b_dev (bs[b := x] ! j) \<and> b_blockno (bs[b := x] ! i) = b_blockno (bs[b := x] ! j)"
  then show "i = j"
    using assms(1,2) assms(3) [of i] assms(3) [of j]
    by (cases "i = b"; cases "j = b") (auto simp: uniq_def)
qed

text \<open>
  Process \<open>i\<close> holds buffer \<open>b\<close> after \<^verbatim>\<open>bread\<close> of block \<open>k\<close>: the buffer has the contents of the
  block, which no block has changed, and nothing else of the cache or the disk has.
\<close>

definition bread_post ::
  "nat \<Rightarrow> nat set \<Rightarrow> u32 \<Rightarrow> 'a bst_scheme \<Rightarrow> nat \<Rightarrow> 'a bst_scheme \<Rightarrow> bool" where
  "bread_post i L k s b t \<longleftrightarrow> b < NBUF \<and> b \<notin> L \<and> bwf i (insert b L) t \<and> cached k (bufs t ! b)
     \<and> b_data (bufs t ! b) = cview s k \<and> (\<forall>j. cview t j = cview s j) \<and> disk t = disk s
     \<and> (b_dirty (bufs t ! b) \<or> cview s k = disk s 1 k)
     \<and> pinned t = pinned s \<and> (\<forall>c<NBUF. c \<noteq> b \<longrightarrow> bufs t ! c = bufs s ! c) \<and> bst.more t = bst.more s
     \<and> map p_pid (procs t) = map p_pid (procs s)"

lemma pid_same:
  assumes "map p_pid (procs t) = map p_pid (procs s)" and "runs i t"
  shows "p_pid (procs t ! i) = p_pid (procs s ! i)"
proof -
  have "length (procs t) = length (procs s)" using assms(1) by (metis length_map)
  moreover have "i < length (procs t)" using assms(2) by (simp add: runs_def)
  ultimately show ?thesis using assms(1) by (metis nth_map)
qed

lemma bread_finish:
  assumes wf: "bwf i L s" and b: "b < NBUF" "b \<notin> L"
    and t: "io_ready i t" "bufs t = (bufs s)[b := x]" "slks t = slks (own_slk i b s)" "disk t = disk s"
      "bst.more t = bst.more s" "map p_pid (procs t) = map p_pid (procs s)"
    and x: "b_next x = nxt (bufs s) b" "b_prev x = prv (bufs s) b" "b_refcnt x = 1" "cached k x"
      "b_dirty x = b_dirty (bufs s ! b)"
    and how: "cached k (bufs s ! b) \<and> b_data x = b_data (bufs s ! b)
      \<or> \<not> b_valid (bufs s ! b) \<and> same_key k (bufs s ! b) \<and> b_data x = disk s 1 k
      \<or> (\<forall>c<NBUF. \<not> same_key k (bufs s ! c)) \<and> \<not> b_dirty (bufs s ! b) \<and> b_data x = disk s 1 k"
  shows "bread_post i L k s b t"
proof -
  note w = bwf_simps [OF wf]
  have lb: "b < length (bufs s)" using b(1) w(3) by simp
  have "\<not> same_key k (bufs s ! c)" if "c < NBUF" "c \<noteq> b" for c
    using how w(2) that b(1) unfolding uniq_def same_key_def cached_def
    by (metis zero_neq_one)
  then have u: "uniq (bufs t)"
    unfolding t(2) using x(4) w(2) lb by (intro uniq_upd) (auto simp: same_key_def cached_def)
  have lt: "length (bufs t) = Suc NBUF" using t(2) w(3) by simp
  have coherent: "b_data (bufs s ! b) = disk s 1 j" if "cached j (bufs s ! b)" "\<not> b_dirty (bufs s ! b)" for j
    using w(8) [OF b] that by (simp add: cached_def)
  have view: "cview t j = cview s j" for j
  proof (rule cview_same [where b = b, OF w(2,3) u lt])
    show "cached j (bufs s ! b) \<Longrightarrow> b_data (bufs s ! b) = disk s 1 j
      \<or> cached j (bufs t ! b) \<and> b_data (bufs t ! b) = b_data (bufs s ! b)"
      using how coherent x(4) lb by (auto simp: t(2) cached_def same_key_def)
    show "cached j (bufs t ! b) \<Longrightarrow> b_data (bufs t ! b) = disk s 1 j
      \<or> cached j (bufs s ! b) \<and> b_data (bufs t ! b) = b_data (bufs s ! b)"
      using how x(4) lb by (auto simp: t(2) cached_def same_key_def)
  qed (simp_all add: t)
  have tb: "bufs t ! b = x" using lb by (simp add: t(2))
  have data: "b_data x = cview s k"
    using view [of k] cview_cached [OF u lt b(1)] x(4) tb by simp
  have slk: "has_slk i (SL_buf c) t" if "c \<in> insert b L" for c
    using that w(9) [of c] pid_same [OF t(6)] t(1,3)
    by (cases "c = b") (auto simp: has_slk_def io_ready_def own_slk_def)
  have "ring (bufs t) xs" if "ring (bufs s) xs" for xs
    unfolding t(2) using that x(1,2) by (rule ring_upd)
  then have "bwf i (insert b L) t"
    using wf slk b t(1-4) u tb x(3,4) lb unfolding bwf_def
    by (auto simp: cached_def nth_list_update own_slk_def)
  moreover have "pinned t = pinned s"
  proof -
    have ds: "dirty_set t = dirty_set s" using x(5) lb t(2) by (auto simp: dirty_set_def nth_list_update)
    have "b_blockno (bufs t ! c) = b_blockno (bufs s ! c)" if "c \<in> dirty_set s" for c
      using that how w(7) [OF b] x(4) tb t(2) by (cases "c = b") (auto simp: dirty_set_def cached_def)
    then show ?thesis unfolding pinned_def ds by (auto intro!: image_cong)
  qed
  moreover have "b_dirty x \<or> cview s k = disk s 1 k"
    using how coherent x(5) data by auto
  ultimately show ?thesis
    using b view data t tb x(4) by (simp add: bread_post_def)
qed

text \<open>
  The contract of \<^verbatim>\<open>bread\<close>. It needs a buffer that is neither locked by the process nor dirty, and
  a block that the process has not locked already.
\<close>

lemma bread_safe:
  assumes wf: "bwf i L s" and "\<forall>b\<in>L. \<not> same_key k (bufs s ! b)"
    and "k \<in> pinned s \<or> card L + card (pinned s) < NBUF" and k: "k < FSSIZE" and P: "P (disk s)"
  shows "safe (\<lambda>t. P (disk t)) (quiet i) (bread 1 k s) (bread_post i L k s)"
proof -
  have room: "k \<in> pinned s \<or> card (L \<union> dirty_set s) < NBUF"
    using assms(3) room_card [OF wf] by blast
  show ?thesis
    using wf assms(2) room
  proof (cases rule: bget_cases)
    case (hit b)
    note w = bwf_simps [OF wf]
    have lb: "b < length (bufs s)" using hit(1) w(3) by simp
    let ?s = "own_slk i b (upd_buf b (\<lambda>x. x\<lparr>b_refcnt := b_refcnt x + 1\<rparr>) s)"
    have key: "b_dev (bufs s ! b) = 1" "b_blockno (bufs s ! b) = k" using hit(3) by (simp_all add: same_key_def)
    have sl: "slks ?s = slks (own_slk i b s)" by (simp add: own_slk_def)
    show ?thesis
    proof (cases "b_valid (bufs s ! b)")
      case True
      have "bread_post i L k s b ?s"
        by (rule bread_finish [OF wf hit(1,2), where x = "(bufs s ! b)\<lparr>b_refcnt := b_refcnt (bufs s ! b) + 1\<rparr>"])
          (use True w(1) key sl w(6) [OF hit(1,2)] in \<open>simp_all add: cached_def io_ready_def\<close>)
      with True lb show ?thesis by (simp add: bread_def hit(4))
    next
      case False
      then have nd: "\<not> b_dirty (bufs s ! b)" using w(7) [OF hit(1,2)] by blast
      have io: "io_disk (bufs ?s ! b) (disk ?s) = disk s" using nd lb by (simp add: io_disk_def)
      have "safe (\<lambda>t. P (disk t)) (quiet i) (iderw b ?s) (\<lambda>_ t. bread_post i L k s b t)"
      proof (rule safe_mono [OF iderw_safe [where P = P]])
        fix t assume t: "io_ready i t \<and> slks t = slks ?s \<and> map p_pid (procs t) = map p_pid (procs ?s)
          \<and> bst.more t = bst.more ?s \<and> disk t = io_disk (bufs ?s ! b) (disk ?s)
          \<and> bufs t = (bufs ?s)[b := io_buf (disk ?s) (bufs ?s ! b)]"
        show "bread_post i L k s b t"
          by (rule bread_finish [OF wf hit(1,2), where x = "io_buf (disk s) (bufs ?s ! b)"])
            (use t io lb False nd key sl w(6) [OF hit(1,2)] in \<open>simp_all add: cached_def same_key_def io_buf_def\<close>)
      qed (use w(1) lb False k key io P in \<open>simp_all add: io_ready_def\<close>)
      then show ?thesis using False lb by (auto simp: bread_def hit(4) elim!: safe_bind)
    qed
  next
    case (miss b)
    note w = bwf_simps [OF wf]
    have lb: "b < length (bufs s)" using miss(1) w(3) by simp
    let ?s = "own_slk i b (upd_buf b (\<lambda>x. x\<lparr>b_dev := 1, b_blockno := k, b_valid := False,
           b_dirty := False, b_refcnt := 1\<rparr>) s)"
    have sl: "slks ?s = slks (own_slk i b s)" by (simp add: own_slk_def)
    have io: "io_disk (bufs ?s ! b) (disk ?s) = disk s" using lb by (simp add: io_disk_def)
    have "safe (\<lambda>t. P (disk t)) (quiet i) (iderw b ?s) (\<lambda>_ t. bread_post i L k s b t)"
    proof (rule safe_mono [OF iderw_safe [where P = P]])
      fix t assume t: "io_ready i t \<and> slks t = slks ?s \<and> map p_pid (procs t) = map p_pid (procs ?s)
        \<and> bst.more t = bst.more ?s \<and> disk t = io_disk (bufs ?s ! b) (disk ?s)
        \<and> bufs t = (bufs ?s)[b := io_buf (disk ?s) (bufs ?s ! b)]"
      show "bread_post i L k s b t"
        by (rule bread_finish [OF wf miss(1,2), where x = "io_buf (disk s) (bufs ?s ! b)"])
          (use t io lb miss(3,4) sl in \<open>simp_all add: cached_def io_buf_def\<close>)
    qed (use w(1) lb k io P in \<open>simp_all add: io_ready_def\<close>)
    then show ?thesis using lb by (auto simp: bread_def miss(5) elim!: safe_bind)
  qed
qed

section \<open>Writing and releasing a buffer\<close>

lemma disk_write_simp [simp]: "disk_write d k x D e j = (if e = d \<and> j = k then x else D e j)"
  by (simp add: disk_write_def)

text \<open>
  The state after a change to one buffer that the process has locked, which keeps the block
  the buffer is for: the invariant, and the contents of the blocks.
\<close>

lemma bwf_upd:
  fixes s t :: "'a bst_scheme"
  assumes wf: "bwf i L s" and b: "b \<in> L" and k: "cached k (bufs s ! b)"
    and t: "io_ready i t" "bufs t = (bufs s)[b := x]" "slks t = slks s"
      "map p_pid (procs t) = map p_pid (procs s)" "disk t = (if wr then disk_write 1 k (b_data x) (disk s) else disk s)"
    and x: "b_next x = nxt (bufs s) b" "b_prev x = prv (bufs s) b" "b_refcnt x = 1" "cached k x"
  shows "bwf i L t" and "cview t = (cview s)(k := b_data x)"
proof -
  note w = bwf_simps [OF wf]
  have bN: "b < NBUF" using w(12) [OF b] .
  then have lb: "b < length (bufs s)" using w(3) by simp
  have tb: "bufs t ! b = x" using lb by (simp add: t(2))
  have alone: "\<not> same_key k (bufs s ! c)" if "c < NBUF" "c \<noteq> b" for c
    using w(2) that bN k unfolding uniq_def cached_def same_key_def by (metis zero_neq_one)
  then have u: "uniq (bufs t)"
    unfolding t(2) using x(4) w(2) lb by (intro uniq_upd) (auto simp: same_key_def cached_def)
  have lt: "length (bufs t) = Suc NBUF" using t(2) w(3) by simp
  have same: "bufs t ! c = bufs s ! c" if "c \<noteq> b" for c using that by (simp add: t(2))
  have slk: "has_slk i l t = has_slk i l s" for l
    using pid_same [OF t(4)] t(1,3) by (simp add: has_slk_def io_ready_def)
  have dk: "disk t 1 (b_blockno (bufs s ! c)) = disk s 1 (b_blockno (bufs s ! c))"
    if "c < NBUF" "c \<noteq> b" "b_valid (bufs s ! c)" for c
    using alone [OF that(1,2)] w(13) [OF that(1,3)] by (simp add: same_key_def t(5))
  have r: "\<exists>xs. ring (bufs t) xs"
    using wf ring_upd [OF _ x(1,2)] unfolding bwf_def t(2) by blast
  have dev: "b_valid (bufs t ! c) \<longrightarrow> b_dev (bufs t ! c) = 1" if "c < NBUF" for c
    using w(13) [OF that] x(4) tb same [of c] by (cases "c = b") (simp_all add: cached_def)
  have mine: "has_slk i (SL_buf c) t \<and> b_refcnt (bufs t ! c) = 1 \<and> b_valid (bufs t ! c)" if "c \<in> L" for c
    using w(9-11) [OF that] x(3,4) tb same [of c] slk by (cases "c = b") (simp_all add: cached_def)
  have other: "\<not> sl_locked (slks t (SL_buf c)) \<and> b_refcnt (bufs t ! c) = 0
      \<and> (b_dirty (bufs t ! c) \<longrightarrow> b_valid (bufs t ! c))
      \<and> (b_valid (bufs t ! c) \<and> \<not> b_dirty (bufs t ! c) \<longrightarrow>
          b_data (bufs t ! c) = disk t 1 (b_blockno (bufs t ! c)))" if "c < NBUF" "c \<notin> L" for c
  proof -
    have "c \<noteq> b" using that(2) b by blast
    then show ?thesis using w(5-8) [OF that] same [of c] dk [OF that(1)] t(3) by simp
  qed
  show "bwf i L t"
    unfolding bwf_def by (intro conjI allI ballI impI t(1) r u w(4) mine other dev [rule_format])
  show "cview t = (cview s)(k := b_data x)"
  proof (rule ext)
    fix j show "cview t j = ((cview s)(k := b_data x)) j"
    proof (cases "j = k")
      case True
      then show ?thesis using cview_cached [OF u lt bN] tb x(4) by simp
    next
      case False
      then have n: "\<not> cached j (bufs s ! b)" "\<not> cached j (bufs t ! b)" "disk t 1 j = disk s 1 j"
        using k x(4) tb t(5) by (auto simp: cached_def)
      have "cview t j = cview s j"
        by (rule cview_same [where b = b, OF w(2,3) u lt n(3)]) (use n same in simp_all)
      then show ?thesis using False by simp
    qed
  qed
qed

text \<open>The contract of \<^verbatim>\<open>bwrite\<close>: when a crash can happen, the new contents are on the disk.\<close>

lemma bwrite_safe:
  assumes wf: "bwf i L s" and b: "b \<in> L" and c: "cached k (bufs s ! b)" and k: "k < FSSIZE"
    and P: "P (disk_write 1 k (b_data (bufs s ! b)) (disk s))"
  shows "safe (\<lambda>t. P (disk t)) (quiet i) (bwrite b s)
    (\<lambda>_ t. bwf i L t \<and> cview t = cview s \<and> disk t = disk_write 1 k (b_data (bufs s ! b)) (disk s)
      \<and> pinned t = pinned s - {k} \<and> bst.more t = bst.more s
      \<and> bufs t = (bufs s)[b := (bufs s ! b)\<lparr>b_dirty := False, b_qnext := None\<rparr>]
      \<and> map p_pid (procs t) = map p_pid (procs s))"
proof -
  note w = bwf_simps [OF wf]
  have bN: "b < NBUF" using w(12) [OF b] .
  then have lb: "b < length (bufs s)" using w(3) by simp
  let ?s = "upd_buf b (\<lambda>x. x\<lparr>b_dirty := True\<rparr>) s" and ?x = "(bufs s ! b)\<lparr>b_dirty := False, b_qnext := None\<rparr>"
  have io: "io_disk (bufs ?s ! b) (disk ?s) = disk_write 1 k (b_data (bufs s ! b)) (disk s)"
    "io_buf (disk ?s) (bufs ?s ! b) = ?x"
    using c lb by (simp_all add: io_disk_def io_buf_def cached_def)
  have same: "(cview s)(k := b_data ?x) = cview s"
    using cview_cached [OF w(2,3) bN c] by (simp add: fun_eq_iff)
  have "safe (\<lambda>t. P (disk t)) (quiet i) (iderw b ?s) (\<lambda>_ t. bwf i L t \<and> cview t = cview s
      \<and> disk t = disk_write 1 k (b_data (bufs s ! b)) (disk s) \<and> pinned t = pinned s - {k}
      \<and> bst.more t = bst.more s \<and> bufs t = (bufs s)[b := ?x]
      \<and> map p_pid (procs t) = map p_pid (procs s))"
  proof (rule safe_mono [OF iderw_safe [where P = P]])
    fix t assume t: "io_ready i t \<and> slks t = slks ?s \<and> map p_pid (procs t) = map p_pid (procs ?s)
      \<and> bst.more t = bst.more ?s \<and> disk t = io_disk (bufs ?s ! b) (disk ?s)
      \<and> bufs t = (bufs ?s)[b := io_buf (disk ?s) (bufs ?s ! b)]"
    then have bt: "bufs t = (bufs s)[b := ?x]" using io(2) by simp
    have "bwf i L t" "cview t = (cview s)(k := b_data ?x)"
      using t io(1) c w(10) [OF b]
      by (intro bwf_upd [OF wf b c, where wr = True and x = ?x] bt; simp add: cached_def)+
    moreover have "pinned t = pinned s - {k}"
    proof -
      have ds: "dirty_set t = dirty_set s - {b}"
        unfolding dirty_set_def bt using lb by (auto simp: nth_list_update)
      have "k \<notin> pinned t"
        using pinned_iff [OF \<open>bwf i L t\<close> bN, of k] bt lb c by (simp add: cached_def)
      moreover have "b_blockno (bufs t ! e) = b_blockno (bufs s ! e)" for e
        using bt lb by (simp add: nth_list_update)
      ultimately show ?thesis using ds c by (auto simp: pinned_def cached_def image_iff) (metis DiffI singletonD)
    qed
    ultimately show "bwf i L t \<and> cview t = cview s
      \<and> disk t = disk_write 1 k (b_data (bufs s ! b)) (disk s) \<and> pinned t = pinned s - {k}
      \<and> bst.more t = bst.more s \<and> bufs t = (bufs s)[b := ?x]
      \<and> map p_pid (procs t) = map p_pid (procs s)"
      using t bt io(1) same by simp
  qed (use w(1) w(9) [OF b] lb c k io P in \<open>simp_all add: io_ready_def has_slk_def cached_def\<close>)
  moreover have "bwrite b s = iderw b ?s"
    using w(1) w(9) [OF b] by (simp add: bwrite_def holdingsleep_eq [of i] io_ready_def has_slk_def)
  ultimately show ?thesis by simp
qed

text \<open>What \<^verbatim>\<open>brelse\<close> does to a buffer but for its links.\<close>

definition core :: "buf \<Rightarrow> buf" where
  "core x = x\<lparr>b_next := 0, b_prev := 0\<rparr>"

lemma core_move_to_front: "map core (move_to_front b bs) = map core bs"
proof -
  have "map core (set_next i v bs) = map core bs" "map core (set_prev i v bs) = map core bs" for i v bs
    by (simp_all add: set_next_def set_prev_def map_upd_same core_def)
  then show ?thesis by (simp add: move_to_front_def Let_def)
qed

lemma core_fields:
  assumes "core x = core y"
  shows "b_dev x = b_dev y" "b_blockno x = b_blockno y" "b_valid x = b_valid y" "b_dirty x = b_dirty y"
    "b_data x = b_data y" "b_refcnt x = b_refcnt y" "cached k x = cached k y"
proof -
  show "b_dev x = b_dev y" "b_blockno x = b_blockno y" "b_valid x = b_valid y" "b_dirty x = b_dirty y"
    "b_data x = b_data y" "b_refcnt x = b_refcnt y"
    using assms by (cases x; cases y; simp add: core_def)+
  then show "cached k x = cached k y" by (simp add: cached_def)
qed

text \<open>
  The contract of \<^verbatim>\<open>brelse\<close>: a buffer may be released if its contents are on the disk, or are
  marked as still to be written.
\<close>

lemma brelse_ok:
  fixes s :: "'a bst_scheme"
  assumes wf: "bwf i L s" and b: "b \<in> L"
    and coherent: "b_dirty (bufs s ! b) \<or> b_data (bufs s ! b) = disk s 1 (b_blockno (bufs s ! b))"
  obtains t where "brelse b s = Ok () t" "bwf i (L - {b}) t" "cview t = cview s" "disk t = disk s"
    "pinned t = pinned s" "bst.more t = bst.more s" "map p_pid (procs t) = map p_pid (procs s)"
    "\<And>c k. c < NBUF \<Longrightarrow> cached k (bufs t ! c) = cached k (bufs s ! c)"
proof -
  note w = bwf_simps [OF wf]
  have bN: "b < NBUF" using w(12) [OF b] .
  then have lb: "b < length (bufs s)" using w(3) by simp
  have i: "runs i s" "held s = []" using w(1) by (simp_all add: io_ready_def)
  let ?bs = "(bufs s)[b := (bufs s ! b)\<lparr>b_refcnt := 0\<rparr>]"
  let ?u = "wakeup1 (Some (Ch_slk (SL_buf b))) (upd_slk (SL_buf b) (\<lambda>k. k\<lparr>sl_locked := False, sl_pid := 0\<rparr>) s)"
  let ?t = "?u\<lparr>bufs := move_to_front b ?bs\<rparr>"
  have rc: "b_refcnt (bufs s ! b) = 1" using w(10) [OF b] .
  have "releasesleep (SL_buf b) s = Ok () ?u" using i(2) by (simp add: releasesleep_eq)
  moreover have "holdingsleep (SL_buf b) s = Ok True s"
    using w(9) [OF b] i by (simp add: holdingsleep_eq [of i] has_slk_def)
  moreover have "release L_bcache (u\<lparr>held := [L_bcache], bufs := x\<rparr>) = Ok () (u\<lparr>bufs := x\<rparr>)"
    if "held u = []" for u :: "'a bst_scheme" and x
    using that held_id [of u] by (cases u) simp
  ultimately have run: "brelse b s = Ok () ?t"
    using i(2) lb rc by (simp add: brelse_def Let_def upd_buf_def)
  have cr: "core (bufs ?t ! c) = core ((bufs s ! c)\<lparr>b_refcnt := (if c = b then 0 else b_refcnt (bufs s ! c))\<rparr>)"
    if "c < NBUF" for c
  proof -
    have "core (move_to_front b ?bs ! c) = core (?bs ! c)"
      using core_move_to_front [of b ?bs] w(3) that
      by (metis length_move_to_front length_list_update less_Suc_eq nth_map)
    then show ?thesis using lb by (simp add: nth_list_update)
  qed
  note f = core_fields [OF cr, simplified]
  have cf: "cached k (bufs ?t ! c) = cached k (bufs s ! c)" if "c < NBUF" for k c
    using f [OF that] by (simp add: cached_def)
  have lt: "length (bufs ?t) = Suc NBUF" using w(3) by simp
  obtain xs where xs: "ring (bufs s) xs" using wf by (auto simp: bwf_def)
  then have "ring ?bs xs" by (rule ring_upd) simp_all
  moreover have "b \<in> set xs" using xs bN by (simp add: ring_def)
  then obtain us vs where "xs = us @ b # vs" by (auto simp: in_set_conv_decomp)
  ultimately have ring: "ring (bufs ?t) (b # us @ vs)" using ring_move_to_front by auto
  have u: "uniq (bufs ?t)" using w(2) f by (simp add: uniq_def)
  have "bwf i (L - {b}) ?t"
    unfolding bwf_def
  proof (intro conjI allI ballI impI exI [of _ "b # us @ vs"] ring u)
    show "io_ready i ?t" using w(1) by (simp add: io_ready_def)
    show "L - {b} \<subseteq> {..<NBUF}" using w(4) by blast
    show "b_dev (bufs ?t ! c) = 1" if "c < NBUF" "b_valid (bufs ?t ! c)" for c
      using w(13) [OF that(1)] f [OF that(1)] that(2) by simp
    fix c
    show "has_slk i (SL_buf c) ?t" "b_refcnt (bufs ?t ! c) = 1" "b_valid (bufs ?t ! c)" if "c \<in> L - {b}"
      using that w(9-12) [of c] f [of c] i(1) by (auto simp: has_slk_def runs_def)
    assume c: "c < NBUF" "c \<notin> L - {b}"
    show "\<not> sl_locked (slks ?t (SL_buf c))" "b_refcnt (bufs ?t ! c) = 0"
      using c w(5,6) [of c] f(6) [OF c(1)] by (cases "c = b"; simp)+
    show "b_valid (bufs ?t ! c)" if "b_dirty (bufs ?t ! c)"
      using that c w(7) [of c] w(11) [OF b] f [OF c(1)] by (cases "c = b"; simp)+
    show "b_data (bufs ?t ! c) = disk ?t 1 (b_blockno (bufs ?t ! c))"
      if "b_valid (bufs ?t ! c) \<and> \<not> b_dirty (bufs ?t ! c)"
      using that c w(8) [of c] coherent f [OF c(1)] by (cases "c = b"; simp)+
  qed
  moreover have "cview ?t j = cview s j" for j
  proof (rule cview_same [where b = b, OF w(2,3) u lt])
    show "cached j (bufs ?t ! c) = cached j (bufs s ! c) \<and> b_data (bufs ?t ! c) = b_data (bufs s ! c)"
      if "c < NBUF" "c \<noteq> b" for c using cf [OF that(1), of j] f(5) [OF that(1)] by simp
  qed (use cf [OF bN, of j] f(5) [OF bN] in simp_all)
  then have "cview ?t = cview s" ..
  moreover have "dirty_set ?t = dirty_set s" using f by (auto simp: dirty_set_def)
  then have "pinned ?t = pinned s" using f by (auto simp: pinned_def dirty_set_def intro!: image_cong)
  moreover have "map p_pid (procs ?t) = map p_pid (procs s)" by (simp add: o_def)
  ultimately show thesis using that [of ?t] run cf by simp
qed

section \<open>Changing a locked buffer in memory\<close>

lemma bwf_data:
  fixes s :: "'a bst_scheme" and d :: block
  assumes wf: "bwf i L s" and b: "b \<in> L" and k: "cached k (bufs s ! b)"
  defines "t \<equiv> upd_buf b (\<lambda>x. x\<lparr>b_data := d\<rparr>) s"
  shows "bwf i L t" and "cview t = (cview s)(k := d)" and "pinned t = pinned s"
proof -
  note w = bwf_simps [OF wf]
  have lb: "b < length (bufs s)" using w(3) w(12) [OF b] by simp
  have "bwf i L t \<and> cview t = (cview s)(k := b_data ((bufs s ! b)\<lparr>b_data := d\<rparr>))"
    by (intro conjI bwf_upd [OF wf b k, where wr = False and x = "(bufs s ! b)\<lparr>b_data := d\<rparr>"])
      (use w(1) w(10) [OF b] k in \<open>simp_all add: t_def io_ready_def cached_def\<close>)
  then show "bwf i L t" "cview t = (cview s)(k := d)" by simp_all
  have "dirty_set t = dirty_set s" using lb by (auto simp: dirty_set_def t_def nth_list_update)
  moreover have "b_blockno (bufs t ! c) = b_blockno (bufs s ! c)" for c
    using lb by (simp add: t_def nth_list_update)
  ultimately show "pinned t = pinned s" by (simp add: pinned_def)
qed

lemma bwf_pin:
  fixes s :: "'a bst_scheme"
  assumes wf: "bwf i L s" and b: "b \<in> L" and k: "cached k (bufs s ! b)"
  defines "t \<equiv> upd_buf b (\<lambda>x. x\<lparr>b_dirty := True\<rparr>) s"
  shows "bwf i L t" and "cview t = cview s" and "pinned t = insert k (pinned s)"
proof -
  note w = bwf_simps [OF wf]
  have bN: "b < NBUF" using w(12) [OF b] .
  then have lb: "b < length (bufs s)" using w(3) by simp
  have "bwf i L t \<and> cview t = (cview s)(k := b_data ((bufs s ! b)\<lparr>b_dirty := True\<rparr>))"
    by (intro conjI bwf_upd [OF wf b k, where wr = False and x = "(bufs s ! b)\<lparr>b_dirty := True\<rparr>"])
      (use w(1) w(10) [OF b] k in \<open>simp_all add: t_def io_ready_def cached_def\<close>)
  moreover have "b_data (bufs s ! b) = cview s k" using cview_cached [OF w(2,3) bN k] by simp
  ultimately show "bwf i L t" "cview t = cview s" by simp_all
  have "dirty_set t = insert b (dirty_set s)" using lb bN by (auto simp: dirty_set_def t_def nth_list_update)
  moreover have "b_blockno (bufs t ! c) = b_blockno (bufs s ! c)" for c
    using lb by (simp add: t_def nth_list_update)
  ultimately show "pinned t = insert k (pinned s)" using k by (simp add: pinned_def cached_def)
qed

lemma cview_unpinned:
  assumes wf: "bwf i {} s" and k: "k \<notin> pinned s"
  shows "cview s k = disk s 1 k"
proof (cases "\<exists>b<NBUF. cached k (bufs s ! b)")
  case True
  note w = bwf_simps [OF wf]
  from True obtain b where b: "b < NBUF" "cached k (bufs s ! b)" by blast
  then have "\<not> b_dirty (bufs s ! b)" using pinned_iff [OF wf] k by blast
  with b w(8) [OF b(1)] cview_cached [OF w(2,3) b] show ?thesis by (simp add: cached_def)
next
  case False
  then show ?thesis using cview_uncached bwf_simps(3) [OF wf] by blast
qed

section \<open>The cache at boot\<close>

lemma core_upd_buf:
  "map core (bufs (upd_buf b (\<lambda>x. x\<lparr>b_next := v\<rparr>) s)) = map core (bufs s)"
  "map core (bufs (upd_buf b (\<lambda>x. x\<lparr>b_prev := v\<rparr>) s)) = map core (bufs s)"
  by (simp_all add: map_upd_same core_def)

lemma binit_step_frame:
  "io_ready i (binit_step b s) = io_ready i s" "disk (binit_step b s) = disk s"
  "bst.more (binit_step b s) = bst.more s" "map core (bufs (binit_step b s)) = map core (bufs s)"
proof -
  show "map core (bufs (binit_step b s)) = map core (bufs s)"
    unfolding binit_step_def Let_def bufs_initsleeplock
    by (simp only: core_upd_buf bufs_initsleeplock)
qed (simp_all add: binit_step_def initsleeplock_def Let_def io_ready_def)

lemma binit_frame:
  "io_ready i (binit s) = io_ready i s \<and> disk (binit s) = disk s \<and> bst.more (binit s) = bst.more s
    \<and> map core (bufs (binit s)) = map core (bufs s)"
proof -
  have "io_ready i (fold binit_step xs t) = io_ready i t \<and> disk (fold binit_step xs t) = disk t
    \<and> bst.more (fold binit_step xs t) = bst.more t
    \<and> map core (bufs (fold binit_step xs t)) = map core (bufs t)" for xs and t :: "'a bst_scheme"
    by (induction xs arbitrary: t) (simp_all add: binit_step_frame)
  from this [of "[0..<NBUF]" "upd_buf head (\<lambda>x. x\<lparr>b_prev := head, b_next := head\<rparr>) s"]
  show ?thesis by (simp add: binit_def io_ready_def map_upd_same core_def)
qed

lemma binit_bwf:
  assumes "io_ready i s" and len: "length (bufs s) = Suc NBUF"
    and zero: "\<And>b. b < NBUF \<Longrightarrow> \<not> b_valid (bufs s ! b) \<and> \<not> b_dirty (bufs s ! b) \<and> b_refcnt (bufs s ! b) = 0
      \<and> b_dev (bufs s ! b) = 0"
  shows "bwf i {} (binit s)" and "pinned (binit s) = {}"
    and "\<And>b. b < NBUF \<Longrightarrow> \<not> b_valid (bufs (binit s) ! b) \<and> b_dev (bufs (binit s) ! b) = 0"
proof -
  have c: "core (bufs (binit s) ! b) = core (bufs s ! b)" if "b < NBUF" for b
  proof -
    have "map core (bufs (binit s)) = map core (bufs s)" using binit_frame by blast
    then show ?thesis using that len by (metis length_map less_Suc_eq nth_map)
  qed
  note f = core_fields [OF c]
  have "uniq (bufs (binit s))" using f zero by (simp add: uniq_def)
  moreover have "io_ready i (binit s)" using assms(1) binit_frame by blast
  moreover have "\<exists>xs. ring (bufs (binit s)) xs" using binit_wf [OF len] by blast
  ultimately show "bwf i {} (binit s)" using f zero by (simp add: bwf_def slks_binit)
  show "pinned (binit s) = {}" using f zero by (simp add: pinned_def dirty_set_def)
  show "\<And>b. b < NBUF \<Longrightarrow> \<not> b_valid (bufs (binit s) ! b) \<and> b_dev (bufs (binit s) ! b) = 0" using f zero by simp
qed

lemma boot_bwf: "bwf 0 {} boot_bst" and boot_pinned: "pinned boot_bst = {}"
  and boot_empty: "b < NBUF \<Longrightarrow> \<not> b_valid (bufs boot_bst ! b) \<and> b_dev (bufs boot_bst ! b) = 0"
  and boot_disk: "disk boot_bst = (\<lambda>_ _. replicate BSIZE 0)"
proof -
  let ?s = "slst.extend (slk3 (SL_buf 0) False)
     \<lparr>bufs = replicate (Suc NBUF) boot_buf, idequeue = None, havedisk1 = True,
      disk = (\<lambda>_ _. replicate BSIZE 0), ide_sel = (0, 0), ide_err = False\<rparr>"
  have s: "io_ready 0 ?s" "length (bufs ?s) = Suc NBUF"
    using slk3_simps [of "SL_buf 0" False] by (simp_all add: io_ready_def slst.defs runs_def on_cpu_def)
  have b: "bufs ?s ! b = boot_buf" if "b \<le> NBUF" for b
    using that by (simp add: slst.defs nth_replicate del: replicate_Suc)
  show wf: "bwf 0 {} boot_bst"
    unfolding boot_bst_def using s b by (intro binit_bwf) (auto simp: boot_buf_def)
  show "disk boot_bst = (\<lambda>_ _. replicate BSIZE 0)"
    using binit_frame [of 0 ?s] by (simp add: boot_bst_def slst.defs)
  show "pinned boot_bst = {}"
    unfolding boot_bst_def using s b by (intro binit_bwf) (auto simp: boot_buf_def)
  show "b < NBUF \<Longrightarrow> \<not> b_valid (bufs boot_bst ! b) \<and> b_dev (bufs boot_bst ! b) = 0"
    unfolding boot_bst_def using s b by (intro binit_bwf(3)) (auto simp: boot_buf_def)
qed

section \<open>The contract of the cache\<close>

text \<open>
  C9. Reading a block through the cache: from a well-formed cache that is not full of pinned
  blocks, \<^verbatim>\<open>bread\<close> returns a buffer that the caller has locked, with the current contents of the
  block; it changes neither the disk nor the contents of any block, and cannot panic.
\<close>

theorem bread_correct:
  assumes "bwf i {} s" and "card (pinned s) < NBUF" and "k < FSSIZE"
  shows "safe (\<lambda>t. disk t = disk s) (quiet i) (bread 1 k s)
    (\<lambda>b t. bwf i {b} t \<and> cached k (bufs t ! b) \<and> b_data (bufs t ! b) = cview s k
      \<and> (\<forall>j. cview t j = cview s j) \<and> disk t = disk s \<and> pinned t = pinned s)"
proof -
  have "safe (\<lambda>t. disk t = disk s) (quiet i) (bread 1 k s) (bread_post i {} k s)"
    using assms by (intro bread_safe [where P = "\<lambda>D. D = disk s"]) simp_all
  then show ?thesis by (rule safe_mono) (simp add: bread_post_def)
qed

theorem bread_correct_witness:
  "safe (\<lambda>t. disk t = disk boot_bst) (quiet 0) (bread 1 7 boot_bst)
    (\<lambda>b t. bwf 0 {b} t \<and> cached 7 (bufs t ! b) \<and> b_data (bufs t ! b) = cview boot_bst 7
      \<and> (\<forall>j. cview t j = cview boot_bst j) \<and> disk t = disk boot_bst \<and> pinned t = pinned boot_bst)"
  by (rule bread_correct) (simp_all add: boot_bwf boot_pinned NBUF_def FSSIZE_def)

end
