(* ===== verification/Layout.thy ===== *)
theory Layout
  imports Ide
begin

text \<open>
  The on-disk format of \<^verbatim>\<open>fs.h\<close>: little-endian integers in a block, the super block, on-disk
  inodes, the bits of the free map and directory entries. The fields of a C structure that
  lies in a block are read and written at the offsets that the compiler gives them (every
  structure of \<^verbatim>\<open>fs.h\<close> has its natural layout without padding). The blocks that hold an array
  (of inodes, of block numbers, of bits) implement one interface, a locale.
\<close>

section \<open>Integers in a block\<close>

definition get32 :: "u8 list \<Rightarrow> nat \<Rightarrow> u32" where
  "get32 xs a = load4 a (nth xs)"

definition put32 :: "nat \<Rightarrow> u32 \<Rightarrow> u8 list \<Rightarrow> u8 list" where
  "put32 a w xs = xs[a := ucast w, a + 1 := ucast (drop_bit 8 w),
     a + 2 := ucast (drop_bit 16 w), a + 3 := ucast (drop_bit 24 w)]"

definition get16 :: "u8 list \<Rightarrow> nat \<Rightarrow> u16" where
  "get16 xs a = ucast (xs ! a) OR push_bit 8 (ucast (xs ! (a + 1)))"

definition put16 :: "nat \<Rightarrow> u16 \<Rightarrow> u8 list \<Rightarrow> u8 list" where
  "put16 a w xs = xs[a := ucast w, a + 1 := ucast (drop_bit 8 w)]"

lemma length_put [simp]: "length (put32 a w xs) = length xs" "length (put16 a v xs) = length xs"
  by (simp_all add: put32_def put16_def)

lemma nth_put32:
  "a + 4 \<le> length xs \<Longrightarrow> put32 a w xs ! i =
    (if i = a then ucast w else if i = a + 1 then ucast (drop_bit 8 w)
     else if i = a + 2 then ucast (drop_bit 16 w) else if i = a + 3 then ucast (drop_bit 24 w) else xs ! i)"
  by (simp add: put32_def nth_list_update)

lemma nth_put16:
  "a + 2 \<le> length xs \<Longrightarrow> put16 a w xs ! i =
    (if i = a then ucast w else if i = a + 1 then ucast (drop_bit 8 w) else xs ! i)"
  by (simp add: put16_def nth_list_update)

lemma word_cat4:
  "ucast (ucast w :: u8) OR push_bit 8 (ucast (ucast (drop_bit 8 w) :: u8))
     OR push_bit 16 (ucast (ucast (drop_bit 16 w) :: u8))
     OR push_bit 24 (ucast (ucast (drop_bit 24 w) :: u8)) = (w :: u32)"
  using load4_store4 [of 0 w "\<lambda>_. 0"] by (simp add: load4_def store4_def)

lemma word_cat2:
  "ucast (ucast w :: u8) OR push_bit 8 (ucast (ucast (drop_bit 8 w) :: u8)) = (w :: u16)"
  by (rule bit_word_eqI) (auto simp: bit_simps)

lemma get_put_same [simp]:
  "a + 4 \<le> length xs \<Longrightarrow> get32 (put32 a w xs) a = w"
  "a + 2 \<le> length xs \<Longrightarrow> get16 (put16 a v xs) a = v"
  by (simp_all add: get32_def get16_def load4_def nth_put32 nth_put16 word_cat4 word_cat2)

text \<open>Accesses to disjoint ranges do not interfere.\<close>

lemma get_put_other [simp]:
  "a + 4 \<le> length xs \<Longrightarrow> b + 4 \<le> a \<or> a + 4 \<le> b \<Longrightarrow> get32 (put32 a w xs) b = get32 xs b"
  "a + 4 \<le> length xs \<Longrightarrow> b + 2 \<le> a \<or> a + 4 \<le> b \<Longrightarrow> get16 (put32 a w xs) b = get16 xs b"
  "a + 2 \<le> length xs \<Longrightarrow> b + 4 \<le> a \<or> a + 2 \<le> b \<Longrightarrow> get32 (put16 a v xs) b = get32 xs b"
  "a + 2 \<le> length xs \<Longrightarrow> b + 2 \<le> a \<or> a + 2 \<le> b \<Longrightarrow> get16 (put16 a v xs) b = get16 xs b"
  by (auto simp: get32_def get16_def load4_def nth_put32 nth_put16)

section \<open>The super block\<close>

definition ROOTINO :: u32 where "ROOTINO = 1"
definition ROOTDEV :: u32 where "ROOTDEV = 1"
definition NDIRECT :: nat where "NDIRECT = 12"
definition NINDIRECT :: nat where "NINDIRECT = BSIZE div 4"
definition MAXFILE :: nat where "MAXFILE = NDIRECT + NINDIRECT"

record superblock =
  sb_size :: u32
  sb_nblocks :: u32
  sb_ninodes :: u32
  sb_nlog :: u32
  sb_logstart :: u32
  sb_inodestart :: u32
  sb_bmapstart :: u32

definition get_sb :: "u8 list \<Rightarrow> superblock" where
  "get_sb xs = \<lparr>sb_size = get32 xs 0, sb_nblocks = get32 xs 4, sb_ninodes = get32 xs 8, sb_nlog = get32 xs 12,
     sb_logstart = get32 xs 16, sb_inodestart = get32 xs 20, sb_bmapstart = get32 xs 24\<rparr>"

definition put_sb :: "superblock \<Rightarrow> u8 list \<Rightarrow> u8 list" where
  "put_sb sb xs = put32 24 (sb_bmapstart sb) (put32 20 (sb_inodestart sb) (put32 16 (sb_logstart sb)
     (put32 12 (sb_nlog sb) (put32 8 (sb_ninodes sb) (put32 4 (sb_nblocks sb) (put32 0 (sb_size sb) xs))))))"

lemma get_put_sb: "28 \<le> length xs \<Longrightarrow> get_sb (put_sb sb xs) = sb"
  by (simp add: get_sb_def put_sb_def)

section \<open>Inodes\<close>

text \<open>\<open>type\<close>, \<open>major\<close>, \<open>minor\<close> and \<open>nlink\<close> are C shorts, kept as words and read signed where compared.\<close>

record dinode =
  d_type :: u16
  d_major :: u16
  d_minor :: u16
  d_nlink :: u16
  d_size :: u32
  d_addrs :: "u32 list"

definition DINODE_SIZE :: nat where "DINODE_SIZE = 64"
definition IPB :: nat where "IPB = BSIZE div DINODE_SIZE"

definition IBLOCK :: "u32 \<Rightarrow> superblock \<Rightarrow> u32" where
  "IBLOCK i sb = i div of_nat IPB + sb_inodestart sb"

text \<open>An array of 32-bit words in a block.\<close>

definition get_word :: "u8 list \<Rightarrow> nat \<Rightarrow> u32" where
  "get_word xs j = get32 xs (4 * j)"

definition put_word :: "nat \<Rightarrow> u32 \<Rightarrow> u8 list \<Rightarrow> u8 list" where
  "put_word j w xs = put32 (4 * j) w xs"

primrec put_words :: "nat \<Rightarrow> u32 list \<Rightarrow> u8 list \<Rightarrow> u8 list" where
  "put_words a [] xs = xs"
| "put_words a (w # ws) xs = put_words (a + 4) ws (put32 a w xs)"

definition get_words :: "nat \<Rightarrow> nat \<Rightarrow> u8 list \<Rightarrow> u32 list" where
  "get_words a n xs = map (\<lambda>j. get32 xs (a + 4 * j)) [0..<n]"

definition get_dinode :: "u8 list \<Rightarrow> nat \<Rightarrow> dinode" where
  "get_dinode xs i = (let a = DINODE_SIZE * i in
     \<lparr>d_type = get16 xs a, d_major = get16 xs (a + 2), d_minor = get16 xs (a + 4), d_nlink = get16 xs (a + 6),
      d_size = get32 xs (a + 8), d_addrs = get_words (a + 12) (NDIRECT + 1) xs\<rparr>)"

definition put_dinode :: "nat \<Rightarrow> dinode \<Rightarrow> u8 list \<Rightarrow> u8 list" where
  "put_dinode i d xs = (let a = DINODE_SIZE * i in
     put_words (a + 12) (d_addrs d) (put32 (a + 8) (d_size d) (put16 (a + 6) (d_nlink d)
       (put16 (a + 4) (d_minor d) (put16 (a + 2) (d_major d) (put16 a (d_type d) xs))))))"

lemma length_put_words [simp]: "length (put_words a ws xs) = length xs"
  by (induction ws arbitrary: a xs) simp_all

lemma get_put_words_other:
  "a + 4 * length ws \<le> length xs \<Longrightarrow> b + 4 \<le> a \<or> a + 4 * length ws \<le> b \<Longrightarrow>
    get32 (put_words a ws xs) b = get32 xs b"
  "a + 4 * length ws \<le> length xs \<Longrightarrow> b + 2 \<le> a \<or> a + 4 * length ws \<le> b \<Longrightarrow>
    get16 (put_words a ws xs) b = get16 xs b"
  by (induction ws arbitrary: a xs) auto

lemma get_put_words_same:
  "a + 4 * length ws \<le> length xs \<Longrightarrow> j < length ws \<Longrightarrow> get32 (put_words a ws xs) (a + 4 * j) = ws ! j"
proof (induction ws arbitrary: a xs j)
  case (Cons w ws)
  show ?case
  proof (cases j)
    case 0
    then show ?thesis using Cons.prems by (simp add: get_put_words_other)
  next
    case (Suc i)
    then show ?thesis using Cons.prems Cons.IH [of "a + 4" "put32 a w xs" i] by (simp add: add.assoc)
  qed
qed simp

lemma get_words_put_words: "a + 4 * length ws \<le> length xs \<Longrightarrow> n = length ws \<Longrightarrow> get_words a n (put_words a ws xs) = ws"
  by (auto simp: get_words_def get_put_words_same intro: nth_equalityI)

section \<open>The free map\<close>

definition BPB :: nat where "BPB = BSIZE * 8"

definition BBLOCK :: "u32 \<Rightarrow> superblock \<Rightarrow> u32" where
  "BBLOCK b sb = b div of_nat BPB + sb_bmapstart sb"

definition get_bit :: "u8 list \<Rightarrow> nat \<Rightarrow> bool" where
  "get_bit xs bi \<longleftrightarrow> xs ! (bi div 8) AND push_bit (bi mod 8) 1 \<noteq> 0"

definition put_bit :: "nat \<Rightarrow> bool \<Rightarrow> u8 list \<Rightarrow> u8 list" where
  "put_bit bi v xs = xs[bi div 8 := (if v then xs ! (bi div 8) OR push_bit (bi mod 8) 1
     else xs ! (bi div 8) AND NOT (push_bit (bi mod 8) 1))]"

section \<open>Directory entries\<close>

definition DIRSIZ :: nat where "DIRSIZ = 14"
definition DIRENT_SIZE :: nat where "DIRENT_SIZE = 16"

record dirent =
  de_inum :: u16
  de_name :: "u8 list"

definition get_dirent :: "u8 list \<Rightarrow> dirent" where
  "get_dirent xs = \<lparr>de_inum = get16 xs 0, de_name = take DIRSIZ (drop 2 xs)\<rparr>"

definition dirent_bytes :: "dirent \<Rightarrow> u8 list" where
  "dirent_bytes d = ucast (de_inum d) # ucast (drop_bit 8 (de_inum d)) # de_name d"

lemma get_dirent_bytes: "length (de_name d) = DIRSIZ \<Longrightarrow> get_dirent (dirent_bytes d) = d"
  by (simp add: get_dirent_def dirent_bytes_def get16_def word_cat2)

section \<open>Arrays in a block\<close>

locale block_array =
  fixes get :: "u8 list \<Rightarrow> nat \<Rightarrow> 'r"
    and put :: "nat \<Rightarrow> 'r \<Rightarrow> u8 list \<Rightarrow> u8 list"
    and cap :: nat
    and wf :: "'r \<Rightarrow> bool"
  assumes put_same: "length xs = BSIZE \<Longrightarrow> i < cap \<Longrightarrow> wf r \<Longrightarrow> get (put i r xs) i = r"
    and put_other: "length xs = BSIZE \<Longrightarrow> i < cap \<Longrightarrow> j < cap \<Longrightarrow> i \<noteq> j \<Longrightarrow> wf r \<Longrightarrow> get (put i r xs) j = get xs j"
    and put_length: "length (put i r xs) = length xs"
begin

definition entries :: "u8 list \<Rightarrow> 'r list" where
  "entries xs = map (get xs) [0..<cap]"

lemma entries_put:
  assumes "length xs = BSIZE" and "i < cap" and "wf r"
  shows "entries (put i r xs) = (entries xs)[i := r]"
  using assms by (auto simp: entries_def put_same put_other nth_list_update intro!: nth_equalityI)

lemma length_puts [simp]: "length (fold (\<lambda>(i, r). put i r) us xs) = length xs"
  by (induction us arbitrary: xs) (auto simp: put_length)

lemma entries_puts:
  assumes "length xs = BSIZE" and "\<forall>(i, r)\<in>set us. i < cap \<and> wf r"
  shows "entries (fold (\<lambda>(i, r). put i r) us xs) = fold (\<lambda>(i, r) rs. rs[i := r]) us (entries xs)"
  using assms
proof (induction us arbitrary: xs)
  case (Cons u us)
  then show ?case by (cases u) (simp add: put_length entries_put)
qed simp

end

interpretation words: block_array get_word put_word NINDIRECT "\<lambda>_. True"
proof unfold_locales
  fix xs :: "u8 list" and i j :: nat and w
  assume a: "length xs = BSIZE" "i < NINDIRECT"
  then have i: "4 * i + 4 \<le> length xs" by (simp add: NINDIRECT_def BSIZE_def)
  then show "get_word (put_word i w xs) i = w" by (simp add: get_word_def put_word_def)
  show "get_word (put_word i w xs) j = get_word xs j" if "i \<noteq> j"
  proof -
    have "4 * j + 4 \<le> 4 * i \<or> 4 * i + 4 \<le> 4 * j" using that by arith
    with i show ?thesis by (simp add: get_word_def put_word_def)
  qed
qed (simp add: put_word_def)

interpretation dinodes: block_array get_dinode put_dinode IPB "\<lambda>d. length (d_addrs d) = NDIRECT + 1"
proof unfold_locales
  fix xs :: "u8 list" and i j and d :: dinode
  assume xs: "length xs = BSIZE" "i < IPB" and d: "length (d_addrs d) = NDIRECT + 1"
  define z where "z = put32 (DINODE_SIZE * i + 8) (d_size d) (put16 (DINODE_SIZE * i + 6) (d_nlink d)
    (put16 (DINODE_SIZE * i + 4) (d_minor d) (put16 (DINODE_SIZE * i + 2) (d_major d)
      (put16 (DINODE_SIZE * i) (d_type d) xs))))"
  have b: "DINODE_SIZE * i + 64 \<le> length xs" using xs by (simp add: IPB_def DINODE_SIZE_def BSIZE_def)
  have z: "length z = length xs" by (simp add: z_def)
  have p: "put_dinode i d xs = put_words (DINODE_SIZE * i + 12) (d_addrs d) z"
    by (simp add: put_dinode_def Let_def z_def)
  have "DINODE_SIZE * i + 12 + 4 * length (d_addrs d) \<le> length z"
    using b d z by (simp add: NDIRECT_def)
  note w = get_put_words_other [OF this] get_words_put_words [OF this d [symmetric]]
  have f: "d_addrs (get_dinode (put_dinode i d xs) i) = d_addrs d"
    unfolding p get_dinode_def Let_def by (simp only: dinode.select_convs w)
  have zf: "get16 z (DINODE_SIZE * i) = d_type d" "get16 z (DINODE_SIZE * i + 2) = d_major d"
    "get16 z (DINODE_SIZE * i + 4) = d_minor d" "get16 z (DINODE_SIZE * i + 6) = d_nlink d"
    "get32 z (DINODE_SIZE * i + 8) = d_size d"
    using b by (simp_all add: z_def)
  have "dinode.more d = ()" by simp
  with f zf show "get_dinode (put_dinode i d xs) i = d"
    unfolding p get_dinode_def Let_def by (simp only: dinode.select_convs w) (simp add: w zf del: add_2_eq_Suc')
  show "get_dinode (put_dinode i d xs) j = get_dinode xs j" if "j < IPB" "i \<noteq> j"
  proof -
    have far: "DINODE_SIZE * j + 64 \<le> DINODE_SIZE * i \<or> DINODE_SIZE * i + 64 \<le> DINODE_SIZE * j"
      using that(2) by (simp add: DINODE_SIZE_def) arith
    have zo: "get16 z k = get16 xs k" if "k + 2 \<le> DINODE_SIZE * i \<or> DINODE_SIZE * i + 12 \<le> k" for k
      using that b by (auto simp: z_def)
    have zo': "get32 z k = get32 xs k" if "k + 4 \<le> DINODE_SIZE * i \<or> DINODE_SIZE * i + 12 \<le> k" for k
      using that b by (auto simp: z_def)
    have "get32 (put_words (DINODE_SIZE * i + 12) (d_addrs d) z) (DINODE_SIZE * j + 8) = get32 z (DINODE_SIZE * j + 8)"
      by (rule w(1)) (use far d in \<open>unfold NDIRECT_def, linarith\<close>)
    also have "\<dots> = get32 xs (DINODE_SIZE * j + 8)" by (rule zo') (use far in linarith)
    finally have z8: "get32 (put_words (DINODE_SIZE * i + 12) (d_addrs d) z) (DINODE_SIZE * j + 8)
      = get32 xs (DINODE_SIZE * j + 8)" .
    from far show ?thesis using d unfolding p
      by (auto simp: get_dinode_def get_words_def Let_def w NDIRECT_def zo zo' z8)
  qed
next
  fix i :: nat and d :: dinode and xs
  show "length (put_dinode i d xs) = length xs" by (simp add: put_dinode_def Let_def)
qed

interpretation bitmap: block_array get_bit put_bit BPB "\<lambda>_. True"
proof unfold_locales
  fix xs :: "u8 list" and i j :: nat and v
  assume a: "length xs = BSIZE" "i < BPB"
  then have i: "i div 8 < length xs" by (simp add: BPB_def BSIZE_def)
  show "get_bit (put_bit i v xs) i = v"
    using i by (auto simp: get_bit_def put_bit_def and_exp_eq_0_iff_not_bit bit_simps)
  show "get_bit (put_bit i v xs) j = get_bit xs j" if "j < BPB" "i \<noteq> j"
  proof (cases "i div 8 = j div 8")
    case True
    then have "i mod 8 \<noteq> j mod 8" using that(2) div_mult_mod_eq by metis
    then show ?thesis using i True by (auto simp: get_bit_def put_bit_def and_exp_eq_0_iff_not_bit bit_simps)
  next
    case False
    then show ?thesis by (simp add: get_bit_def put_bit_def)
  qed
qed (simp add: put_bit_def)

end
