(* ===== verification/Inode.thy ===== *)
theory Inode
  imports Log
begin

text \<open>
  The block allocator and the inode layer of \<^verbatim>\<open>fs.c\<close>: \<^verbatim>\<open>bzero\<close>, \<^verbatim>\<open>balloc\<close>, \<^verbatim>\<open>bfree\<close>, \<^verbatim>\<open>iinit\<close>, \<^verbatim>\<open>ialloc\<close>,
  \<^verbatim>\<open>iupdate\<close>, \<^verbatim>\<open>iget\<close>, \<^verbatim>\<open>idup\<close>, \<^verbatim>\<open>ilock\<close>, \<^verbatim>\<open>iunlock\<close>, \<^verbatim>\<open>iput\<close>, \<^verbatim>\<open>iunlockput\<close>, \<^verbatim>\<open>bmap\<close>, \<^verbatim>\<open>itrunc\<close> and
  \<^verbatim>\<open>stati\<close>. A pointer to an in-memory inode is its index in the inode cache. The loops whose bound
  is a field of the super block count up to a 32-bit bound, which makes them terminate.
\<close>

section \<open>Data\<close>

definition NINODE :: nat where "NINODE = 50"
definition T_DIR :: u16 where "T_DIR = 1"
definition T_FILE :: u16 where "T_FILE = 2"
definition T_DEV :: u16 where "T_DEV = 3"

record inode =
  i_dev :: u32
  i_inum :: u32
  i_ref :: int
  i_valid :: bool
  i_type :: u16
  i_major :: u16
  i_minor :: u16
  i_nlink :: u16
  i_size :: u32
  i_addrs :: "u32 list"

record stat =
  st_type :: u16
  st_dev :: u32
  st_ino :: u32
  st_nlink :: u16
  st_size :: u32

record fsst = logst +
  sb :: superblock
  inodes :: "inode list"

definition upd_inode :: "nat \<Rightarrow> (inode \<Rightarrow> inode) \<Rightarrow> 'a fsst_scheme \<Rightarrow> 'a fsst_scheme" where
  "upd_inode ip f s = s\<lparr>inodes := (inodes s)[ip := f (inodes s ! ip)]\<rparr>"

section \<open>Blocks\<close>

text \<open>\<^verbatim>\<open>log_write(bp); brelse(bp)\<close> after \<^verbatim>\<open>bp->data\<close> was set to \<open>d\<close>.\<close>

definition write_back :: "nat \<Rightarrow> block \<Rightarrow> 'a logst_scheme \<Rightarrow> ('a logst_scheme, unit) res" where
  "write_back b d s = rbind (log_write b (set_data b d s)) (\<lambda>_ s. brelse b s)"

definition bzero :: "u32 \<Rightarrow> u32 \<Rightarrow> 'a logst_scheme \<Rightarrow> ('a logst_scheme, unit) res" where
  "bzero dev bno s =
     rbind (bread dev bno s) (\<lambda>b s. write_back b (replicate BSIZE 0) s)"

definition balloc_scan :: "nat \<Rightarrow> nat \<Rightarrow> block \<Rightarrow> nat option" where
  "balloc_scan b sz d = find (\<lambda>bi. \<not> get_bit d bi) [0..<min BPB (sz - b)]"

function balloc_from :: "u32 \<Rightarrow> nat \<Rightarrow> 'a fsst_scheme \<Rightarrow> ('a fsst_scheme, u32) res" where
  "balloc_from dev b s =
     (if b < unat (sb_size (sb s)) then
        rbind (bread dev (BBLOCK (of_nat b) (sb s)) s) (\<lambda>bp s.
          let d = b_data (bufs s ! bp) in
          case balloc_scan b (unat (sb_size (sb s))) d of
            Some bi \<Rightarrow>
              rbind (write_back bp (put_bit bi True d) s) (\<lambda>_ s.
              rbind (bzero dev (of_nat (b + bi)) s) (\<lambda>_ s. Ok (of_nat (b + bi)) s))
          | None \<Rightarrow> rbind (brelse bp s) (\<lambda>_ s. balloc_from dev (b + BPB) s))
      else Panic ''balloc: out of blocks'')"
  by pat_completeness auto
termination
proof (relation "measure (\<lambda>(dev, b, s). 2 ^ 32 - b)")
  fix dev :: u32 and b and s :: "'a fsst_scheme"
  assume "b < unat (sb_size (sb s))"
  then have "b < 2 ^ 32" using unsigned_less [of "sb_size (sb s)", where 'a = nat] by simp
  then show "((dev, b + BPB, t), dev, b, s) \<in> measure (\<lambda>(dev, b, s). 2 ^ 32 - b)" for t :: "'a fsst_scheme"
    by (simp add: BPB_def BSIZE_def)
qed simp

definition balloc :: "u32 \<Rightarrow> 'a fsst_scheme \<Rightarrow> ('a fsst_scheme, u32) res" where
  "balloc dev s = balloc_from dev 0 s"

definition bfree :: "u32 \<Rightarrow> u32 \<Rightarrow> 'a fsst_scheme \<Rightarrow> ('a fsst_scheme, unit) res" where
  "bfree dev b s =
     rbind (bread dev (BBLOCK b (sb s)) s) (\<lambda>bp s.
       let d = b_data (bufs s ! bp); bi = unat b mod BPB in
       if \<not> get_bit d bi then Panic ''freeing free block''
       else write_back bp (put_bit bi False d) s)"

section \<open>The inode cache\<close>

definition iinit :: "u32 \<Rightarrow> 'a fsst_scheme \<Rightarrow> ('a fsst_scheme, unit) res" where
  "iinit dev s =
     (let s = fold (\<lambda>i. initsleeplock (SL_inode i)) [0..<NINODE] s in
      rbind (readsb dev s) (\<lambda>x s. Ok () (s\<lparr>sb := x\<rparr>)))"

definition iget :: "u32 \<Rightarrow> u32 \<Rightarrow> 'a fsst_scheme \<Rightarrow> ('a fsst_scheme, nat) res" where
  "iget dev inum s =
     rbind (acquire L_icache s) (\<lambda>_ s.
       case first_index (\<lambda>x. i_ref x > 0 \<and> i_dev x = dev \<and> i_inum x = inum) (inodes s) of
         Some ip \<Rightarrow>
           rbind (release L_icache (upd_inode ip (\<lambda>x. x\<lparr>i_ref := i_ref x + 1\<rparr>) s)) (\<lambda>_ s. Ok ip s)
       | None \<Rightarrow>
           (case first_index (\<lambda>x. i_ref x = 0) (inodes s) of
              None \<Rightarrow> Panic ''iget: no inodes''
            | Some ip \<Rightarrow>
                rbind (release L_icache (upd_inode ip (\<lambda>x. x\<lparr>i_dev := dev, i_inum := inum,
                   i_ref := 1, i_valid := False\<rparr>) s)) (\<lambda>_ s. Ok ip s)))"

definition idup :: "nat \<Rightarrow> 'a fsst_scheme \<Rightarrow> ('a fsst_scheme, nat) res" where
  "idup ip s =
     rbind (acquire L_icache s) (\<lambda>_ s.
     rbind (release L_icache (upd_inode ip (\<lambda>x. x\<lparr>i_ref := i_ref x + 1\<rparr>) s)) (\<lambda>_ s. Ok ip s))"

text \<open>The slot of an inode in its block, and the inode as it is stored.\<close>

definition dslot :: "u32 \<Rightarrow> nat" where
  "dslot inum = unat inum mod IPB"

definition dinode_of :: "inode \<Rightarrow> dinode" where
  "dinode_of x = \<lparr>d_type = i_type x, d_major = i_major x, d_minor = i_minor x, d_nlink = i_nlink x,
     d_size = i_size x, d_addrs = i_addrs x\<rparr>"

definition load_dinode :: "dinode \<Rightarrow> inode \<Rightarrow> inode" where
  "load_dinode d x = x\<lparr>i_type := d_type d, i_major := d_major d, i_minor := d_minor d, i_nlink := d_nlink d,
     i_size := d_size d, i_addrs := d_addrs d\<rparr>"

definition dinode_zero :: dinode where
  "dinode_zero = \<lparr>d_type = 0, d_major = 0, d_minor = 0, d_nlink = 0, d_size = 0,
     d_addrs = replicate (NDIRECT + 1) 0\<rparr>"

function ialloc_from :: "u32 \<Rightarrow> u16 \<Rightarrow> nat \<Rightarrow> 'a fsst_scheme \<Rightarrow> ('a fsst_scheme, nat) res" where
  "ialloc_from dev type inum s =
     (if inum < unat (sb_ninodes (sb s)) then
        rbind (bread dev (IBLOCK (of_nat inum) (sb s)) s) (\<lambda>bp s.
          let d = b_data (bufs s ! bp) in
          if d_type (get_dinode d (inum mod IPB)) = 0 then
            rbind (write_back bp (put_dinode (inum mod IPB) (dinode_zero\<lparr>d_type := type\<rparr>) d) s) (\<lambda>_ s.
              iget dev (of_nat inum) s)
          else rbind (brelse bp s) (\<lambda>_ s. ialloc_from dev type (inum + 1) s))
      else Panic ''ialloc: no inodes'')"
  by pat_completeness auto
termination
proof (relation "measure (\<lambda>(dev, type, inum, s). 2 ^ 32 - inum)")
  fix dev :: u32 and type :: u16 and inum and s :: "'a fsst_scheme"
  assume "inum < unat (sb_ninodes (sb s))"
  then have "inum < 2 ^ 32" using unsigned_less [of "sb_ninodes (sb s)", where 'a = nat] by simp
  then show "((dev, type, inum + 1, t), dev, type, inum, s) \<in> measure (\<lambda>(dev, type, inum, s). 2 ^ 32 - inum)"
    for t :: "'a fsst_scheme" by simp
qed simp

definition ialloc :: "u32 \<Rightarrow> u16 \<Rightarrow> 'a fsst_scheme \<Rightarrow> ('a fsst_scheme, nat) res" where
  "ialloc dev type s = ialloc_from dev type 1 s"

definition iupdate :: "nat \<Rightarrow> 'a fsst_scheme \<Rightarrow> ('a fsst_scheme, unit) res" where
  "iupdate ip s =
     (let x = inodes s ! ip in
      rbind (bread (i_dev x) (IBLOCK (i_inum x) (sb s)) s) (\<lambda>bp s.
        let x = inodes s ! ip in
        write_back bp (put_dinode (dslot (i_inum x)) (dinode_of x) (b_data (bufs s ! bp))) s))"

definition ilock :: "nat option \<Rightarrow> 'a fsst_scheme \<Rightarrow> ('a fsst_scheme, unit) res" where
  "ilock p s =
     (case p of None \<Rightarrow> Panic ''ilock''
      | Some ip \<Rightarrow>
          if i_ref (inodes s ! ip) < 1 then Panic ''ilock''
          else rbind (acquiresleep (SL_inode ip) s) (\<lambda>_ s.
            let x = inodes s ! ip in
            if \<not> i_valid x then
              rbind (bread (i_dev x) (IBLOCK (i_inum x) (sb s)) s) (\<lambda>bp s.
                let d = get_dinode (b_data (bufs s ! bp)) (dslot (i_inum (inodes s ! ip)));
                    s = upd_inode ip (load_dinode d) s in
                rbind (brelse bp s) (\<lambda>_ s.
                  let s = upd_inode ip (\<lambda>x. x\<lparr>i_valid := True\<rparr>) s in
                  if i_type (inodes s ! ip) = 0 then Panic ''ilock: no type'' else Ok () s))
            else Ok () s))"

definition iunlock :: "nat option \<Rightarrow> 'a fsst_scheme \<Rightarrow> ('a fsst_scheme, unit) res" where
  "iunlock p s =
     (case p of None \<Rightarrow> Panic ''iunlock''
      | Some ip \<Rightarrow>
          rbind (holdingsleep (SL_inode ip) s) (\<lambda>h s.
            if \<not> h \<or> i_ref (inodes s ! ip) < 1 then Panic ''iunlock''
            else releasesleep (SL_inode ip) s))"

section \<open>Block lists\<close>

text \<open>\<^verbatim>\<open>if((addr = ip->addrs[j]) == 0) ip->addrs[j] = addr = balloc(ip->dev);\<close>\<close>

definition addr_or_alloc :: "nat \<Rightarrow> nat \<Rightarrow> 'a fsst_scheme \<Rightarrow> ('a fsst_scheme, u32) res" where
  "addr_or_alloc ip j s =
     (let addr = i_addrs (inodes s ! ip) ! j in
      if addr = 0 then
        rbind (balloc (i_dev (inodes s ! ip)) s) (\<lambda>addr s.
          Ok addr (upd_inode ip (\<lambda>x. x\<lparr>i_addrs := (i_addrs x)[j := addr]\<rparr>) s))
      else Ok addr s)"

definition bmap :: "nat \<Rightarrow> u32 \<Rightarrow> 'a fsst_scheme \<Rightarrow> ('a fsst_scheme, u32) res" where
  "bmap ip bn s =
     (if unat bn < NDIRECT then addr_or_alloc ip (unat bn) s
      else let bn = unat bn - NDIRECT in
        if bn < NINDIRECT then
          rbind (addr_or_alloc ip NDIRECT s) (\<lambda>addr s.
          rbind (bread (i_dev (inodes s ! ip)) addr s) (\<lambda>bp s.
            let addr = get_word (b_data (bufs s ! bp)) bn in
            if addr = 0 then
              rbind (balloc (i_dev (inodes s ! ip)) s) (\<lambda>addr s.
              rbind (write_back bp (put_word bn addr (b_data (bufs s ! bp))) s) (\<lambda>_ s. Ok addr s))
            else rbind (brelse bp s) (\<lambda>_ s. Ok addr s)))
        else Panic ''bmap: out of range'')"

primrec itrunc_direct :: "nat list \<Rightarrow> nat \<Rightarrow> 'a fsst_scheme \<Rightarrow> ('a fsst_scheme, unit) res" where
  "itrunc_direct [] ip s = Ok () s"
| "itrunc_direct (i # ix) ip s =
     rbind (if i_addrs (inodes s ! ip) ! i \<noteq> 0 then
              rbind (bfree (i_dev (inodes s ! ip)) (i_addrs (inodes s ! ip) ! i) s) (\<lambda>_ s.
                Ok () (upd_inode ip (\<lambda>x. x\<lparr>i_addrs := (i_addrs x)[i := 0]\<rparr>) s))
            else Ok () s) (\<lambda>_ s.
       itrunc_direct ix ip s)"

primrec itrunc_indirect :: "nat list \<Rightarrow> nat \<Rightarrow> nat \<Rightarrow> 'a fsst_scheme \<Rightarrow> ('a fsst_scheme, unit) res" where
  "itrunc_indirect [] ip bp s = Ok () s"
| "itrunc_indirect (j # js) ip bp s =
     rbind (let a = get_word (b_data (bufs s ! bp)) j in
            if a \<noteq> 0 then bfree (i_dev (inodes s ! ip)) a s else Ok () s) (\<lambda>_ s.
       itrunc_indirect js ip bp s)"

definition itrunc :: "nat \<Rightarrow> 'a fsst_scheme \<Rightarrow> ('a fsst_scheme, unit) res" where
  "itrunc ip s =
     rbind (itrunc_direct [0..<NDIRECT] ip s) (\<lambda>_ s.
     rbind (if i_addrs (inodes s ! ip) ! NDIRECT \<noteq> 0 then
              rbind (bread (i_dev (inodes s ! ip)) (i_addrs (inodes s ! ip) ! NDIRECT) s) (\<lambda>bp s.
              rbind (itrunc_indirect [0..<NINDIRECT] ip bp s) (\<lambda>_ s.
              rbind (brelse bp s) (\<lambda>_ s.
              rbind (bfree (i_dev (inodes s ! ip)) (i_addrs (inodes s ! ip) ! NDIRECT) s) (\<lambda>_ s.
                Ok () (upd_inode ip (\<lambda>x. x\<lparr>i_addrs := (i_addrs x)[NDIRECT := 0]\<rparr>) s)))))
            else Ok () s) (\<lambda>_ s.
       iupdate ip (upd_inode ip (\<lambda>x. x\<lparr>i_size := 0\<rparr>) s)))"

definition iput :: "nat \<Rightarrow> 'a fsst_scheme \<Rightarrow> ('a fsst_scheme, unit) res" where
  "iput ip s =
     rbind (acquiresleep (SL_inode ip) s) (\<lambda>_ s.
     rbind (if i_valid (inodes s ! ip) \<and> i_nlink (inodes s ! ip) = 0 then
              rbind (acquire L_icache s) (\<lambda>_ s.
                let r = i_ref (inodes s ! ip) in
                rbind (release L_icache s) (\<lambda>_ s.
                  if r = 1 then
                    rbind (itrunc ip s) (\<lambda>_ s.
                    rbind (iupdate ip (upd_inode ip (\<lambda>x. x\<lparr>i_type := 0\<rparr>) s)) (\<lambda>_ s.
                      Ok () (upd_inode ip (\<lambda>x. x\<lparr>i_valid := False\<rparr>) s)))
                  else Ok () s))
            else Ok () s) (\<lambda>_ s.
     rbind (releasesleep (SL_inode ip) s) (\<lambda>_ s.
     rbind (acquire L_icache s) (\<lambda>_ s.
       release L_icache (upd_inode ip (\<lambda>x. x\<lparr>i_ref := i_ref x - 1\<rparr>) s)))))"

definition iunlockput :: "nat option \<Rightarrow> 'a fsst_scheme \<Rightarrow> ('a fsst_scheme, unit) res" where
  "iunlockput p s =
     rbind (iunlock p s) (\<lambda>_ s. case p of None \<Rightarrow> Panic ''nullptr'' | Some ip \<Rightarrow> iput ip s)"

definition stati :: "nat \<Rightarrow> 'a fsst_scheme \<Rightarrow> stat" where
  "stati ip s = (let x = inodes s ! ip in
     \<lparr>st_type = i_type x, st_dev = i_dev x, st_ino = i_inum x, st_nlink = i_nlink x, st_size = i_size x\<rparr>)"

end
