(* ===== verification/Console.thy ===== *)
theory Console
  imports Inode
begin

text \<open>
  The console: \<^verbatim>\<open>console.c\<close>, the keyboard decoder \<^verbatim>\<open>kbd.c\<close> and the serial port \<^verbatim>\<open>uart.c\<close>. The screen
  is the CGA memory and the cursor register, the serial line is the sequence of bytes sent,
  and what the device ports deliver is an argument. A call of \<^verbatim>\<open>panic\<close> is the outcome \<^const>\<open>Panic\<close>, so
  \<^verbatim>\<open>panicked\<close>, which \<^verbatim>\<open>panic\<close> sets before it halts, is never seen set by code that still runs
  on this CPU.
\<close>

section \<open>State\<close>

definition INPUT_BUF :: nat where "INPUT_BUF = 128"
definition BACKSPACE :: int where "BACKSPACE = 0x100"
definition CONSOLE :: nat where "CONSOLE = 1"
definition NDEV :: nat where "NDEV = 10"

text \<open>The functions that \<^verbatim>\<open>devsw\<close> can point to.\<close>

datatype devread = D_consoleread
datatype devwrite = D_consolewrite

record devsw =
  dv_read :: "devread option"
  dv_write :: "devwrite option"

record input_t =
  in_buf :: "u8 list"
  in_r :: u32
  in_w :: u32
  in_e :: u32

record consst = fsst +
  cons_locking :: bool
  panicked :: bool
  crt :: "nat \<Rightarrow> u16"
  crt_pos :: u16
  uart :: bool
  serial :: "u8 list"
  input :: input_t
  devtab :: "devsw list"
  kbd_shift :: u32

section \<open>Output\<close>

text \<open>\<^verbatim>\<open>uartputc\<close> gives up waiting for the transmitter after 128 polls and sends the byte anyway.\<close>

definition uartputc :: "int \<Rightarrow> 'a consst_scheme \<Rightarrow> 'a consst_scheme" where
  "uartputc c s = (if \<not> uart s then s else s\<lparr>serial := serial s @ [word_of_int c]\<rparr>)"

definition cgaputc :: "int \<Rightarrow> 'a consst_scheme \<Rightarrow> ('a consst_scheme, unit) res" where
  "cgaputc c s =
     (let pos = uint (crt_pos s);
          (pos, m) =
            (if c = 10 then (pos + (80 - pos mod 80), crt s)
             else if c = BACKSPACE then (if pos > 0 then pos - 1 else pos, crt s)
             else (pos + 1, (crt s)(nat pos := word_of_int (c mod 256) OR 0x0700)))
      in if pos < 0 \<or> pos > 25 * 80 then Panic ''pos under/overflow''
      else let (pos, m) =
            (if pos div 80 \<ge> 24 then
               (pos - 80, (\<lambda>a. if nat (pos - 80) \<le> a \<and> a < 24 * 80 then 0
                               else if a < 23 * 80 then m (a + 80) else m a))
             else (pos, m))
      in Ok () (s\<lparr>crt_pos := word_of_int pos, crt := m(nat pos := 0x20 OR 0x0700)\<rparr>))"

definition consputc :: "int \<Rightarrow> 'a consst_scheme \<Rightarrow> ('a consst_scheme, unit) res" where
  "consputc c s =
     (if panicked s then Panic ''halted''
      else let s = (if c = BACKSPACE then uartputc 8 (uartputc 0x20 (uartputc 8 s)) else uartputc c s)
      in cgaputc c s)"

primrec consputs :: "u8 list \<Rightarrow> 'a consst_scheme \<Rightarrow> ('a consst_scheme, unit) res" where
  "consputs [] s = Ok () s"
| "consputs (c # cs) s = rbind (consputc (uint c) s) (\<lambda>_ s. consputs cs s)"

definition asc :: "string \<Rightarrow> u8 list" where
  "asc cs = map of_char cs"

text \<open>
  \<^verbatim>\<open>printint\<close>: \<open>printint_buf\<close> is the contents of \<^verbatim>\<open>buf\<close> when the loop ends, least significant digit
  first.
\<close>

definition digits :: "u8 list" where
  "digits = asc ''0123456789abcdef''"

function printint_buf :: "nat \<Rightarrow> nat \<Rightarrow> u8 list" where
  "printint_buf x base =
     digits ! (x mod base) # (if base \<le> 1 \<or> x div base = 0 then [] else printint_buf (x div base) base)"
  by pat_completeness auto
termination
proof (relation "measure fst")
  fix x base :: nat
  assume "\<not> (base \<le> 1 \<or> x div base = 0)"
  then have "1 < base" "0 < x" by (auto intro: Nat.gr0I)
  then show "((x div base, base), x, base) \<in> measure fst" by simp
qed simp

definition printint :: "u32 \<Rightarrow> nat \<Rightarrow> bool \<Rightarrow> u8 list" where
  "printint xx base sign =
     (let neg = sign \<and> sint xx < 0;
          x = (if neg then - xx else xx)
      in rev (printint_buf (unat x) base @ (if neg then asc ''-'' else [])))"

text \<open>The arguments of \<^verbatim>\<open>cprintf\<close>: words, and strings (the bytes before the NUL) or the null pointer.\<close>

datatype fmtarg = FInt u32 | FStr "u8 list option"

fun cprintf_bytes :: "u8 list \<Rightarrow> fmtarg list \<Rightarrow> u8 list option" where
  "cprintf_bytes [] args = Some []"
| "cprintf_bytes (c # fmt) args =
     (if c \<noteq> 0x25 then map_option (Cons c) (cprintf_bytes fmt args)
      else case fmt of
          [] \<Rightarrow> Some []
        | c # fmt \<Rightarrow>
           if c = of_char CHR ''d'' then
             (case args of FInt x # args \<Rightarrow> map_option (append (printint x 10 True)) (cprintf_bytes fmt args) | _ \<Rightarrow> None)
           else if c = of_char CHR ''x'' \<or> c = of_char CHR ''p'' then
             (case args of FInt x # args \<Rightarrow> map_option (append (printint x 16 False)) (cprintf_bytes fmt args) | _ \<Rightarrow> None)
           else if c = of_char CHR ''s'' then
             (case args of
                FStr x # args \<Rightarrow> map_option (append (case x of None \<Rightarrow> asc ''(null)'' | Some t \<Rightarrow> t)) (cprintf_bytes fmt args)
              | _ \<Rightarrow> None)
           else if c = 0x25 then map_option (Cons 0x25) (cprintf_bytes fmt args)
           else map_option (\<lambda>t. 0x25 # c # t) (cprintf_bytes fmt args))"

definition cprintf :: "string \<Rightarrow> fmtarg list \<Rightarrow> 'a consst_scheme \<Rightarrow> ('a consst_scheme, unit) res" where
  "cprintf fmt args s =
     (let locking = cons_locking s in
      rbind (lock_if locking L_cons s) (\<lambda>_ s.
      rbind (case cprintf_bytes (asc fmt) args of None \<Rightarrow> Panic ''bounds'' | Some cs \<Rightarrow> consputs cs s) (\<lambda>_ s.
        unlock_if locking L_cons s)))"

section \<open>Input\<close>

text \<open>\<^verbatim>\<open>C(x)\<close>\<close>

definition ctrl :: "char \<Rightarrow> int" where
  "ctrl x = of_char x - of_char CHR ''@''"

definition upd_input :: "(input_t \<Rightarrow> input_t) \<Rightarrow> 'a consst_scheme \<Rightarrow> 'a consst_scheme" where
  "upd_input f s = s\<lparr>input := f (input s)\<rparr>"

definition in_slot :: "u32 \<Rightarrow> nat" where
  "in_slot k = unat k mod INPUT_BUF"

text \<open>The loop of Control-U; the edited part of the line is shorter than \<open>INPUT_BUF\<close>.\<close>

primrec kill_line :: "nat \<Rightarrow> 'a consst_scheme \<Rightarrow> ('a consst_scheme, unit) res" where
  "kill_line 0 s = Ok () s"
| "kill_line (Suc k) s =
     (if in_e (input s) \<noteq> in_w (input s) \<and> in_buf (input s) ! in_slot (in_e (input s) - 1) \<noteq> 10
      then rbind (consputc BACKSPACE (upd_input (\<lambda>q. q\<lparr>in_e := in_e q - 1\<rparr>) s)) (\<lambda>_ s. kill_line k s)
      else Ok () s)"

text \<open>One iteration of \<^verbatim>\<open>consoleintr\<close>; the result says whether \<^verbatim>\<open>procdump\<close> was asked for.\<close>

definition consoleintr_char :: "int \<Rightarrow> 'a consst_scheme \<Rightarrow> ('a consst_scheme, bool) res" where
  "consoleintr_char c s =
     (if c = ctrl CHR ''P'' then Ok True s
      else if c = ctrl CHR ''U'' then rbind (kill_line (INPUT_BUF + 1) s) (\<lambda>_ s. Ok False s)
      else if c = ctrl CHR ''H'' \<or> c = 0x7f then
        (if in_e (input s) \<noteq> in_w (input s)
         then rbind (consputc BACKSPACE (upd_input (\<lambda>q. q\<lparr>in_e := in_e q - 1\<rparr>) s)) (\<lambda>_ s. Ok False s)
         else Ok False s)
      else if c \<noteq> 0 \<and> in_e (input s) - in_r (input s) < of_nat INPUT_BUF then
        (let c = (if c = 13 then 10 else c);
             s = upd_input (\<lambda>q. q\<lparr>in_buf := (in_buf q)[in_slot (in_e q) := word_of_int c], in_e := in_e q + 1\<rparr>) s in
         rbind (consputc c s) (\<lambda>_ s.
           if c = 10 \<or> c = ctrl CHR ''D'' \<or> in_e (input s) = in_r (input s) + of_nat INPUT_BUF
           then rbind (wakeup (Some Ch_input) (upd_input (\<lambda>q. q\<lparr>in_w := in_e q\<rparr>) s)) (\<lambda>_ s. Ok False s)
           else Ok False s))
      else Ok False s)"

primrec consoleintr_loop :: "int list \<Rightarrow> bool \<Rightarrow> 'a consst_scheme \<Rightarrow> ('a consst_scheme, bool) res" where
  "consoleintr_loop [] dump s = Ok dump s"
| "consoleintr_loop (c # cs) dump s =
     (if c \<ge> 0 then rbind (consoleintr_char c s) (\<lambda>d s. consoleintr_loop cs (dump \<or> d) s) else Ok dump s)"

text \<open>\<^verbatim>\<open>procdump\<close>; \<open>pcs i\<close> is the call stack of the sleeping process \<open>i\<close>, ended by 0.\<close>

definition state_name :: "procstate \<Rightarrow> string" where
  "state_name st = (case st of UNUSED \<Rightarrow> ''unused'' | EMBRYO \<Rightarrow> ''embryo'' | SLEEPING \<Rightarrow> ''sleep ''
     | RUNNABLE \<Rightarrow> ''runble'' | RUNNING \<Rightarrow> ''run   '' | ZOMBIE \<Rightarrow> ''zombie'')"

primrec dump_pcs :: "u32 list \<Rightarrow> 'a consst_scheme \<Rightarrow> ('a consst_scheme, unit) res" where
  "dump_pcs [] s = Ok () s"
| "dump_pcs (a # pcs) s = (if a \<noteq> 0 then rbind (cprintf '' %p'' [FInt a] s) (\<lambda>_ s. dump_pcs pcs s) else Ok () s)"

primrec procdump_loop ::
  "nat list \<Rightarrow> (nat \<Rightarrow> u32 list) \<Rightarrow> 'a consst_scheme \<Rightarrow> ('a consst_scheme, unit) res" where
  "procdump_loop [] pcs s = Ok () s"
| "procdump_loop (i # ix) pcs s =
     (let p = procs s ! i in
      rbind (if p_state p = UNUSED then Ok () s
             else rbind (cprintf ''%d %s %s'' [FInt (word_of_int (p_pid p)), FStr (Some (asc (state_name (p_state p)))),
                            FStr (Some (cstr 16 (p_name p)))] s) (\<lambda>_ s.
                  rbind (if p_state p = SLEEPING then dump_pcs (take 10 (pcs i)) s else Ok () s) (\<lambda>_ s.
                    cprintf [CHR 0x0A] [] s))) (\<lambda>_ s.
        procdump_loop ix pcs s))"

definition procdump :: "(nat \<Rightarrow> u32 list) \<Rightarrow> 'a consst_scheme \<Rightarrow> ('a consst_scheme, unit) res" where
  "procdump pcs s = procdump_loop [0..<length (procs s)] pcs s"

text \<open>\<open>cs\<close> is what \<^verbatim>\<open>getc\<close> returns until it returns a negative value.\<close>

definition consoleintr ::
  "int list \<Rightarrow> (nat \<Rightarrow> u32 list) \<Rightarrow> 'a consst_scheme \<Rightarrow> ('a consst_scheme, unit) res" where
  "consoleintr cs pcs s =
     rbind (acquire L_cons s) (\<lambda>_ s.
     rbind (consoleintr_loop cs False s) (\<lambda>dump s.
     rbind (release L_cons s) (\<lambda>_ s.
       if dump then procdump pcs s else Ok () s)))"

section \<open>The console device\<close>

definition consoleread_wait :: "nat \<Rightarrow> 'a consst_scheme \<Rightarrow> ('a consst_scheme, bool) res" where
  "consoleread_wait ip =
     sleep_loop (\<lambda>s.
       if in_r (input s) = in_w (input s) then
         rbind (myproc_killed s) (\<lambda>k s.
           if k then rbind (release L_cons s) (\<lambda>_ s. rbind (ilock (Some ip) s) (\<lambda>_ s. Ok (Inl True) s))
           else rbind (sleep Ch_input (Some L_cons) s) (\<lambda>_ s. Ok (Inr ()) s))
       else Ok (Inl False) s)"

text \<open>
  The outer loop: it returns \<^const>\<open>None\<close> when the process was killed, and otherwise the bytes
  stored through \<^verbatim>\<open>dst\<close>. \<open>first\<close> says that \<^verbatim>\<open>n == target\<close>.
\<close>

primrec consoleread_loop :: "nat \<Rightarrow> bool \<Rightarrow> nat \<Rightarrow> 'a consst_scheme \<Rightarrow> ('a consst_scheme, u8 list option) res" where
  "consoleread_loop 0 first ip s = Ok (Some []) s"
| "consoleread_loop (Suc n) first ip s =
     rbind (consoleread_wait ip s) (\<lambda>killed s.
       if killed then Ok None s
       else let c = in_buf (input s) ! in_slot (in_r (input s));
                s = upd_input (\<lambda>q. q\<lparr>in_r := in_r q + 1\<rparr>) s in
         if sint c = ctrl CHR ''D'' then
           Ok (Some []) (if \<not> first then upd_input (\<lambda>q. q\<lparr>in_r := in_r q - 1\<rparr>) s else s)
         else if c = 10 then Ok (Some [c]) s
         else rbind (consoleread_loop n False ip s) (\<lambda>r s. Ok (map_option (Cons c) r) s))"

definition consoleread :: "nat \<Rightarrow> int \<Rightarrow> 'a consst_scheme \<Rightarrow> ('a consst_scheme, int \<times> u8 list) res" where
  "consoleread ip n s =
     rbind (iunlock (Some ip) s) (\<lambda>_ s.
     rbind (acquire L_cons s) (\<lambda>_ s.
     rbind (consoleread_loop (nat n) True ip s) (\<lambda>r s.
       case r of
         None \<Rightarrow> Ok (-1, []) s
       | Some cs \<Rightarrow>
           rbind (release L_cons s) (\<lambda>_ s.
           rbind (ilock (Some ip) s) (\<lambda>_ s. Ok (int (length cs), cs) s)))))"

definition consolewrite :: "nat \<Rightarrow> (nat \<Rightarrow> u8) \<Rightarrow> int \<Rightarrow> 'a consst_scheme \<Rightarrow> ('a consst_scheme, int) res" where
  "consolewrite ip addr n s =
     rbind (iunlock (Some ip) s) (\<lambda>_ s.
     rbind (acquire L_cons s) (\<lambda>_ s.
     rbind (consputs (map addr [0..<nat n]) s) (\<lambda>_ s.
     rbind (release L_cons s) (\<lambda>_ s.
     rbind (ilock (Some ip) s) (\<lambda>_ s. Ok n s)))))"

definition consoleinit :: "'a consst_scheme \<Rightarrow> 'a consst_scheme" where
  "consoleinit s = s\<lparr>devtab := (devtab s)[CONSOLE := (devtab s ! CONSOLE)\<lparr>dv_write := Some D_consolewrite,
     dv_read := Some D_consoleread\<rparr>], cons_locking := True\<rparr>"

section \<open>The keyboard\<close>

definition SHIFT :: u32 where "SHIFT = 1"
definition CTL :: u32 where "CTL = 2"
definition ALT :: u32 where "ALT = 4"
definition CAPSLOCK :: u32 where "CAPSLOCK = 8"
definition NUMLOCK :: u32 where "NUMLOCK = 16"
definition SCROLLLOCK :: u32 where "SCROLLLOCK = 32"
definition E0ESC :: u32 where "E0ESC = 64"

definition shiftcode :: "u32 \<Rightarrow> u32" where
  "shiftcode d = (if d \<in> {0x1D, 0x9D} then CTL else if d \<in> {0x2A, 0x36} then SHIFT
     else if d \<in> {0x38, 0xB8} then ALT else 0)"

definition togglecode :: "u32 \<Rightarrow> u32" where
  "togglecode d = (if d = 0x3A then CAPSLOCK else if d = 0x45 then NUMLOCK else if d = 0x46 then SCROLLLOCK else 0)"

text \<open>The entries of the three maps that are given by index.\<close>

definition special_key :: "u8 \<Rightarrow> u8 \<Rightarrow> u32 \<Rightarrow> u8" where
  "special_key enter slash d =
     (if d = 0x9C then enter else if d = 0xB5 then slash
      else if d = 0xC8 then 0xE2 else if d = 0xD0 then 0xE3
      else if d = 0xC9 then 0xE6 else if d = 0xD1 then 0xE7
      else if d = 0xCB then 0xE4 else if d = 0xCD then 0xE5
      else if d = 0x97 then 0xE0 else if d = 0xCF then 0xE1
      else if d = 0xD2 then 0xE8 else if d = 0xD3 then 0xE9 else 0)"

definition keypad :: "u8 list" where
  "keypad = [0] @ asc '' '' @ replicate 13 0 @ asc ''789-456+1230.'' @ replicate 4 0"

definition normalkeys :: "u8 list" where
  "normalkeys = [0, 0x1B] @ asc ''1234567890-='' @ [8, 9] @ asc ''qwertyuiop[]'' @ [10, 0]
     @ asc ''asdfghjkl;'' @ [0x27, 0x60, 0, 0x5C] @ asc ''zxcvbnm,./'' @ [0] @ asc ''*'' @ keypad"

definition shiftkeys :: "u8 list" where
  "shiftkeys = [0, 0x1B] @ asc ''!@#$%^&*()_+'' @ [8, 9] @ asc ''QWERTYUIOP{}'' @ [10, 0]
     @ asc ''ASDFGHJKL:'' @ [0x22, 0x7E, 0, 0x7C] @ asc ''ZXCVBNM<>?'' @ [0] @ asc ''*'' @ keypad"

definition ctlkeys :: "u8 list" where
  "ctlkeys = replicate 16 0 @ map (\<lambda>c. c - 0x40) (asc ''QWERTYUIOP'') @ [0, 0, 13, 0]
     @ map (\<lambda>c. c - 0x40) (asc ''ASDFGHJKL'') @ [0, 0, 0, 0, 0x5C - 0x40]
     @ map (\<lambda>c. c - 0x40) (asc ''ZXCVBNM'') @ [0, 0, 0x2F - 0x40, 0, 0]"

definition keymap :: "u8 list \<Rightarrow> u8 \<Rightarrow> u8 \<Rightarrow> u32 \<Rightarrow> u8" where
  "keymap keys enter slash d =
     (if unat d < length keys then keys ! unat d else special_key enter slash d)"

definition charcode :: "u32 \<Rightarrow> u32 \<Rightarrow> u8" where
  "charcode k d = (if k = 0 then keymap normalkeys 10 0x2F d else if k = 1 then keymap shiftkeys 10 0x2F d
     else keymap ctlkeys 13 (0x2F - 0x40) d)"

text \<open>\<open>st\<close> and \<open>dat\<close> are what the status and data ports read; \<open>shift\<close> is the static variable.\<close>

definition kbdgetc :: "u8 \<Rightarrow> u8 \<Rightarrow> u32 \<Rightarrow> int \<times> u32" where
  "kbdgetc st dat shift =
     (if st AND 1 = 0 then (-1, shift)
      else let data = (ucast dat :: u32) in
        if data = 0xE0 then (0, shift OR E0ESC)
        else if data AND 0x80 \<noteq> 0 then
          (let data = (if shift AND E0ESC \<noteq> 0 then data else data AND 0x7F)
           in (0, shift AND NOT (shiftcode data OR E0ESC)))
        else
          let (data, shift) = (if shift AND E0ESC \<noteq> 0 then (data OR 0x80, shift AND NOT E0ESC) else (data, shift));
              shift = shift OR shiftcode data;
              shift = shift XOR togglecode data;
              c = uint (charcode (shift AND (CTL OR SHIFT)) data);
              c = (if shift AND CAPSLOCK \<noteq> 0 then
                     (if 0x61 \<le> c \<and> c \<le> 0x7A then c + (0x41 - 0x61)
                      else if 0x41 \<le> c \<and> c \<le> 0x5A then c + (0x61 - 0x41) else c)
                   else c)
          in (c, shift))"

text \<open>The characters that successive calls of \<^verbatim>\<open>kbdgetc\<close> return, for a sequence of port readings.\<close>

fun kbd_chars :: "(u8 \<times> u8) list \<Rightarrow> u32 \<Rightarrow> int list \<times> u32" where
  "kbd_chars [] shift = ([], shift)"
| "kbd_chars ((st, dat) # ps) shift =
     (let (c, shift) = kbdgetc st dat shift in
      if c < 0 then ([], shift) else let (cs, shift) = kbd_chars ps shift in (c # cs, shift))"

definition kbdintr ::
  "(u8 \<times> u8) list \<Rightarrow> (nat \<Rightarrow> u32 list) \<Rightarrow> 'a consst_scheme \<Rightarrow> ('a consst_scheme, unit) res" where
  "kbdintr ports pcs s =
     (let (cs, shift) = kbd_chars ports (kbd_shift s) in consoleintr cs pcs (s\<lparr>kbd_shift := shift\<rparr>))"

section \<open>The serial port\<close>

definition uartinit :: "u8 \<Rightarrow> 'a consst_scheme \<Rightarrow> 'a consst_scheme" where
  "uartinit status s =
     (if status = 0xFF then s
      else fold (\<lambda>c. uartputc (uint c)) (asc (''xv6...'' @ [CHR 0x0A])) (s\<lparr>uart := True\<rparr>))"

definition uartgetc :: "u8 \<Rightarrow> u8 \<Rightarrow> 'a consst_scheme \<Rightarrow> int" where
  "uartgetc st dat s = (if \<not> uart s then -1 else if st AND 1 = 0 then -1 else uint dat)"

definition uartintr ::
  "(u8 \<times> u8) list \<Rightarrow> (nat \<Rightarrow> u32 list) \<Rightarrow> 'a consst_scheme \<Rightarrow> ('a consst_scheme, unit) res" where
  "uartintr ports pcs s = consoleintr (takeWhile (\<lambda>c. c \<ge> 0) (map (\<lambda>(st, dat). uartgetc st dat s) ports)) pcs s"

end
