(* ===== verification/Fs.thy ===== *)
theory Fs
  imports Console
begin

text \<open>
  File contents, directories and path names: \<^verbatim>\<open>readi\<close>, \<^verbatim>\<open>writei\<close>, \<^verbatim>\<open>namecmp\<close>, \<^verbatim>\<open>dirlookup\<close>, \<^verbatim>\<open>dirlink\<close>,
  \<^verbatim>\<open>skipelem\<close>, \<^verbatim>\<open>namex\<close>, \<^verbatim>\<open>namei\<close> and \<^verbatim>\<open>nameiparent\<close> of \<^verbatim>\<open>fs.c\<close>. The bytes that \<^verbatim>\<open>readi\<close> stores through its
  destination pointer are part of its result, and the source of \<^verbatim>\<open>writei\<close> is a function from
  offsets to bytes. A path is the list of its bytes before the NUL.
\<close>

section \<open>Contents\<close>

function readi_loop :: "nat \<Rightarrow> nat \<Rightarrow> nat \<Rightarrow> 'a fsst_scheme \<Rightarrow> ('a fsst_scheme, u8 list) res" where
  "readi_loop ip off n s =
     (if n = 0 then Ok [] s
      else let m = min n (BSIZE - off mod BSIZE) in
        rbind (bmap ip (of_nat (off div BSIZE)) s) (\<lambda>addr s.
        rbind (bread (i_dev (inodes s ! ip)) addr s) (\<lambda>bp s.
          let bs = take m (drop (off mod BSIZE) (b_data (bufs s ! bp))) in
          rbind (brelse bp s) (\<lambda>_ s.
          rbind (readi_loop ip (off + m) (n - m) s) (\<lambda>cs s. Ok (bs @ cs) s)))))"
  by pat_completeness auto
termination by (relation "measure (\<lambda>(ip, off, n, s). n)") (auto simp: BSIZE_def)

definition readi :: "nat \<Rightarrow> u32 \<Rightarrow> u32 \<Rightarrow> 'a consst_scheme \<Rightarrow> ('a consst_scheme, int \<times> u8 list) res" where
  "readi ip off n s =
     (let x = inodes s ! ip in
      if i_type x = T_DEV then
        (if sint (i_major x) < 0 \<or> sint (i_major x) \<ge> int NDEV then Ok (-1, []) s
         else case dv_read (devtab s ! nat (sint (i_major x))) of
             None \<Rightarrow> Ok (-1, []) s
           | Some D_consoleread \<Rightarrow> consoleread ip (sint n) s)
      else if off > i_size x \<or> off + n < off then Ok (-1, []) s
      else let n = (if off + n > i_size x then i_size x - off else n) in
        rbind (readi_loop ip (unat off) (unat n) s) (\<lambda>bs s. Ok (sint n, bs) s))"

text \<open>Overwriting part of a block.\<close>

definition blit :: "nat \<Rightarrow> u8 list \<Rightarrow> u8 list \<Rightarrow> u8 list" where
  "blit a xs ys = take a ys @ xs @ drop (a + length xs) ys"

function writei_loop ::
  "nat \<Rightarrow> (nat \<Rightarrow> u8) \<Rightarrow> nat \<Rightarrow> nat \<Rightarrow> nat \<Rightarrow> 'a fsst_scheme \<Rightarrow> ('a fsst_scheme, unit) res" where
  "writei_loop ip src tot off n s =
     (if n = 0 then Ok () s
      else let m = min n (BSIZE - off mod BSIZE) in
        rbind (bmap ip (of_nat (off div BSIZE)) s) (\<lambda>addr s.
        rbind (bread (i_dev (inodes s ! ip)) addr s) (\<lambda>bp s.
        rbind (write_back bp (blit (off mod BSIZE) (map src [tot..<tot + m]) (b_data (bufs s ! bp))) s) (\<lambda>_ s.
          writei_loop ip src (tot + m) (off + m) (n - m) s))))"
  by pat_completeness auto
termination by (relation "measure (\<lambda>(ip, src, tot, off, n, s). n)") (auto simp: BSIZE_def)

definition writei ::
  "nat \<Rightarrow> (nat \<Rightarrow> u8) \<Rightarrow> u32 \<Rightarrow> u32 \<Rightarrow> 'a consst_scheme \<Rightarrow> ('a consst_scheme, int) res" where
  "writei ip src off n s =
     (let x = inodes s ! ip in
      if i_type x = T_DEV then
        (if sint (i_major x) < 0 \<or> sint (i_major x) \<ge> int NDEV then Ok (-1) s
         else case dv_write (devtab s ! nat (sint (i_major x))) of
             None \<Rightarrow> Ok (-1) s
           | Some D_consolewrite \<Rightarrow> consolewrite ip src (sint n) s)
      else if off > i_size x \<or> off + n < off then Ok (-1) s
      else if off + n > of_nat (MAXFILE * BSIZE) then Ok (-1) s
      else rbind (writei_loop ip src 0 (unat off) (unat n) s) (\<lambda>_ s.
        let off = off + n in
        rbind (if n > 0 \<and> off > i_size (inodes s ! ip)
               then iupdate ip (upd_inode ip (\<lambda>x. x\<lparr>i_size := off\<rparr>) s)
               else Ok () s) (\<lambda>_ s. Ok (sint n) s)))"

section \<open>Directories\<close>

text \<open>\<^verbatim>\<open>strncmp(s, t, DIRSIZ)\<close> of two byte strings that end in a NUL or are at least \<open>DIRSIZ\<close> long.\<close>

definition pad :: "nat \<Rightarrow> u8 list \<Rightarrow> u8 list" where
  "pad n xs = take n (xs @ replicate n 0)"

definition namecmp :: "u8 list \<Rightarrow> u8 list \<Rightarrow> int" where
  "namecmp s t = strncmp 0 DIRSIZ DIRSIZ (\<lambda>i. (pad DIRSIZ s @ pad DIRSIZ t) ! i)"

text \<open>\<^verbatim>\<open>readi(dp, (char*)&de, off, sizeof(de)) != sizeof(de)\<close> panics with \<open>msg\<close>.\<close>

definition read_dirent :: "string \<Rightarrow> nat \<Rightarrow> nat \<Rightarrow> 'a consst_scheme \<Rightarrow> ('a consst_scheme, dirent) res" where
  "read_dirent msg dp off s =
     rbind (readi dp (of_nat off) (of_nat DIRENT_SIZE) s) (\<lambda>(r, bs) s.
       if r \<noteq> int DIRENT_SIZE then Panic msg else Ok (get_dirent bs) s)"

function dirlookup_from ::
  "nat \<Rightarrow> nat \<Rightarrow> u8 list \<Rightarrow> 'a consst_scheme \<Rightarrow> ('a consst_scheme, (nat \<times> nat) option) res" where
  "dirlookup_from off dp name s =
     (if off < unat (i_size (inodes s ! dp)) then
        rbind (read_dirent ''dirlookup read'' dp off s) (\<lambda>de s.
          if de_inum de = 0 then dirlookup_from (off + DIRENT_SIZE) dp name s
          else if namecmp name (de_name de) = 0 then
            rbind (iget (i_dev (inodes s ! dp)) (ucast (de_inum de)) s) (\<lambda>ip s. Ok (Some (ip, off)) s)
          else dirlookup_from (off + DIRENT_SIZE) dp name s)
      else Ok None s)"
  by pat_completeness auto
termination
proof (relation "measure (\<lambda>(off, dp, name, s). 2 ^ 32 - off)")
  fix off dp :: nat and name :: "u8 list" and s :: "'a consst_scheme"
  assume "off < unat (i_size (inodes s ! dp))"
  then have "off < 2 ^ 32" using unsigned_less [of "i_size (inodes s ! dp)", where 'a = nat] by simp
  then show "((off + DIRENT_SIZE, dp, name, t), off, dp, name, s) \<in> measure (\<lambda>(off, dp, name, s). 2 ^ 32 - off)"
    "((off + DIRENT_SIZE, dp, name, t), off, dp, name, s) \<in> measure (\<lambda>(off, dp, name, s). 2 ^ 32 - off)"
    for t :: "'a consst_scheme" by (simp_all add: DIRENT_SIZE_def)
qed simp

text \<open>The entry's inode and its byte offset, which the code stores through \<^verbatim>\<open>poff\<close> if that is not null.\<close>

definition dirlookup ::
  "nat \<Rightarrow> u8 list \<Rightarrow> 'a consst_scheme \<Rightarrow> ('a consst_scheme, (nat \<times> nat) option) res" where
  "dirlookup dp name s =
     (if i_type (inodes s ! dp) \<noteq> T_DIR then Panic ''dirlookup not DIR'' else dirlookup_from 0 dp name s)"

function dirlink_slot :: "nat \<Rightarrow> nat \<Rightarrow> 'a consst_scheme \<Rightarrow> ('a consst_scheme, nat) res" where
  "dirlink_slot off dp s =
     (if off < unat (i_size (inodes s ! dp)) then
        rbind (read_dirent ''dirlink read'' dp off s) (\<lambda>de s.
          if de_inum de = 0 then Ok off s else dirlink_slot (off + DIRENT_SIZE) dp s)
      else Ok off s)"
  by pat_completeness auto
termination
proof (relation "measure (\<lambda>(off, dp, s). 2 ^ 32 - off)")
  fix off dp :: nat and s :: "'a consst_scheme"
  assume "off < unat (i_size (inodes s ! dp))"
  then have "off < 2 ^ 32" using unsigned_less [of "i_size (inodes s ! dp)", where 'a = nat] by simp
  then show "((off + DIRENT_SIZE, dp, t), off, dp, s) \<in> measure (\<lambda>(off, dp, s). 2 ^ 32 - off)"
    for t :: "'a consst_scheme" by (simp add: DIRENT_SIZE_def)
qed simp

definition dirlink :: "nat \<Rightarrow> u8 list \<Rightarrow> u32 \<Rightarrow> 'a consst_scheme \<Rightarrow> ('a consst_scheme, int) res" where
  "dirlink dp name inum s =
     rbind (dirlookup dp name s) (\<lambda>r s.
       case r of
         Some (ip, _) \<Rightarrow> rbind (iput ip s) (\<lambda>_ s. Ok (-1) s)
       | None \<Rightarrow>
           rbind (dirlink_slot 0 dp s) (\<lambda>off s.
             let de = \<lparr>de_inum = ucast inum, de_name = strncpy_list DIRSIZ name\<rparr> in
             rbind (writei dp (nth (dirent_bytes de)) (of_nat off) (of_nat DIRENT_SIZE) s) (\<lambda>r s.
               if r \<noteq> int DIRENT_SIZE then Panic ''dirlink'' else Ok 0 s)))"

section \<open>Paths\<close>

text \<open>The name buffer has \<open>DIRSIZ\<close> bytes; a shorter name leaves its tail as it was.\<close>

definition skipelem :: "u8 list \<Rightarrow> u8 list \<Rightarrow> (u8 list \<times> u8 list) option" where
  "skipelem path name =
     (let path = dropWhile (\<lambda>c. c = 0x2F) path in
      if path = [] then None
      else let s = takeWhile (\<lambda>c. c \<noteq> 0x2F) path;
               path = dropWhile (\<lambda>c. c \<noteq> 0x2F) path;
               name = (if length s \<ge> DIRSIZ then take DIRSIZ s else s @ 0 # drop (length s + 1) name)
           in Some (dropWhile (\<lambda>c. c = 0x2F) path, name))"

lemma skipelem_shorter: "skipelem path name = Some (rest, name') \<Longrightarrow> length rest < length path"
proof -
  assume a: "skipelem path name = Some (rest, name')"
  let ?p = "dropWhile (\<lambda>c. c = 0x2F) path"
  from a have ne: "?p \<noteq> []" and r: "rest = dropWhile (\<lambda>c. c = 0x2F) (dropWhile (\<lambda>c. c \<noteq> 0x2F) ?p)"
    by (auto simp: skipelem_def Let_def split: if_splits)
  have "hd ?p \<noteq> 0x2F" using hd_dropWhile [OF ne] .
  then have "dropWhile (\<lambda>c. c \<noteq> 0x2F) ?p = dropWhile (\<lambda>c. c \<noteq> 0x2F) (tl ?p)"
    using ne by (cases ?p) simp_all
  then have "length rest \<le> length (tl ?p)"
    unfolding r by (simp only: le_trans [OF length_dropWhile_le length_dropWhile_le])
  also have "\<dots> < length ?p" using ne by simp
  also have "\<dots> \<le> length path" by (rule length_dropWhile_le)
  finally show ?thesis .
qed

text \<open>
  The body of the loop of \<^verbatim>\<open>namex\<close> for one path element: \<open>Inl\<close> is a return, \<open>Inr\<close> the inode to go
  on with. \<open>lst\<close> says that the element is the last one.
\<close>

definition namex_step ::
  "bool \<Rightarrow> bool \<Rightarrow> u8 list \<Rightarrow> nat \<Rightarrow> 'a consst_scheme \<Rightarrow> ('a consst_scheme, nat option + nat) res" where
  "namex_step lst parent name ip s =
     rbind (ilock (Some ip) s) (\<lambda>_ s.
       if i_type (inodes s ! ip) \<noteq> T_DIR then rbind (iunlockput (Some ip) s) (\<lambda>_ s. Ok (Inl None) s)
       else if parent \<and> lst then rbind (iunlock (Some ip) s) (\<lambda>_ s. Ok (Inl (Some ip)) s)
       else rbind (dirlookup ip name s) (\<lambda>r s.
         case r of
           None \<Rightarrow> rbind (iunlockput (Some ip) s) (\<lambda>_ s. Ok (Inl None) s)
         | Some (ip2, _) \<Rightarrow> rbind (iunlockput (Some ip) s) (\<lambda>_ s. Ok (Inr ip2) s)))"

function namex_loop ::
  "u8 list \<Rightarrow> bool \<Rightarrow> u8 list \<Rightarrow> nat \<Rightarrow> 'a consst_scheme \<Rightarrow> ('a consst_scheme, nat option \<times> u8 list) res" where
  "namex_loop path parent name ip s =
     (case skipelem path name of
        None \<Rightarrow>
          if parent then rbind (iput ip s) (\<lambda>_ s. Ok (None, name) s) else Ok (Some ip, name) s
      | Some q \<Rightarrow>
          rbind (namex_step (fst q = []) parent (snd q) ip s) (\<lambda>r s.
            case r of Inl a \<Rightarrow> Ok (a, snd q) s | Inr ip2 \<Rightarrow> namex_loop (fst q) parent (snd q) ip2 s))"
  by pat_completeness auto
termination
proof (relation "measure (\<lambda>(path, parent, name, ip, s). length path)", goal_cases)
  case (2 path parent name ip s q)
  then have "length (fst q) < length path" by (intro skipelem_shorter [of path name _ "snd q"]) simp
  then show ?case by simp
qed simp

definition namex ::
  "u8 list \<Rightarrow> bool \<Rightarrow> u8 list \<Rightarrow> 'a consst_scheme \<Rightarrow> ('a consst_scheme, nat option \<times> u8 list) res" where
  "namex path parent name s =
     rbind (if path \<noteq> [] \<and> hd path = 0x2F then iget ROOTDEV ROOTINO s
            else rbind (myproc s) (\<lambda>p s.
              case p of None \<Rightarrow> Panic ''nullptr''
              | Some i \<Rightarrow> (case p_cwd (procs s ! i) of None \<Rightarrow> Panic ''nullptr'' | Some ip \<Rightarrow> idup ip s))) (\<lambda>ip s.
       namex_loop path parent name ip s)"

definition namei :: "u8 list \<Rightarrow> 'a consst_scheme \<Rightarrow> ('a consst_scheme, nat option) res" where
  "namei path s = rbind (namex path False (replicate DIRSIZ 0) s) (\<lambda>(ip, _) s. Ok ip s)"

definition nameiparent ::
  "u8 list \<Rightarrow> u8 list \<Rightarrow> 'a consst_scheme \<Rightarrow> ('a consst_scheme, nat option \<times> u8 list) res" where
  "nameiparent path name s = namex path True name s"

end
