(* ===== verification/Crash.thy ===== *)
theory Crash
  imports Log
begin

text \<open>
  Crash safety of the log. The crash predicate of the contracts in \<open>Cache\<close> speaks of the disk at
  every point where the CPU is given up; here it says what the disk \<^emph>\<open>recovers\<close> to.
\<close>

section \<open>Copying between the log and the home blocks\<close>

text \<open>
  The iterations of \<^verbatim>\<open>install_trans\<close> and \<^verbatim>\<open>write_log\<close> differ in the direction of the copy only:
  \<open>fwd\<close> copies from the first block read to the second.
\<close>

definition copy_iter :: "bool \<Rightarrow> nat \<Rightarrow> 'a logst_scheme \<Rightarrow> ('a logst_scheme, unit) res" where
  "copy_iter fwd tail s =
     rbind (bread (log_dev s) (log_slot tail s) s) (\<lambda>x s.
     rbind (bread (log_dev s) (log_home tail s) s) (\<lambda>y s.
       let src = (if fwd then x else y); dst = (if fwd then y else x) in
     rbind (bwrite dst (set_data dst (b_data (bufs s ! src)) s)) (\<lambda>_ s.
     rbind (brelse src s) (\<lambda>_ s. brelse dst s))))"

fun copy_loop :: "bool \<Rightarrow> nat \<Rightarrow> nat \<Rightarrow> 'a logst_scheme \<Rightarrow> ('a logst_scheme, unit) res" where
  "copy_loop fwd 0 tail s = (if int tail < lh_n (klog s) then Panic ''bounds'' else Ok () s)"
| "copy_loop fwd (Suc k) tail s =
     (if int tail < lh_n (klog s) then rbind (copy_iter fwd tail s) (\<lambda>_ s. copy_loop fwd k (tail + 1) s)
      else Ok () s)"

lemma copy_loop_install: "install_trans_from k tail = copy_loop True k tail"
  by (induction k arbitrary: tail; rule ext) (simp_all add: copy_iter_def rbind_assoc)

lemma copy_loop_write: "write_log_from k tail = copy_loop False k tail"
  by (induction k arbitrary: tail; rule ext) (simp_all add: copy_iter_def rbind_assoc)

lemma klog_more:
  fixes s t :: "'a logst_scheme"
  assumes "bst.more t = bst.more s"
  shows "klog t = klog s" and "log_dev t = log_dev s" and "log_slot j t = log_slot j s"
    and "log_home j t = log_home j s" and "head_block t = head_block s" and "logst.more t = logst.more s"
proof -
  show k: "klog t = klog s" and "logst.more t = logst.more s" using assms by (cases s; cases t; simp)+
  then show "log_dev t = log_dev s" "log_slot j t = log_slot j s" "log_home j t = log_home j s"
    "head_block t = head_block s"
    by (simp_all add: log_dev_def log_slot_def log_home_def head_block_def)
qed

text \<open>What an iteration does to the blocks.\<close>

definition copied :: "nat \<Rightarrow> u32 \<Rightarrow> u32 \<Rightarrow> 'a logst_scheme \<Rightarrow> 'a logst_scheme \<Rightarrow> bool" where
  "copied i src dst s t \<longleftrightarrow> bwf i {} t \<and> cview t = (cview s)(dst := cview s src)
     \<and> disk t = disk_write 1 dst (cview s src) (disk s) \<and> pinned t = pinned s - {dst}
     \<and> bst.more t = bst.more s"

lemma write_release_safe:
  fixes v :: "'a logst_scheme"
  assumes wv: "bwf i {xs, xd} v" and ne: "xs \<noteq> xd" "src \<noteq> dst" "dst < FSSIZE"
    and key: "cached src (bufs v ! xs)" "cached dst (bufs v ! xd)"
      "b_dirty (bufs v ! xs) \<or> cview v src = disk v 1 src"
    and P: "P (disk_write 1 dst (cview v src) (disk v))"
  shows "safe (\<lambda>t. P (disk t)) (quiet i)
    (rbind (bwrite xd (set_data xd (b_data (bufs v ! xs)) v)) (\<lambda>_ s. rbind (brelse xs s) (\<lambda>_ s. brelse xd s)))
    (\<lambda>_ t. copied i src dst v t)"
proof -
  have N: "xs < NBUF" "xd < NBUF" using bwf_simps(12) [OF wv] by simp_all
  have src: "b_data (bufs v ! xs) = cview v src"
    using cview_cached [OF bwf_simps(2,3) [OF wv] N(1) key(1)] by simp
  let ?v = "set_data xd (cview v src) v"
  have xd: "xd \<in> {xs, xd}" by simp
  note vd = bwf_data [OF wv xd key(2), of "cview v src", folded set_data_def]
  have lv: "xd < length (bufs v)" using bwf_simps(3) [OF wv] N(2) by simp
  have cv: "cached dst (bufs ?v ! xd)" "b_data (bufs ?v ! xd) = cview v src" "disk ?v = disk v"
    "bst.more ?v = bst.more v" "bufs ?v ! xs = bufs v ! xs"
    using key(2) ne lv by (simp_all add: set_data_def cached_def)
  show ?thesis
    unfolding src
  proof (rule safe_bind [OF bwrite_safe [OF vd(1) xd cv(1) ne(3)]])
    fix w
    assume w: "bwf i {xs, xd} w \<and> cview w = cview ?v \<and> disk w = disk_write 1 dst (b_data (bufs ?v ! xd)) (disk ?v)
      \<and> pinned w = pinned ?v - {dst} \<and> bst.more w = bst.more ?v
      \<and> bufs w = (bufs ?v)[xd := (bufs ?v ! xd)\<lparr>b_dirty := False, b_qnext := None\<rparr>]
      \<and> map p_pid (procs w) = map p_pid (procs ?v)"
    then have wxs: "bufs w ! xs = bufs v ! xs" using ne(1) cv(5) by simp
    have wxd: "cached dst (bufs w ! xd)" using w cv(1) lv by (auto simp: cached_def set_data_def)
    have dw: "disk w = disk_write 1 dst (cview v src) (disk v)" using w cv(2,3) by simp
    have coh: "b_dirty (bufs w ! xs) \<or> b_data (bufs w ! xs) = disk w 1 (b_blockno (bufs w ! xs))"
      using key(1,3) src ne dw unfolding wxs by (auto simp: cached_def)
    obtain w' where w': "brelse xs w = Ok () w'" "bwf i ({xs, xd} - {xs}) w'" "cview w' = cview w" "disk w' = disk w"
      "pinned w' = pinned w" "bst.more w' = bst.more w"
      "\<And>c k. c < NBUF \<Longrightarrow> cached k (bufs w' ! c) = cached k (bufs w ! c)"
      using brelse_ok [of i "{xs, xd}" w xs] w coh by (metis insertI1)
    have c': "cached dst (bufs w' ! xd)" using w'(7) [OF N(2)] wxd by blast
    then have "b_data (bufs w' ! xd) = cview w' dst"
      using cview_cached [OF bwf_simps(2,3) [OF w'(2)] N(2)] by simp
    moreover have "cview w' dst = disk w' 1 dst" using w w'(3,4) vd(2) dw cv(2) by simp
    ultimately have coh': "b_dirty (bufs w' ! xd) \<or> b_data (bufs w' ! xd) = disk w' 1 (b_blockno (bufs w' ! xd))"
      using c' by (simp add: cached_def)
    have "xd \<in> {xs, xd} - {xs}" using ne(1) by simp
    then obtain w'' where w'': "brelse xd w' = Ok () w''" "bwf i ({xs, xd} - {xs} - {xd}) w''" "cview w'' = cview w'"
      "disk w'' = disk w'" "pinned w'' = pinned w'" "bst.more w'' = bst.more w'"
      using brelse_ok [OF w'(2) _ coh'] by metis
    have e: "{xs, xd} - {xs} - {xd} = {}" by auto
    have "copied i src dst v w''"
      using w''(2) [unfolded e] w''(3-6) w'(3-6) w vd(2,3) dw cv by (simp add: copied_def)
    then show "safe (\<lambda>t. P (disk t)) (quiet i) (rbind (brelse xs w) (\<lambda>_ s. brelse xd s)) (\<lambda>_ t. copied i src dst v t)"
      using w'(1) w''(1) by simp
  qed (use P cv in \<open>simp del: disk_write_simp\<close>)
qed

lemma copied_from:
  assumes "copied i src dst v t" and "disk v = disk s" "cview v = cview s" "pinned v = pinned s" "bst.more v = bst.more s"
  shows "copied i src dst s t"
  using assms by (simp add: copied_def)

lemma copy_iter_safe:
  fixes s :: "'a logst_scheme"
  assumes wf: "bwf i {} s" and dev: "log_dev s = 1"
    and ab: "log_slot j s = a" "log_home j s = b" "a \<noteq> b" "a < FSSIZE" "b < FSSIZE"
    and room: "card (pinned s) < NBUF" "b \<in> pinned s \<or> card (pinned s) + 1 < NBUF"
    and sd: "src = (if fwd then a else b)" "dst = (if fwd then b else a)"
    and P: "P (disk s)" "P (disk_write 1 dst (cview s src) (disk s))"
  shows "safe (\<lambda>t. P (disk t)) (quiet i) (copy_iter fwd j s) (\<lambda>_ t. copied i src dst s t)"
  unfolding copy_iter_def dev ab(1)
proof (rule safe_bind [OF bread_safe])
  fix x u assume x: "bread_post i {} a s x u"
  note px = x [unfolded bread_post_def, simplified]
  have mu: "bst.more u = bst.more s" using px by blast
  have "safe (\<lambda>t. P (disk t)) (quiet i) (bread 1 b u) (bread_post i {x} b u)"
    using px ab(3,5) room(2) P(1) by (intro bread_safe) (simp_all add: cached_def same_key_def)
  then show "safe (\<lambda>t. P (disk t)) (quiet i) (rbind (bread (log_dev u) (log_home j u) u) (\<lambda>y s.
       let src = (if fwd then x else y); dst = (if fwd then y else x) in
       rbind (bwrite dst (set_data dst (b_data (bufs s ! src)) s)) (\<lambda>_ s.
       rbind (brelse src s) (\<lambda>_ s. brelse dst s)))) (\<lambda>_ t. copied i src dst s t)"
    unfolding klog_more [OF mu] dev ab(2)
  proof (rule safe_bind)
    fix y v assume y: "bread_post i {x} b u y v"
    define xs xd where "xs = (if fwd then x else y)" and "xd = (if fwd then y else x)"
    have dv: "disk v = disk s" "cview v = cview s" "pinned v = pinned s" "bst.more v = bst.more s"
      using px y by (auto simp: bread_post_def fun_eq_iff)
    have xy: "x \<noteq> y" "bufs v ! x = bufs u ! x" using px y by (auto simp: bread_post_def)
    have "{xs, xd} = {y, x}" by (auto simp: xs_def xd_def)
    then have wv: "bwf i {xs, xd} v" using y by (simp add: bread_post_def)
    have key: "cached src (bufs v ! xs)" "cached dst (bufs v ! xd)" "xs \<noteq> xd"
      "b_dirty (bufs v ! xs) \<or> cview s src = disk s 1 src" "src \<noteq> dst" "dst < FSSIZE"
      using px y xy sd ab by (auto simp: xs_def xd_def bread_post_def)
    have "safe (\<lambda>t. P (disk t)) (quiet i)
      (rbind (bwrite xd (set_data xd (b_data (bufs v ! xs)) v)) (\<lambda>_ s. rbind (brelse xs s) (\<lambda>_ s. brelse xd s)))
      (\<lambda>_ t. copied i src dst v t)"
      by (rule write_release_safe) (use wv key P(2) dv in \<open>simp_all del: disk_write_simp\<close>)
    then show "safe (\<lambda>t. P (disk t)) (quiet i)
      (let src = (if fwd then x else y); dst = (if fwd then y else x) in
       rbind (bwrite dst (set_data dst (b_data (bufs v ! src)) v)) (\<lambda>_ s.
       rbind (brelse src s) (\<lambda>_ s. brelse dst s))) (\<lambda>_ t. copied i src dst s t)"
      unfolding Let_def xs_def [symmetric] xd_def [symmetric]
      by (rule safe_mono) (erule copied_from [OF _ dv])
  qed
qed (use wf ab P(1) room(1) in simp_all)

section \<open>The copy loops\<close>

text \<open>\<open>upd_all f v js M\<close> sets \<open>f j\<close> to \<open>v j\<close> for every \<open>j\<close> of \<open>js\<close>, in order.\<close>

definition upd_all :: "('j \<Rightarrow> 'k) \<Rightarrow> ('j \<Rightarrow> 'v) \<Rightarrow> 'j list \<Rightarrow> ('k \<Rightarrow> 'v) \<Rightarrow> 'k \<Rightarrow> 'v" where
  "upd_all f v js M = fold (\<lambda>j M. M(f j := v j)) js M"

lemma upd_all_simps [simp]:
  "upd_all f v [] M = M"
  "upd_all f v (j # js) M = upd_all f v js (M(f j := v j))"
  by (simp_all add: upd_all_def)

lemma upd_all_other: "k \<notin> f ` set js \<Longrightarrow> upd_all f v js M k = M k"
  by (induction js arbitrary: M) simp_all

lemma upd_all_same: "inj_on f (set js) \<Longrightarrow> distinct js \<Longrightarrow> j \<in> set js \<Longrightarrow> upd_all f v js M (f j) = v j"
proof (induction js arbitrary: M)
  case (Cons i js)
  show ?case
  proof (cases "i = j")
    case True
    then have "f j \<notin> f ` set js" using Cons.prems by (auto simp: inj_on_def)
    then show ?thesis using True by (simp add: upd_all_other)
  next
    case False
    then show ?thesis using Cons by auto
  qed
qed simp

text \<open>
  A log of \<open>n\<close> blocks at \<open>ls\<close> whose slots and home blocks are distinct blocks of the disk.
\<close>

definition slot_of :: "u32 \<Rightarrow> nat \<Rightarrow> u32" where
  "slot_of ls j = ls + 1 + of_nat j"

definition log_ok :: "u32 \<Rightarrow> u32 list \<Rightarrow> bool" where
  "log_ok ls hs \<longleftrightarrow> length hs < LOGSIZE \<and> unat ls + LOGSIZE < unat FSSIZE \<and> distinct hs
     \<and> (\<forall>h\<in>set hs. h < FSSIZE \<and> h \<notin> {ls..<ls + of_nat LOGSIZE})"

lemma log_ok_ls:
  assumes "log_ok ls hs"
  shows "unat (ls + of_nat LOGSIZE) = unat ls + LOGSIZE" "ls \<in> {ls..<ls + of_nat LOGSIZE}" "ls < FSSIZE"
proof -
  have b: "unat ls + LOGSIZE < 1000" using assms by (simp add: log_ok_def FSSIZE_def)
  have "ls + of_nat LOGSIZE = of_nat (unat ls + LOGSIZE)" by simp
  also have "unat \<dots> = unat ls + LOGSIZE"
    using b by (simp only: unat_of_nat) (simp add: take_bit_nat_eq_self_iff)
  finally show "unat (ls + of_nat LOGSIZE) = unat ls + LOGSIZE" .
  then show "ls \<in> {ls..<ls + of_nat LOGSIZE}" "ls < FSSIZE"
    using b by (simp_all add: word_le_nat_alt word_less_nat_alt FSSIZE_def LOGSIZE_def MAXOPBLOCKS_def)
qed

lemma slot_of_props:
  assumes "log_ok ls hs" and "j < length hs"
  shows "unat (slot_of ls j) = unat ls + 1 + j" "slot_of ls j < FSSIZE" "hs ! j < FSSIZE" "ls < FSSIZE"
    and "i < length hs \<Longrightarrow> slot_of ls j \<noteq> hs ! i" and "hs ! j \<noteq> ls" and "slot_of ls j \<noteq> ls"
    and "slot_of ls j \<in> {ls..<ls + of_nat LOGSIZE}"
    and "i < length hs \<Longrightarrow> slot_of ls i = slot_of ls j \<longleftrightarrow> i = j"
proof -
  have b: "unat ls + LOGSIZE < 1000" "length hs < LOGSIZE"
    using assms(1) by (simp_all add: log_ok_def FSSIZE_def)
  have u: "unat (slot_of ls j) = unat ls + 1 + j" if "j < length hs" for j
  proof -
    have "slot_of ls j = of_nat (unat ls + Suc j)" by (simp add: slot_of_def)
    also have "unat \<dots> = unat ls + Suc j"
      using b that by (simp only: unat_of_nat) (simp add: take_bit_nat_eq_self_iff LOGSIZE_def MAXOPBLOCKS_def)
    finally show ?thesis by simp
  qed
  note top = log_ok_ls(1) [OF assms(1)]
  show "unat (slot_of ls j) = unat ls + 1 + j" using u assms(2) by blast
  then show "slot_of ls j < FSSIZE" "slot_of ls j \<noteq> ls"
    using b assms(2) by (auto simp: word_less_nat_alt FSSIZE_def)
  show "ls < FSSIZE" using log_ok_ls(3) [OF assms(1)] .
  show "hs ! j < FSSIZE" using assms by (simp add: log_ok_def)
  show s: "slot_of ls j \<in> {ls..<ls + of_nat LOGSIZE}"
    using u [OF assms(2)] top b assms(2) by (simp add: word_le_nat_alt word_less_nat_alt)
  show "slot_of ls j \<noteq> hs ! i" if "i < length hs"
    using s assms(1) that by (auto simp: log_ok_def)
  show "hs ! j \<noteq> ls" using assms log_ok_ls(2) [OF assms(1)] by (auto simp: log_ok_def)
  show "slot_of ls i = slot_of ls j \<longleftrightarrow> i = j" if "i < length hs"
    using u [OF that] u [OF assms(2)] by (metis add_left_cancel)
qed

text \<open>The log of a state: where it starts, on which device it is, and the blocks in it.\<close>

definition klog_is :: "u32 \<Rightarrow> u32 list \<Rightarrow> 'a logst_scheme \<Rightarrow> bool" where
  "klog_is ls hs s \<longleftrightarrow> log_dev s = 1 \<and> head_block s = ls \<and> lh_n (klog s) = int (length hs)
     \<and> map word_of_int (take (length hs) (lh_block (klog s))) = hs"

lemma klog_is_props:
  assumes "klog_is ls hs s" and "j < length hs"
  shows "log_slot j s = slot_of ls j" "log_home j s = hs ! j"
proof -
  have "map word_of_int (take (length hs) (lh_block (klog s))) ! j = hs ! j"
    using assms by (simp add: klog_is_def)
  moreover have "length (take (length hs) (lh_block (klog s))) = length hs"
    using assms(1) unfolding klog_is_def by (metis length_map)
  ultimately show "log_home j s = hs ! j" using assms(2) by (simp add: log_home_def)
  show "log_slot j s = slot_of ls j"
    using assms(1) by (simp add: klog_is_def log_slot_def slot_of_def head_block_def)
qed

lemma copy_loop_safe:
  fixes s :: "'a logst_scheme"
  assumes ok: "log_ok ls hs"
    and src: "src = (if fwd then slot_of ls else nth hs)" and dst: "dst = (if fwd then nth hs else slot_of ls)"
  shows "tail + k = LOGSIZE \<Longrightarrow> tail \<le> length hs \<Longrightarrow> bwf i {} s \<Longrightarrow> klog_is ls hs s \<Longrightarrow> card (pinned s) < NBUF \<Longrightarrow>
    \<forall>j. tail \<le> j \<and> j < length hs \<longrightarrow> hs ! j \<in> pinned s \<or> card (pinned s) + 1 < NBUF \<Longrightarrow>
    (\<And>m. tail \<le> m \<Longrightarrow> m \<le> length hs \<Longrightarrow> P (upd_all dst (cview s \<circ> src) [tail..<m] (disk s 1))) \<Longrightarrow>
    safe (\<lambda>t. P (disk t 1)) (quiet i) (copy_loop fwd k tail s)
      (\<lambda>_ t. bwf i {} t \<and> cview t = upd_all dst (cview s \<circ> src) [tail..<length hs] (cview s)
        \<and> disk t 1 = upd_all dst (cview s \<circ> src) [tail..<length hs] (disk s 1)
        \<and> pinned t = pinned s - dst ` {tail..<length hs} \<and> bst.more t = bst.more s)"
proof (induction k arbitrary: tail s)
  case 0
  then have "tail = length hs" "int tail = lh_n (klog s)" using ok by (auto simp: log_ok_def klog_is_def)
  then show ?case using 0 by simp
next
  case (Suc k)
  show ?case
  proof (cases "tail < length hs")
    case False
    then have "tail = length hs" "\<not> int tail < lh_n (klog s)" using Suc.prems by (auto simp: klog_is_def)
    then show ?thesis using Suc.prems by simp
  next
    case True
    note pr = slot_of_props [OF ok True] and kp = klog_is_props [OF Suc.prems(4) True]
    have lt: "int tail < lh_n (klog s)" and dev: "log_dev s = 1"
      using True Suc.prems(4) by (simp_all add: klog_is_def)
    have up: "[tail..<m] = tail # [Suc tail..<m]" if "Suc tail \<le> m" for m using that by (simp add: upt_conv_Cons)
    have first: "P (disk s 1)" "P ((disk s 1)(dst tail := cview s (src tail)))"
      using Suc.prems(7) [of tail] Suc.prems(7) [of "Suc tail"] True by (simp_all add: fun_upd_def)
    have "safe (\<lambda>t. P (disk t 1)) (quiet i) (copy_iter fwd tail s) (\<lambda>_ t. copied i (src tail) (dst tail) s t)"
      by (rule copy_iter_safe [where P = "\<lambda>D. P (D 1)" and a = "slot_of ls tail" and b = "hs ! tail"])
        (use Suc.prems dev kp pr True first in \<open>auto simp: src dst disk_write_def\<close>)
    moreover have "safe (\<lambda>t. P (disk t 1)) (quiet i) (copy_loop fwd k (tail + 1) t)
      (\<lambda>_ t. bwf i {} t \<and> cview t = upd_all dst (cview s \<circ> src) [tail..<length hs] (cview s)
        \<and> disk t 1 = upd_all dst (cview s \<circ> src) [tail..<length hs] (disk s 1)
        \<and> pinned t = pinned s - dst ` {tail..<length hs} \<and> bst.more t = bst.more s)"
      if t: "copied i (src tail) (dst tail) s t" for t
    proof -
      have ct: "bwf i {} t" "cview t = (cview s)(dst tail := cview s (src tail))"
        "disk t 1 = (disk s 1)(dst tail := cview s (src tail))" "pinned t = pinned s - {dst tail}"
        "bst.more t = bst.more s"
        using t by (simp_all add: copied_def disk_write_def)
      have kt: "klog_is ls hs t" using Suc.prems(4) klog_more [OF ct(5)] by (simp add: klog_is_def)
      have fin: "finite (pinned s)" by (simp add: pinned_def dirty_set_def)
      have cd: "card (pinned t) \<le> card (pinned s)" using fin by (simp add: ct(4) card_Diff1_le)
      have ne: "src j \<noteq> dst tail" if "j < length hs" for j
        using slot_of_props(5) [OF ok that True] slot_of_props(5) [OF ok True that] by (auto simp: src dst)
      have nt: "hs ! j \<noteq> dst tail \<or> fwd \<and> j = tail" if "j < length hs" for j
        using that True ok slot_of_props(5) [OF ok True that] by (auto simp: dst log_ok_def nth_eq_iff_index_eq)
      have room: "\<forall>j. Suc tail \<le> j \<and> j < length hs \<longrightarrow> hs ! j \<in> pinned t \<or> card (pinned t) + 1 < NBUF"
        using Suc.prems(6) cd nt unfolding ct(4) by fastforce
      have eq: "upd_all dst (cview t \<circ> src) [Suc tail..<m] M = upd_all dst (cview s \<circ> src) [Suc tail..<m] M"
        if "m \<le> length hs" for m M
        unfolding upd_all_def using ne that by (intro fold_cong) (auto simp: ct(2))
      have crash: "P (upd_all dst (cview t \<circ> src) [Suc tail..<m] (disk t 1))"
        if m: "Suc tail \<le> m" "m \<le> length hs" for m
        using Suc.prems(7) [OF Suc_leD [OF m(1)] m(2)] unfolding eq [OF m(2)] ct(3) up [OF m(1)]
        by (simp add: o_def)
      have "safe (\<lambda>t. P (disk t 1)) (quiet i) (copy_loop fwd k (Suc tail) t)
        (\<lambda>_ u. bwf i {} u \<and> cview u = upd_all dst (cview t \<circ> src) [Suc tail..<length hs] (cview t)
          \<and> disk u 1 = upd_all dst (cview t \<circ> src) [Suc tail..<length hs] (disk t 1)
          \<and> pinned u = pinned t - dst ` {Suc tail..<length hs} \<and> bst.more u = bst.more t)"
        using True Suc.prems(1,5) cd by (intro Suc.IH room ct(1) kt crash) simp_all
      moreover have "pinned t - dst ` {Suc tail..<length hs} = pinned s - dst ` {tail..<length hs}"
      proof -
        have "{tail..<length hs} = insert tail {Suc tail..<length hs}" using True by auto
        then show ?thesis by (auto simp: ct(4))
      qed
      ultimately show ?thesis
        using eq up [of "length hs"] True by (simp add: ct)
    qed
    ultimately show ?thesis unfolding copy_loop.simps if_P [OF lt] by (rule safe_bind)
  qed
qed

section \<open>The header block\<close>

definition head_bytes :: "u32 list \<Rightarrow> block \<Rightarrow> block" where
  "head_bytes hs b = put_words 4 hs (put32 0 (of_nat (length hs)) b)"

definition head_homes :: "block \<Rightarrow> u32 list" where
  "head_homes b = get_words 4 (nat (sint (get32 b 0))) b"

lemma sint_small: "n \<le> LOGSIZE \<Longrightarrow> sint (of_nat n :: u32) = int n"
  by (simp add: LOGSIZE_def MAXOPBLOCKS_def sint_uint unsigned_of_nat signed_take_bit_int_eq_self
      take_bit_nat_eq_self)

lemma head_bytes_props:
  assumes "length b = BSIZE" and "length hs \<le> LOGSIZE"
  shows "length (head_bytes hs b) = BSIZE" "sint (get32 (head_bytes hs b) 0) = int (length hs)"
    "head_homes (head_bytes hs b) = hs"
proof -
  have l: "4 + 4 * length hs \<le> length (put32 0 (of_nat (length hs)) b)"
    using assms by (simp add: BSIZE_def LOGSIZE_def MAXOPBLOCKS_def)
  show "length (head_bytes hs b) = BSIZE" using assms by (simp add: head_bytes_def)
  show n: "sint (get32 (head_bytes hs b) 0) = int (length hs)"
    using l assms by (simp add: head_bytes_def get_put_words_other sint_small BSIZE_def)
  show "head_homes (head_bytes hs b) = hs"
    using get_words_put_words [OF l refl] n by (simp add: head_homes_def head_bytes_def)
qed

lemma write_head_safe:
  fixes s :: "'a logst_scheme"
  assumes wf: "bwf i {} s" and k: "klog_is ls hs s" and ls: "ls < FSSIZE" "length hs \<le> LOGSIZE"
    and pin: "card (pinned s) < NBUF" "ls \<notin> pinned s" "length (disk s 1 ls) = BSIZE"
    and P: "P (disk s 1)" "P ((disk s 1)(ls := head_bytes hs (disk s 1 ls)))"
  shows "safe (\<lambda>t. P (disk t 1)) (quiet i) (write_head s)
    (\<lambda>_ t. bwf i {} t \<and> cview t = (cview s)(ls := head_bytes hs (disk s 1 ls))
      \<and> disk t 1 = (disk s 1)(ls := head_bytes hs (disk s 1 ls)) \<and> pinned t = pinned s \<and> bst.more t = bst.more s)"
    (is "safe _ _ _ ?Q")
proof -
  have k': "log_dev s = 1" "head_block s = ls" using k by (simp_all add: klog_is_def)
  show ?thesis
    unfolding write_head_def k'
  proof (rule safe_bind [OF bread_safe [where P = "\<lambda>D. P (D 1)"]])
    fix b u assume b: "bread_post i {} ls s b u"
    note pb = b [unfolded bread_post_def, simplified]
    have m: "bst.more u = bst.more s" using pb by blast
    have dat: "b_data (bufs u ! b) = disk s 1 ls" using pb cview_unpinned [OF wf pin(2)] by simp
    let ?h = "head_bytes hs (disk s 1 ls)"
    let ?u = "set_data b ?h u"
    have key: "bwf i {b} u" "b \<in> {b}" "cached ls (bufs u ! b)" using pb by blast+
    note ud = bwf_data [OF key, of ?h, folded set_data_def]
    have lu: "b < length (bufs u)" using pb bwf_simps(3) [OF key(1)] by simp
    have cu: "cached ls (bufs ?u ! b)" "b_data (bufs ?u ! b) = ?h" "disk ?u = disk s" "bst.more ?u = bst.more s"
      using key(3) lu pb by (simp_all add: set_data_def cached_def)
    have "safe (\<lambda>t. P (disk t 1)) (quiet i) (rbind (bwrite b ?u) (\<lambda>_. brelse b)) ?Q"
    proof (rule safe_bind [OF bwrite_safe [OF ud(1) key(2) cu(1) ls(1), where P = "\<lambda>D. P (D 1)"]])
      fix w
      assume w: "bwf i {b} w \<and> cview w = cview ?u \<and> disk w = disk_write 1 ls (b_data (bufs ?u ! b)) (disk ?u)
        \<and> pinned w = pinned ?u - {ls} \<and> bst.more w = bst.more ?u
        \<and> bufs w = (bufs ?u)[b := (bufs ?u ! b)\<lparr>b_dirty := False, b_qnext := None\<rparr>]
        \<and> map p_pid (procs w) = map p_pid (procs ?u)"
      then have wb: "b_data (bufs w ! b) = ?h" "b_blockno (bufs w ! b) = ls"
        using cu(1,2) lu by (simp_all add: set_data_def cached_def)
      obtain w' where w': "brelse b w = Ok () w'" "bwf i ({b} - {b}) w'" "cview w' = cview w" "disk w' = disk w"
        "pinned w' = pinned w" "bst.more w' = bst.more w"
      proof (rule brelse_ok [of i "{b}" w b])
        show "b_dirty (bufs w ! b) \<or> b_data (bufs w ! b) = disk w 1 (b_blockno (bufs w ! b))"
          using w wb cu by simp
      qed (use w in simp_all)
      have "cview u = cview s" "pinned u = pinned s" using pb by (simp_all add: fun_eq_iff)
      then have "?Q () w'"
        using w'(2-6) w ud(2,3) pin(2) cu(2-4) by (simp add: disk_write_def)
      then show "safe (\<lambda>t. P (disk t 1)) (quiet i) (brelse b w) ?Q" using w'(1) by simp
    qed (use P(2) cu in \<open>simp add: disk_write_def\<close>)
    moreover have "lh_n (klog u) = int (length hs)" "map word_of_int (take (length hs) (lh_block (klog u))) = hs"
      using k klog_more(1) [OF m] by (simp_all add: klog_is_def)
    ultimately show "safe (\<lambda>t. P (disk t 1)) (quiet i)
      (let n = lh_n (klog u); hb = b_data (bufs u ! b) in
       if n > int LOGSIZE then Panic ''bounds''
       else rbind (bwrite b (set_data b (put_words 4 (map word_of_int (take (nat n) (lh_block (klog u))))
                     (put32 0 (word_of_int n) hb)) u)) (\<lambda>_ s. brelse b s)) ?Q"
      using ls(2) by (simp add: dat head_bytes_def)
  qed (use wf ls pin P in simp_all)
qed

section \<open>Recovery\<close>

text \<open>What a disk holds after recovery: every logged block has its logged contents.\<close>

definition recovered :: "u32 \<Rightarrow> (u32 \<Rightarrow> block) \<Rightarrow> u32 \<Rightarrow> block" where
  "recovered ls D = (let hs = head_homes (D ls) in upd_all (nth hs) (D \<circ> slot_of ls) [0..<length hs] D)"

definition home_eq :: "u32 \<Rightarrow> (u32 \<Rightarrow> block) \<Rightarrow> (u32 \<Rightarrow> block) \<Rightarrow> bool" where
  "home_eq ls D E \<longleftrightarrow> (\<forall>k. k \<notin> {ls..<ls + of_nat LOGSIZE} \<longrightarrow> D k = E k)"

lemma recovered_clean: "head_homes (D ls) = [] \<Longrightarrow> recovered ls D = D"
  by (simp add: recovered_def)

lemma upd_all_homes:
  assumes "log_ok ls hs"
  shows "m \<le> length hs \<Longrightarrow> j < m \<Longrightarrow> upd_all (nth hs) v [0..<m] D (hs ! j) = v j"
    and "m \<le> length hs \<Longrightarrow> (\<And>j. j < m \<Longrightarrow> k \<noteq> hs ! j) \<Longrightarrow> upd_all (nth hs) v [0..<m] D k = D k"
proof -
  assume m: "m \<le> length hs"
  have "inj_on (nth hs) {0..<m}"
    using assms m by (auto simp: log_ok_def inj_on_def nth_eq_iff_index_eq)
  then show "upd_all (nth hs) v [0..<m] D (hs ! j) = v j" if "j < m"
    using that by (intro upd_all_same) auto
  show "upd_all (nth hs) v [0..<m] D k = D k" if "\<And>j. j < m \<Longrightarrow> k \<noteq> hs ! j"
    using that by (intro upd_all_other) fastforce
qed

text \<open>
  The disk \<open>E\<close> has the log of \<open>D\<close>, and its home blocks are those of \<open>D\<close> but for some
  that already have their logged contents: then it recovers to the same.
\<close>

lemma recovered_partial:
  assumes ok: "log_ok ls hs" and hs: "head_homes (D ls) = hs" and m: "m \<le> length hs"
  shows "home_eq ls (recovered ls (upd_all (nth hs) (D \<circ> slot_of ls) [0..<m] D)) (recovered ls D)"
proof -
  let ?E = "upd_all (nth hs) (D \<circ> slot_of ls) [0..<m] D"
  have head: "?E ls = D ls"
    using slot_of_props(6) [OF ok] m by (intro upd_all_homes(2) [OF ok m]) (metis less_le_trans)
  have slot: "?E (slot_of ls j) = D (slot_of ls j)" if "j < length hs" for j
    using slot_of_props(5) [OF ok that] m by (intro upd_all_homes(2) [OF ok m]) (metis less_le_trans)
  have "recovered ls ?E k = recovered ls D k" for k
  proof (cases "k \<in> set hs")
    case True
    then obtain j where "j < length hs" "k = hs ! j" by (auto simp: in_set_conv_nth)
    then show ?thesis by (simp add: recovered_def Let_def head hs upd_all_homes(1) [OF ok order_refl] slot)
  next
    case False
    then have n: "k \<noteq> hs ! j" if "j < length hs" for j using that by auto
    then have "upd_all (nth hs) v [0..<length hs] M k = M k" for v and M :: "u32 \<Rightarrow> block"
      by (intro upd_all_homes(2) [OF ok order_refl])
    moreover have "?E k = D k" using n m by (intro upd_all_homes(2) [OF ok m]) (metis less_le_trans)
    ultimately show ?thesis by (simp add: recovered_def Let_def head hs)
  qed
  then show ?thesis by (simp add: home_eq_def)
qed

lemma recovered_all:
  assumes ok: "log_ok ls hs" and hs: "head_homes (D ls) = hs"
  shows "recovered ls D = upd_all (nth hs) (D \<circ> slot_of ls) [0..<length hs] D"
  by (simp add: recovered_def hs)

lemma lh_n_klog_is:
  assumes "klog_is ls hs s"
  shows "klog_is ls [] (upd_log (\<lambda>l. l\<lparr>lh_n := 0\<rparr>) s)"
  using assms by (simp add: klog_is_def upd_log_def log_dev_def head_block_def)

lemma upd_log_simps [simp]:
  "bwf i L (upd_log f s) = bwf i L s" "cview (upd_log f s) = cview s" "disk (upd_log f s) = disk s"
  "pinned (upd_log f s) = pinned s" "bufs (upd_log f s) = bufs s" "held (upd_log f s) = held s"
  "klog (upd_log f s) = f (klog s)" "logst.more (upd_log f s) = logst.more s"
  by (simp_all add: upd_log_def bwf_def cview_def pinned_def dirty_set_def io_ready_def has_slk_def runs_def
      on_cpu_def fun_eq_iff split: option.split)

text \<open>Installing a log and clearing it, the part that recovery and commit share.\<close>

lemma install_clear_safe:
  fixes s :: "'a logst_scheme"
  assumes wf: "bwf i {} s" and ok: "log_ok ls hs" and k: "klog_is ls hs s" and hs: "head_homes (disk s 1 ls) = hs"
    and slots: "\<And>j. j < length hs \<Longrightarrow> cview s (slot_of ls j) = disk s 1 (slot_of ls j)"
    and pin: "pinned s \<subseteq> set hs" "card (pinned s) < NBUF"
      "\<forall>j<length hs. hs ! j \<in> pinned s \<or> card (pinned s) + 1 < NBUF"
    and len: "length (disk s 1 ls) = BSIZE"
    and R: "\<And>E. home_eq ls (recovered ls E) (recovered ls (disk s 1)) \<Longrightarrow> P E"
  shows "safe (\<lambda>t. P (disk t 1)) (quiet i)
      (rbind (install_trans s) (\<lambda>_ s. write_head (upd_log (\<lambda>l. l\<lparr>lh_n := 0\<rparr>) s)))
      (\<lambda>_ t. bwf i {} t \<and> home_eq ls (disk t 1) (recovered ls (disk s 1)) \<and> head_homes (disk t 1 ls) = []
        \<and> pinned t = {} \<and> lh_n (klog t) = 0 \<and> logst.more t = logst.more s)"
proof -
  let ?D = "disk s 1" and ?v = "cview s \<circ> slot_of ls"
  have v: "upd_all (nth hs) ?v [0..<m] M = upd_all (nth hs) (?D \<circ> slot_of ls) [0..<m] M" if "m \<le> length hs" for m M
    unfolding upd_all_def using that slots by (intro fold_cong) auto
  have cr: "P (upd_all (nth hs) ?v [0..<m] ?D)" if "m \<le> length hs" for m
    unfolding v [OF that] by (intro R recovered_partial ok hs that)
  have "safe (\<lambda>t. P (disk t 1)) (quiet i) (copy_loop True LOGSIZE 0 s)
      (\<lambda>_ t. bwf i {} t \<and> cview t = upd_all (nth hs) ?v [0..<length hs] (cview s)
        \<and> disk t 1 = upd_all (nth hs) ?v [0..<length hs] (disk s 1)
        \<and> pinned t = pinned s - nth hs ` {0..<length hs} \<and> bst.more t = bst.more s)"
    by (rule copy_loop_safe [OF ok]) (use wf k pin cr in simp_all)
  then show ?thesis
    unfolding install_trans_def copy_loop_install
  proof (rule safe_bind)
    fix t
    assume t: "bwf i {} t \<and> cview t = upd_all (nth hs) ?v [0..<length hs] (cview s)
        \<and> disk t 1 = upd_all (nth hs) ?v [0..<length hs] (disk s 1)
        \<and> pinned t = pinned s - nth hs ` {0..<length hs} \<and> bst.more t = bst.more s"
    let ?t = "upd_log (\<lambda>l. l\<lparr>lh_n := 0\<rparr>) t"
    have dt: "disk t 1 = recovered ls ?D" using t v [OF order_refl] recovered_all [of ls hs ?D, OF ok hs] by simp
    have pt: "pinned t = {}" using t pin(1) by (auto simp: in_set_conv_nth subset_iff)
    have kt: "klog_is ls [] ?t"
      using k klog_more [of t s] t by (intro lh_n_klog_is [of ls hs]) (simp add: klog_is_def)
    have len_r: "length (recovered ls ?D ls) = BSIZE"
      using slot_of_props(6) [OF ok] len unfolding recovered_all [of ls hs ?D, OF ok hs]
      by (subst upd_all_homes(2) [OF ok order_refl]) auto
    then have hp: "head_homes (head_bytes [] (recovered ls ?D ls)) = []"
      by (intro head_bytes_props) simp_all
    let ?E = "(recovered ls ?D)(ls := head_bytes [] (recovered ls ?D ls))"
    have eq: "home_eq ls ?E (recovered ls ?D)" using log_ok_ls(2) [OF ok] by (auto simp: home_eq_def)
    have pe: "P ?E" by (rule R) (simp only: recovered_clean [of ?E ls, simplified, OF hp] eq)
    show "safe (\<lambda>t. P (disk t 1)) (quiet i) (write_head ?t)
      (\<lambda>_ t. bwf i {} t \<and> home_eq ls (disk t 1) (recovered ls ?D) \<and> head_homes (disk t 1 ls) = []
        \<and> pinned t = {} \<and> lh_n (klog t) = 0 \<and> logst.more t = logst.more s)"
    proof (rule safe_mono [OF write_head_safe [OF _ kt]])
      show "ls < FSSIZE" using log_ok_ls(3) [OF ok] .
      show "P (disk ?t 1)" using cr [OF order_refl] t by simp
      show "P ((disk ?t 1)(ls := head_bytes [] (disk ?t 1 ls)))" using pe dt by simp
      fix u
      assume "bwf i {} u \<and> cview u = (cview ?t)(ls := head_bytes [] (disk ?t 1 ls))
        \<and> disk u 1 = (disk ?t 1)(ls := head_bytes [] (disk ?t 1 ls)) \<and> pinned u = pinned ?t \<and> bst.more u = bst.more ?t"
      then show "bwf i {} u \<and> home_eq ls (disk u 1) (recovered ls ?D) \<and> head_homes (disk u 1 ls) = []
        \<and> pinned u = {} \<and> lh_n (klog u) = 0 \<and> logst.more u = logst.more s"
        using klog_more(1,6) [of u ?t] klog_more(6) [of t s] t dt pt eq hp by simp
    qed (use t pt dt len_r in \<open>simp_all add: NBUF_def\<close>)
  qed
qed

lemma read_head_safe:
  fixes s :: "'a logst_scheme"
  assumes wf: "bwf i {} s" and d: "log_dev s = 1" "head_block s = ls" "ls < FSSIZE" and pin: "pinned s = {}"
    and hd: "head_homes (disk s 1 ls) = hs" "0 \<le> sint (get32 (disk s 1 ls) 0)" "length hs \<le> LOGSIZE"
    and P: "P (disk s 1)"
  shows "safe (\<lambda>t. P (disk t 1)) (quiet i) (read_head s)
    (\<lambda>_ t. bwf i {} t \<and> cview t = cview s \<and> disk t = disk s \<and> pinned t = {} \<and> klog_is ls hs t
      \<and> logst.more t = logst.more s)"
  unfolding read_head_def d(1,2)
proof (rule safe_bind [OF bread_safe [where P = "\<lambda>D. P (D 1)"]])
  fix b u assume b: "bread_post i {} ls s b u"
  note pb = b [unfolded bread_post_def, simplified]
  have m: "bst.more u = bst.more s" using pb by blast
  have dat: "b_data (bufs u ! b) = disk s 1 ls" using pb cview_unpinned [OF wf, of ls] pin by simp
  have n: "sint (get32 (disk s 1 ls) 0) = int (length hs)"
    using hd(1,2) by (auto simp: head_homes_def get_words_def)
  define f where "f = (\<lambda>l :: log. l\<lparr>lh_n := int (length hs), lh_block := map sint hs @ drop (length hs) (lh_block l)\<rparr>)"
  let ?u = "upd_log f u"
  have coh: "b_dirty (bufs ?u ! b) \<or> b_data (bufs ?u ! b) = disk ?u 1 (b_blockno (bufs ?u ! b))"
    using pb dat by (simp add: cached_def)
  have "bwf i {b} ?u" using pb by simp
  from brelse_ok [OF this _ coh] obtain w where w: "brelse b ?u = Ok () w" "bwf i ({b} - {b}) w" "cview w = cview ?u"
    "disk w = disk ?u" "pinned w = pinned ?u" "bst.more w = bst.more ?u" by (metis insertI1)
  have "klog_is ls hs w"
    using klog_more [OF w(6)] klog_more [OF m] d
    by (simp add: klog_is_def f_def log_dev_def head_block_def o_def)
  moreover have "logst.more w = logst.more s" using klog_more(6) [OF w(6)] klog_more(6) [OF m] by simp
  moreover have "cview u = cview s" using pb by auto
  ultimately have "bwf i {} w \<and> cview w = cview s \<and> disk w = disk s \<and> pinned w = {} \<and> klog_is ls hs w
      \<and> logst.more w = logst.more s"
    using w pb pin by simp
  then show "safe (\<lambda>t. P (disk t 1)) (quiet i)
    (let lh = b_data (bufs u ! b); n = sint (get32 lh 0) in
       if n > int LOGSIZE then Panic ''bounds''
       else brelse b (upd_log (\<lambda>l. l\<lparr>lh_n := n,
         lh_block := map (\<lambda>w. sint w) (get_words 4 (nat n) lh) @ drop (nat n) (lh_block l)\<rparr>) u))
    (\<lambda>_ t. bwf i {} t \<and> cview t = cview s \<and> disk t = disk s \<and> pinned t = {} \<and> klog_is ls hs t
      \<and> logst.more t = logst.more s)"
    using hd(1,3) w(1) n by (simp add: dat head_homes_def f_def)
qed (use wf d pin P in \<open>simp_all add: NBUF_def\<close>)

text \<open>
  C2. Recovery can itself be interrupted by a crash: at every point of \<^verbatim>\<open>recover_from_log\<close> at
  which the CPU is given up, the disk still recovers to the same contents; and when it
  returns, the disk has these contents and an empty log. The header must name distinct home
  blocks outside the log, as \<^verbatim>\<open>write_head\<close> leaves it.
\<close>

theorem recover_from_log_idempotent:
  fixes s :: "'a logst_scheme"
  assumes "bwf i {} s" and "pinned s = {}" and "log_dev s = 1" and "head_block s = ls"
    and "log_ok ls (head_homes (disk s 1 ls))" and "0 \<le> sint (get32 (disk s 1 ls) 0)"
    and "length (disk s 1 ls) = BSIZE"
  shows "safe (\<lambda>t. home_eq ls (recovered ls (disk t 1)) (recovered ls (disk s 1))) (quiet i) (recover_from_log s)
    (\<lambda>_ t. bwf i {} t \<and> home_eq ls (disk t 1) (recovered ls (disk s 1)) \<and> head_homes (disk t 1 ls) = []
      \<and> pinned t = {} \<and> lh_n (klog t) = 0 \<and> logst.more t = logst.more s)"
  unfolding recover_from_log_def
proof (rule safe_bind [OF read_head_safe [where P = "\<lambda>D. home_eq ls (recovered ls D) (recovered ls (disk s 1))"]])
  note ok = assms(5)
  let ?hs = "head_homes (disk s 1 ls)"
  show "ls < FSSIZE" using log_ok_ls(3) [OF ok] .
  show "home_eq ls (recovered ls (disk s 1)) (recovered ls (disk s 1))" by (simp add: home_eq_def)
  fix t
  assume t: "bwf i {} t \<and> cview t = cview s \<and> disk t = disk s \<and> pinned t = {} \<and> klog_is ls ?hs t
    \<and> logst.more t = logst.more s"
  have "cview t k = disk t 1 k" for k using t cview_unpinned [of i t k] by simp
  then have "safe (\<lambda>t. home_eq ls (recovered ls (disk t 1)) (recovered ls (disk s 1))) (quiet i)
      (rbind (install_trans t) (\<lambda>_ s. write_head (upd_log (\<lambda>l. l\<lparr>lh_n := 0\<rparr>) s)))
      (\<lambda>_ u. bwf i {} u \<and> home_eq ls (disk u 1) (recovered ls (disk t 1)) \<and> head_homes (disk u 1 ls) = []
        \<and> pinned u = {} \<and> lh_n (klog u) = 0 \<and> logst.more u = logst.more t)"
    using t ok assms(7) by (intro install_clear_safe [where hs = ?hs]) (simp_all add: NBUF_def)
  then show "safe (\<lambda>t. home_eq ls (recovered ls (disk t 1)) (recovered ls (disk s 1))) (quiet i)
      (rbind (install_trans t) (\<lambda>_ s. write_head (upd_log (\<lambda>l. l\<lparr>lh_n := 0\<rparr>) s)))
      (\<lambda>_ u. bwf i {} u \<and> home_eq ls (disk u 1) (recovered ls (disk s 1)) \<and> head_homes (disk u 1 ls) = []
        \<and> pinned u = {} \<and> lh_n (klog u) = 0 \<and> logst.more u = logst.more s)"
    using t by simp
qed (use assms in \<open>simp_all add: log_ok_def\<close>)

text \<open>
  Two states for the witnesses, with the log at block 2: \<open>crashed\<close> is a machine that boots with
  block 500 committed but not installed; \<open>loaded\<close> has block 500 changed in the cache only.
\<close>

definition log_of :: "int list \<Rightarrow> log" where
  "log_of ws = \<lparr>lh_n = int (length ws), lh_block = ws @ replicate (LOGSIZE - length ws) 0, lg_start = 2,
     lg_size = 30, lg_outstanding = 0, lg_committing = True, lg_dev = 1\<rparr>"

definition crashed :: logst where
  "crashed = bst.extend (boot_bst\<lparr>disk := disk_write 1 2 (head_bytes [500] (replicate BSIZE 0))
     (disk_write 1 3 (replicate BSIZE 7) (\<lambda>_ _. replicate BSIZE 0))\<rparr>) \<lparr>klog = log_of []\<rparr>"

definition loaded :: logst where
  "loaded = bst.extend (boot_bst\<lparr>bufs := (bufs boot_bst)[0 := (bufs boot_bst ! 0)\<lparr>b_valid := True, b_dirty := True,
     b_dev := 1, b_blockno := 500, b_data := replicate BSIZE 7\<rparr>]\<rparr>) \<lparr>klog = log_of [500]\<rparr>"

lemma log_ok_500: "log_ok 2 [500]"
proof -
  have "\<not> 500 \<le> (2 :: u32) + of_nat LOGSIZE" by (simp add: LOGSIZE_def MAXOPBLOCKS_def)
  then show ?thesis by (simp add: log_ok_def LOGSIZE_def MAXOPBLOCKS_def FSSIZE_def)
qed

lemma bwf_extend:
  "bwf i L (bst.extend s x) = bwf i L s" "pinned (bst.extend s x) = pinned s" "disk (bst.extend s x) = disk s"
  "bufs (bst.extend s x) = bufs s"
  by (cases s; simp add: bwf_def io_ready_def has_slk_def runs_def on_cpu_def pinned_def dirty_set_def bst.defs)+

lemma crashed_wf: "bwf 0 {} crashed" "pinned crashed = {}"
proof -
  show "bwf 0 {} crashed"
    using boot_bwf boot_empty unfolding crashed_def bwf_extend
    by (simp add: bwf_def io_ready_def runs_def on_cpu_def)
  show "pinned crashed = {}" unfolding crashed_def bwf_extend using boot_pinned by (simp add: pinned_def dirty_set_def)
qed

theorem recover_from_log_idempotent_witness:
  "safe (\<lambda>t. home_eq 2 (recovered 2 (disk t 1)) (recovered 2 (disk crashed 1))) (quiet 0) (recover_from_log crashed)
    (\<lambda>_ t. bwf 0 {} t \<and> home_eq 2 (disk t 1) (recovered 2 (disk crashed 1)) \<and> head_homes (disk t 1 2) = []
      \<and> pinned t = {} \<and> lh_n (klog t) = 0 \<and> logst.more t = logst.more crashed)
   \<and> recovered 2 (disk crashed 1) 500 = replicate BSIZE 7"
proof -
  have d: "disk crashed 1 2 = head_bytes [500] (replicate BSIZE 0)" "disk crashed 1 3 = replicate BSIZE 7"
    unfolding crashed_def bwf_extend by simp_all
  have l: "length (replicate BSIZE (0::u8)) = BSIZE" "length [500::u32] \<le> LOGSIZE"
    by (simp_all add: LOGSIZE_def MAXOPBLOCKS_def)
  note h = head_bytes_props [OF l, folded d(1)]
  have k: "log_dev crashed = 1" "head_block crashed = 2"
    by (simp_all add: crashed_def bst.defs log_of_def log_dev_def head_block_def)
  have "recovered 2 (disk crashed 1) 500 = replicate BSIZE 7"
    by (simp add: recovered_def h slot_of_def d(2))
  moreover have "log_ok 2 (head_homes (disk crashed 1 2))" using log_ok_500 by (simp add: h)
  ultimately show ?thesis
    using recover_from_log_idempotent [OF crashed_wf k] h by simp
qed

section \<open>Commit\<close>

lemma upd_all_slots:
  assumes "log_ok ls hs"
  shows "m \<le> length hs \<Longrightarrow> j < m \<Longrightarrow> upd_all (slot_of ls) v [0..<m] D (slot_of ls j) = v j"
    and "m \<le> length hs \<Longrightarrow> (\<And>j. j < m \<Longrightarrow> k \<noteq> slot_of ls j) \<Longrightarrow> upd_all (slot_of ls) v [0..<m] D k = D k"
proof -
  assume m: "m \<le> length hs"
  have "inj_on (slot_of ls) {0..<m}"
    using slot_of_props(9) [OF assms] m by (auto simp: inj_on_def)
  then show "upd_all (slot_of ls) v [0..<m] D (slot_of ls j) = v j" if "j < m"
    using that by (intro upd_all_same) auto
  show "upd_all (slot_of ls) v [0..<m] D k = D k" if "\<And>j. j < m \<Longrightarrow> k \<noteq> slot_of ls j"
    using that by (intro upd_all_other) fastforce
qed

text \<open>Writing the log leaves the home blocks and the header alone.\<close>

lemma slots_frame:
  assumes "log_ok ls hs" and "m \<le> length hs"
  shows "upd_all (slot_of ls) v [0..<m] D ls = D ls" and "home_eq ls (upd_all (slot_of ls) v [0..<m] D) D"
proof -
  have j: "j < length hs" if "j < m" for j using that assms(2) by simp
  show "upd_all (slot_of ls) v [0..<m] D ls = D ls"
    by (rule upd_all_slots(2) [OF assms]) (use slot_of_props(7) [OF assms(1) j] in metis)
  have "upd_all (slot_of ls) v [0..<m] D k = D k" if "k \<notin> {ls..<ls + of_nat LOGSIZE}" for k
    by (rule upd_all_slots(2) [OF assms]) (use slot_of_props(8) [OF assms(1) j] that in metis)
  then show "home_eq ls (upd_all (slot_of ls) v [0..<m] D) D" by (simp add: home_eq_def)
qed

text \<open>The header makes the logged contents count.\<close>

lemma recovered_committed:
  assumes ok: "log_ok ls hs" and len: "length (D ls) = BSIZE"
    and C: "\<And>k. k \<notin> set hs \<Longrightarrow> C k = D k"
  defines "E \<equiv> (upd_all (slot_of ls) (C \<circ> nth hs) [0..<length hs] D)(ls := head_bytes hs (D ls))"
  shows "head_homes (E ls) = hs" and "home_eq ls (recovered ls E) C"
    and "\<And>j. j < length hs \<Longrightarrow> E (slot_of ls j) = C (hs ! j)"
proof -
  have l: "length hs \<le> LOGSIZE" using ok by (simp add: log_ok_def)
  show h: "head_homes (E ls) = hs" using head_bytes_props(3) [OF len l] by (simp add: E_def)
  show sl: "E (slot_of ls j) = C (hs ! j)" if "j < length hs" for j
    using slot_of_props(7) [OF ok that] by (simp add: E_def upd_all_slots(1) [OF ok order_refl that])
  have "recovered ls E k = C k" if k: "k \<notin> {ls..<ls + of_nat LOGSIZE}" for k
  proof (cases "k \<in> set hs")
    case True
    then obtain j where "j < length hs" "k = hs ! j" by (auto simp: in_set_conv_nth)
    then show ?thesis using sl by (simp add: recovered_def h upd_all_homes(1) [OF ok order_refl])
  next
    case False
    then have "upd_all (nth hs) v [0..<length hs] E k = E k" for v
      by (intro upd_all_homes(2) [OF ok order_refl]) auto
    then have "recovered ls E k = E k" by (simp add: recovered_def h)
    also have "\<dots> = D k"
      using k log_ok_ls(2) [OF ok] slots_frame(2) [OF ok order_refl] by (auto simp: E_def home_eq_def)
    finally show ?thesis using C [OF False] by simp
  qed
  then show "home_eq ls (recovered ls E) C" by (simp add: home_eq_def)
qed

text \<open>
  C1. A transaction is atomic: at every point of \<^verbatim>\<open>commit\<close> at which the CPU is given up, the
  disk recovers to the contents it had before the transaction or to all of the transaction's
  contents (the cached ones), and when \<^verbatim>\<open>commit\<close> returns the disk holds the latter and an empty
  log. The logged blocks are the pinned ones, fewer than the buffers of the cache.
\<close>

theorem commit_atomic:
  fixes s :: "'a logst_scheme"
  assumes wf: "bwf i {} s" and k: "klog_is ls hs s" and ok: "log_ok ls hs"
    and pin: "pinned s = set hs" and n: "length hs < NBUF"
    and hd: "head_homes (disk s 1 ls) = []" and len: "length (disk s 1 ls) = BSIZE"
  shows "safe (\<lambda>t. home_eq ls (recovered ls (disk t 1)) (disk s 1)
        \<or> home_eq ls (recovered ls (disk t 1)) (cview s)) (quiet i) (commit s)
    (\<lambda>_ t. bwf i {} t \<and> home_eq ls (disk t 1) (cview s) \<and> head_homes (disk t 1 ls) = []
      \<and> pinned t = {} \<and> lh_n (klog t) = 0 \<and> logst.more t = logst.more s)"
    (is "safe ?G _ _ ?Q")
proof (cases "hs = []")
  case True
  then have "pinned s = {}" "lh_n (klog s) = 0" using pin k by (simp_all add: klog_is_def)
  moreover from this have "cview s = disk s 1" using cview_unpinned [OF wf] by auto
  ultimately show ?thesis using wf hd by (simp add: commit_def home_eq_def)
next
  case False
  let ?D = "disk s 1" and ?C = "cview s" and ?n = "length hs"
  define P where "P = (\<lambda>E. home_eq ls (recovered ls E) ?D \<or> home_eq ls (recovered ls E) ?C)"
  let ?v = "?C \<circ> nth hs" and ?h = "head_bytes hs (?D ls)"
  have C: "?C j = ?D j" if "j \<notin> set hs" for j using cview_unpinned [OF wf] pin that by simp
  note rc = recovered_committed [of ls hs ?D ?C, OF ok len C]
  have crash1: "P (upd_all (slot_of ls) ?v [0..<m] ?D)" if "m \<le> ?n" for m
    using slots_frame [OF ok that] hd by (simp add: P_def recovered_clean)
  have card: "card (pinned s) < NBUF" using n pin card_length [of hs] by simp
  have nl: "ls \<notin> set hs" using log_ok_ls(2) [OF ok] ok by (auto simp: log_ok_def)
  have disj: "set hs - slot_of ls ` {0..<?n} = set hs"
    using slot_of_props(5) [OF ok] by (auto simp: in_set_conv_nth) metis
  have "safe (\<lambda>t. P (disk t 1)) (quiet i) (copy_loop False LOGSIZE 0 s)
      (\<lambda>_ t. bwf i {} t \<and> cview t = upd_all (slot_of ls) ?v [0..<?n] ?C
        \<and> disk t 1 = upd_all (slot_of ls) ?v [0..<?n] ?D
        \<and> pinned t = pinned s - slot_of ls ` {0..<?n} \<and> bst.more t = bst.more s)"
    by (rule copy_loop_safe [OF ok]) (use wf k pin card crash1 in simp_all)
  then have "safe (\<lambda>t. P (disk t 1)) (quiet i) (rbind (write_log s) (\<lambda>_ s. rbind (write_head s) (\<lambda>_ s.
      rbind (install_trans s) (\<lambda>_ s. write_head (upd_log (\<lambda>l. l\<lparr>lh_n := 0\<rparr>) s))))) ?Q"
    unfolding write_log_def copy_loop_write
  proof (rule safe_bind)
    fix t
    assume t: "bwf i {} t \<and> cview t = upd_all (slot_of ls) ?v [0..<?n] ?C
      \<and> disk t 1 = upd_all (slot_of ls) ?v [0..<?n] ?D
      \<and> pinned t = pinned s - slot_of ls ` {0..<?n} \<and> bst.more t = bst.more s"
    have kt: "klog_is ls hs t" using k t klog_more [of t s] by (simp add: klog_is_def)
    have dt: "disk t 1 ls = ?D ls" using t slots_frame(1) [OF ok order_refl] by simp
    have pt: "pinned t = set hs" using t pin disj by simp
    have crash2: "P ((disk t 1)(ls := ?h))" using rc(2) t by (simp add: P_def)
    show "safe (\<lambda>t. P (disk t 1)) (quiet i) (rbind (write_head t) (\<lambda>_ s.
        rbind (install_trans s) (\<lambda>_ s. write_head (upd_log (\<lambda>l. l\<lparr>lh_n := 0\<rparr>) s)))) ?Q"
    proof (rule safe_bind [OF write_head_safe [where P = P, OF _ kt]])
      show "P (disk t 1)" using t crash1 [OF order_refl] by simp
      show "P ((disk t 1)(ls := head_bytes hs (disk t 1 ls)))" using crash2 dt by simp
      fix u
      assume "bwf i {} u \<and> cview u = (cview t)(ls := head_bytes hs (disk t 1 ls))
        \<and> disk u 1 = (disk t 1)(ls := head_bytes hs (disk t 1 ls)) \<and> pinned u = pinned t \<and> bst.more u = bst.more t"
      then have u: "bwf i {} u" "cview u = (cview t)(ls := ?h)" "pinned u = set hs" "bst.more u = bst.more t"
        "disk u 1 = (upd_all (slot_of ls) ?v [0..<?n] ?D)(ls := ?h)"
        using t dt pt by simp_all
      have ku: "klog_is ls hs u" using kt klog_more [OF u(4)] by (simp add: klog_is_def)
      have "safe (\<lambda>t. P (disk t 1)) (quiet i)
        (rbind (install_trans u) (\<lambda>_ s. write_head (upd_log (\<lambda>l. l\<lparr>lh_n := 0\<rparr>) s)))
        (\<lambda>_ w. bwf i {} w \<and> home_eq ls (disk w 1) (recovered ls (disk u 1)) \<and> head_homes (disk w 1 ls) = []
          \<and> pinned w = {} \<and> lh_n (klog w) = 0 \<and> logst.more w = logst.more u)"
      proof (rule install_clear_safe [OF u(1) ok ku])
        show "head_homes (disk u 1 ls) = hs" using rc(1) u(5) by simp
        show "length (disk u 1 ls) = BSIZE" using u(5) head_bytes_props(1) [OF len] ok by (simp add: log_ok_def)
        show "cview u (slot_of ls j) = disk u 1 (slot_of ls j)" if "j < ?n" for j
          using u(2,5) t by (simp add: upd_all_slots(1) [OF ok order_refl that])
        show "P E" if "home_eq ls (recovered ls E) (recovered ls (disk u 1))" for E
          using that rc(2) u(5) by (simp add: P_def home_eq_def)
      qed (use u(3) card pin in simp_all)
      then show "safe (\<lambda>t. P (disk t 1)) (quiet i)
        (rbind (install_trans u) (\<lambda>_ s. write_head (upd_log (\<lambda>l. l\<lparr>lh_n := 0\<rparr>) s))) ?Q"
        by (rule safe_mono) (use rc(2) u(5) klog_more(6) [OF u(4)] klog_more(6) [of t s] t in \<open>auto simp: home_eq_def\<close>)
    qed (use t pt nl card pin dt len ok log_ok_ls(3) [OF ok] in \<open>simp_all add: log_ok_def\<close>)
  qed
  moreover have "lh_n (klog s) > 0" using k False by (simp add: klog_is_def)
  ultimately show ?thesis by (simp add: commit_def P_def)
qed

theorem commit_atomic_witness:
  "safe (\<lambda>t. home_eq 2 (recovered 2 (disk t 1)) (disk loaded 1)
        \<or> home_eq 2 (recovered 2 (disk t 1)) (cview loaded)) (quiet 0) (commit loaded)
    (\<lambda>_ t. bwf 0 {} t \<and> home_eq 2 (disk t 1) (cview loaded) \<and> head_homes (disk t 1 2) = []
      \<and> pinned t = {} \<and> lh_n (klog t) = 0 \<and> logst.more t = logst.more loaded)
   \<and> cview loaded 500 = replicate BSIZE 7"
proof -
  note w = bwf_simps [OF boot_bwf]
  let ?x = "(bufs boot_bst ! 0)\<lparr>b_valid := True, b_dirty := True, b_dev := 1, b_blockno := 500, b_data := replicate BSIZE 7\<rparr>"
  have N: "0 < NBUF" by (simp add: NBUF_def)
  obtain xs where xs: "ring (bufs boot_bst) xs" using boot_bwf by (auto simp: bwf_def)
  have r: "ring ((bufs boot_bst)[0 := ?x]) xs" using xs by (rule ring_upd) simp_all
  have u: "uniq ((bufs boot_bst)[0 := ?x])"
    using w(2,3) boot_empty by (intro uniq_upd) auto
  have z: "(bufs boot_bst)[0 := ?x] ! b = (if b = 0 then ?x else bufs boot_bst ! b)" for b
    using w(3) by (simp add: nth_list_update)
  have wf: "bwf 0 {} loaded"
    unfolding loaded_def bwf_extend(1) unfolding bwf_def
    using w(1,5,6,7) boot_empty r u N by (auto simp: z io_ready_def runs_def on_cpu_def)
  have p: "pinned loaded = {500}"
  proof -
    have "b_dirty ((bufs boot_bst)[0 := ?x] ! b) \<longleftrightarrow> b = 0" if "b < NBUF" for b
      using that w(7) [of b] boot_empty [of b] by (auto simp: z)
    then have "dirty_set loaded = {0}"
      unfolding loaded_def bwf_extend(4) dirty_set_def using N by (auto simp: bst.defs)
    then show ?thesis unfolding pinned_def by (simp add: loaded_def bwf_extend z)
  qed
  have k: "klog_is 2 [500] loaded"
    by (simp add: klog_is_def loaded_def bst.defs log_of_def log_dev_def head_block_def)
  have d: "disk loaded 1 2 = replicate BSIZE 0"
    unfolding loaded_def bwf_extend by (simp add: boot_disk)
  have "head_homes (disk loaded 1 2) = []"
    by (simp add: d head_homes_def get_words_def get32_def load4_def BSIZE_def)
  moreover have "cview loaded 500 = replicate BSIZE 7"
    using cview_cached [OF bwf_simps(2,3) [OF wf] N, of 500]
    by (simp add: loaded_def bwf_extend z cached_def)
  ultimately show ?thesis
    using commit_atomic [OF wf k log_ok_500] p d by (simp add: NBUF_def)
qed

end
