(* ===== verification/Blocks.thy ===== *)
theory Blocks
  imports Inode Crash
begin

text \<open>
  Transactions of the file system. Between \<^verbatim>\<open>begin_op\<close> and \<^verbatim>\<open>end_op\<close> a process changes blocks only in
  the cache and records them in the log. This theory states what that means as an invariant, with the
  set of the blocks that the transaction may log, and gives the contracts of \<^verbatim>\<open>log_write\<close>, \<^verbatim>\<open>bzero\<close>,
  \<^verbatim>\<open>balloc\<close>, \<^verbatim>\<open>bfree\<close> and \<^verbatim>\<open>iupdate\<close> over the current contents of the blocks.
\<close>

section \<open>The invariant\<close>

text \<open>
  The cache as a reader sees it: every block that is not pinned has its contents on the disk, and
  there is room for two more buffers.
\<close>

definition reading :: "nat \<Rightarrow> nat set \<Rightarrow> 'a bst_scheme \<Rightarrow> bool" where
  "reading i L s \<longleftrightarrow> bwf i L s \<and> (\<forall>k. k \<notin> pinned s \<longrightarrow> cview s k = disk s 1 k)
     \<and> card (pinned s) + 1 < NBUF \<and> (\<forall>k. length (cview s k) = BSIZE)"

text \<open>
  A transaction that may log the blocks \<open>K\<close>, none of them in the log at \<open>ls\<close>: the blocks in the log
  are the pinned ones.
\<close>

definition tx :: "nat \<Rightarrow> nat set \<Rightarrow> u32 \<Rightarrow> u32 set \<Rightarrow> 'a logst_scheme \<Rightarrow> bool" where
  "tx i L ls K s \<longleftrightarrow> reading i L s \<and> 1 \<le> lg_outstanding (klog s) \<and> int LOGSIZE \<le> lg_size (klog s)
     \<and> length (lh_block (klog s)) = LOGSIZE
     \<and> (\<exists>hs. klog_is ls hs s \<and> log_ok ls hs \<and> pinned s = set hs)
     \<and> pinned s \<subseteq> K \<and> finite K \<and> card K + 1 < LOGSIZE
     \<and> (\<forall>k\<in>K. k < FSSIZE \<and> k \<notin> {ls..<ls + of_nat LOGSIZE})"

text \<open>The buffers that the process has locked stay locked, for the same blocks.\<close>

definition keeps :: "nat set \<Rightarrow> 'a bst_scheme \<Rightarrow> 'a bst_scheme \<Rightarrow> bool" where
  "keeps L s t \<longleftrightarrow> (\<forall>c\<in>L. \<forall>k. cached k (bufs t ! c) = cached k (bufs s ! c))"

lemma keeps_refl [simp]: "keeps L s s"
  by (simp add: keeps_def)

lemma keeps_trans: "keeps L s t \<Longrightarrow> keeps L t u \<Longrightarrow> keeps L s u"
  by (simp add: keeps_def)

lemma keeps_mono: "keeps L s t \<Longrightarrow> M \<subseteq> L \<Longrightarrow> keeps M s t"
  by (auto simp: keeps_def)

lemma tx_reading: "tx i L ls K s \<Longrightarrow> reading i L s"
  by (simp add: tx_def)

lemma reading_locked:
  assumes "reading i L s" "b \<in> L" "cached k (bufs s ! b)"
  shows "b < NBUF" "b_data (bufs s ! b) = cview s k" "b_blockno (bufs s ! b) = k"
    "b_dirty (bufs s ! b) \<longleftrightarrow> k \<in> pinned s"
proof -
  have wf: "bwf i L s" using assms(1) by (simp add: reading_def)
  show b: "b < NBUF" using bwf_simps(12) [OF wf assms(2)] .
  show "b_data (bufs s ! b) = cview s k" using cview_cached [OF bwf_simps(2,3) [OF wf] b assms(3)] by simp
  show "b_blockno (bufs s ! b) = k" using assms(3) by (simp add: cached_def)
  show "b_dirty (bufs s ! b) \<longleftrightarrow> k \<in> pinned s" using pinned_iff [OF wf b assms(3)] by simp
qed

section \<open>Reading a block\<close>

text \<open>What holds of the state \<open>t\<close> after \<^verbatim>\<open>bread\<close> of block \<open>k\<close> in the state \<open>s\<close>.\<close>

definition got :: "nat \<Rightarrow> nat set \<Rightarrow> u32 \<Rightarrow> 'a bst_scheme \<Rightarrow> nat \<Rightarrow> 'a bst_scheme \<Rightarrow> bool" where
  "got i L k s b t \<longleftrightarrow> b < NBUF \<and> b \<notin> L \<and> reading i (insert b L) t \<and> cached k (bufs t ! b)
     \<and> cview t = cview s \<and> disk t = disk s \<and> pinned t = pinned s \<and> bst.more t = bst.more s \<and> keeps L s t"

lemma got_data: "got i L k s b t \<Longrightarrow> b_data (bufs t ! b) = cview s k"
  using reading_locked(2) [of i "insert b L" t b k] by (simp add: got_def)

lemma reading_bread:
  assumes s: "reading i L s" "finite L" "card L \<le> 1" and k: "k < FSSIZE" "\<forall>b\<in>L. \<not> cached k (bufs s ! b)"
  shows "safe (\<lambda>t. disk t = disk s) (quiet i) (bread 1 k s) (got i L k s)"
proof -
  have wf: "bwf i L s" using s by (simp add: reading_def)
  have "\<forall>b\<in>L. \<not> same_key k (bufs s ! b)"
    using k(2) bwf_simps(11) [OF wf] by (auto simp: cached_def same_key_def)
  moreover have "card L + card (pinned s) < NBUF" using s by (simp add: reading_def)
  ultimately have "safe (\<lambda>t. disk t = disk s) (quiet i) (bread 1 k s) (bread_post i L k s)"
    using wf k by (intro bread_safe [where P = "\<lambda>D. D = disk s"]) simp_all
  then show ?thesis
  proof (rule safe_mono)
    fix b t assume p: "bread_post i L k s b t"
    then have "cview t = cview s" by (auto simp: bread_post_def)
    moreover have "bufs t ! c = bufs s ! c" if "c \<in> L" for c
      using p that bwf_simps(12) [OF wf that] unfolding bread_post_def by metis
    then have "keeps L s t" by (simp add: keeps_def)
    ultimately show "got i L k s b t" using p s(1) by (simp add: got_def reading_def bread_post_def)
  qed
qed

lemma reading_brelse:
  fixes s :: "'a bst_scheme"
  assumes s: "reading i L s" "b \<in> L" "cached k (bufs s ! b)"
  obtains t where "brelse b s = Ok () t" "reading i (L - {b}) t" "cview t = cview s" "disk t = disk s"
    "pinned t = pinned s" "bst.more t = bst.more s" "keeps L s t"
proof -
  have wf: "bwf i L s" using s by (simp add: reading_def)
  note r = reading_locked [OF s]
  have "b_dirty (bufs s ! b) \<or> b_data (bufs s ! b) = disk s 1 (b_blockno (bufs s ! b))"
    using s(1) r by (auto simp: reading_def)
  with wf s(2) obtain t where t: "brelse b s = Ok () t" "bwf i (L - {b}) t" "cview t = cview s" "disk t = disk s"
    "pinned t = pinned s" "bst.more t = bst.more s" "map p_pid (procs t) = map p_pid (procs s)"
    "\<And>c k. c < NBUF \<Longrightarrow> cached k (bufs t ! c) = cached k (bufs s ! c)"
    using brelse_ok by metis
  have "keeps L s t" using t(8) bwf_simps(12) [OF wf] by (simp add: keeps_def)
  with that [of t] t s(1) show thesis by (simp add: reading_def)
qed

section \<open>Logging a block\<close>

lemma log_record_new:
  assumes "klog_is ls hs s" "length (lh_block (klog s)) = LOGSIZE" "length hs < LOGSIZE" "k \<notin> set hs"
  shows "klog_is ls (hs @ [k]) (upd_log (log_record k) s)"
proof -
  have l: "lh_n (klog s) = int (length hs)" "map word_of_int (take (length hs) (lh_block (klog s))) = hs"
    using assms(1) by (simp_all add: klog_is_def)
  have "first_index (\<lambda>w. word_of_int w = k) (take (length hs) (lh_block (klog s))) = None"
    using assms(4) l(2) by (metis (mono_tags, lifting) first_index_None_iff imageI set_map)
  then have "log_index k (klog s) = length hs" using l(1) by (simp add: log_index_def)
  then show ?thesis
    using assms l by (simp add: klog_is_def log_record_def Let_def upd_log_def log_dev_def head_block_def take_Suc_conv_app_nth)
qed

lemma log_record_old:
  assumes "klog_is ls hs s" "length (lh_block (klog s)) = LOGSIZE" "length hs \<le> LOGSIZE" "k \<in> set hs"
  shows "klog_is ls hs (upd_log (log_record k) s)"
proof -
  have l: "lh_n (klog s) = int (length hs)" "map word_of_int (take (length hs) (lh_block (klog s))) = hs"
    using assms(1) by (simp_all add: klog_is_def)
  obtain j where j: "first_index (\<lambda>w. word_of_int w = k) (take (length hs) (lh_block (klog s))) = Some j"
    using assms(4) l(2) first_index_exists [of _ _ "\<lambda>w. word_of_int w = k"] by (metis (mono_tags, lifting) image_iff set_map)
  then have j': "j < length hs" "word_of_int (lh_block (klog s) ! j) = k"
    using first_index_SomeD [OF j] assms(2,3) by auto
  have "log_index k (klog s) = j" using j l(1) by (simp add: log_index_def)
  moreover have "hs ! j = k" using arg_cong [OF l(2), of "\<lambda>xs. xs ! j"] j' assms(2,3) by simp
  then have "map word_of_int (take (length hs) ((lh_block (klog s))[j := sint k])) = hs"
    using l(2) by (auto simp: take_update_swap map_update)
  ultimately show ?thesis
    using assms l j' by (simp add: klog_is_def log_record_def Let_def upd_log_def log_dev_def head_block_def)
qed

lemma log_write_eq:
  fixes s :: "'a logst_scheme"
  assumes "held s = []" "0 \<le> lh_n (klog s)" "lh_n (klog s) < int LOGSIZE - 1" "int LOGSIZE \<le> lg_size (klog s)"
    "1 \<le> lg_outstanding (klog s)"
  shows "log_write b s = Ok () (upd_buf b (\<lambda>x. x\<lparr>b_dirty := True\<rparr>) (upd_log (log_record (b_blockno (bufs s ! b))) s))"
proof -
  have "s\<lparr>held := []\<rparr> = s" using assms(1) by (simp add: held_id)
  then have "(upd_buf b f (upd_log g (s\<lparr>held := h\<rparr>)))\<lparr>held := []\<rparr> = upd_buf b f (upd_log g s)" for f g h
    using assms(1) by (cases s) (simp add: upd_buf_def upd_log_def)
  then show ?thesis using assms by (simp add: log_write_def upd_log_def)
qed

lemma log_record_same [simp]:
  "length (lh_block (log_record k l)) = length (lh_block l)" "lg_outstanding (log_record k l) = lg_outstanding l"
  "lg_size (log_record k l) = lg_size l"
  by (simp_all add: log_record_def Let_def)

text \<open>The entries of the log after \<^verbatim>\<open>log_write\<close>.\<close>

lemma log_record_is:
  fixes s :: "'a logst_scheme"
  assumes "klog_is ls hs s" "length (lh_block (klog s)) = LOGSIZE" "length hs < LOGSIZE - 1" "log_ok ls hs"
    "k < FSSIZE" "k \<notin> {ls..<ls + of_nat LOGSIZE}"
  obtains hs' where "klog_is ls hs' (upd_log (log_record k) s)" "log_ok ls hs'" "set hs' = insert k (set hs)"
proof (cases "k \<in> set hs")
  case True
  then show thesis using that [of hs] log_record_old [of ls hs s k] assms by (simp add: insert_absorb)
next
  case False
  moreover have "log_ok ls (hs @ [k])" using assms(3-6) False by (auto simp: log_ok_def)
  ultimately show thesis using that [of "hs @ [k]"] log_record_new [of ls hs s k] assms by simp
qed

lemma tx_log_write:
  fixes s :: "'a logst_scheme"
  assumes s: "tx i L ls K s" and b: "b \<in> L" "cached k (bufs s ! b)" and k: "k \<in> K" and d: "length d = BSIZE"
  obtains t where "log_write b (set_data b d s) = Ok () t" "tx i L ls K t" "cview t = (cview s)(k := d)"
    "disk t = disk s" "logst.more t = logst.more s" "keeps L s t" "cached k (bufs t ! b)"
proof -
  have wf: "bwf i L s" using s by (simp add: tx_def reading_def)
  from s obtain hs where hs: "klog_is ls hs s" "log_ok ls hs" "pinned s = set hs" by (auto simp: tx_def)
  have kk: "k < FSSIZE" "k \<notin> {ls..<ls + of_nat LOGSIZE}" using s k by (auto simp: tx_def)
  have "card (pinned s) \<le> card K" using s by (intro card_mono) (simp_all add: tx_def)
  moreover have "card (pinned s) = length hs" using hs(2,3) by (simp add: log_ok_def distinct_card)
  moreover have "card K + 1 < LOGSIZE" using s by (simp add: tx_def)
  ultimately have n: "length hs < LOGSIZE - 1" by linarith
  define u where "u = set_data b d s"
  note ud = bwf_data [OF wf b, of d, folded set_data_def, folded u_def]
  have mu: "bst.more u = bst.more s" by (simp add: u_def set_data_def)
  note kl = klog_more [OF mu]
  have lb: "b < length (bufs s)" using bwf_simps(3,12) [OF wf] b(1) by (simp add: less_SucI)
  have cu: "cached j (bufs u ! c) = cached j (bufs s ! c)" for j c
    using lb by (cases "c = b") (simp_all add: u_def set_data_def cached_def)
  have "klog_is ls hs u" "length (lh_block (klog u)) = LOGSIZE" "length hs < LOGSIZE - 1"
    using hs(1) s n by (simp_all add: klog_is_def kl tx_def)
  then obtain hs' where hs': "klog_is ls hs' (upd_log (log_record k) u)" "log_ok ls hs'" "set hs' = insert k (set hs)"
    using hs(2) kk by (rule log_record_is)
  define v where "v = upd_log (log_record k) u"
  define t where "t = upd_buf b (\<lambda>x. x\<lparr>b_dirty := True\<rparr>) v"
  have "bwf i L v" "cached k (bufs v ! b)" using ud(1) b(2) cu by (simp_all add: v_def)
  note td = bwf_pin [OF this(1) b(1) this(2), folded t_def]
  have mt: "bst.more t = bst.more v" by (simp add: t_def)
  have kt: "klog t = log_record k (klog s)" "logst.more t = logst.more s"
    using klog_more(1,6) [OF mt] kl(1,6) by (simp_all add: v_def)
  have ct: "cached j (bufs t ! c) = cached j (bufs s ! c)" for j c
    using cu [of j c] lb by (cases "c = b") (simp_all add: t_def v_def cached_def u_def set_data_def)
  have pt: "pinned t = insert k (pinned s)" using td(3) ud(3) by (simp add: v_def)
  have vt: "cview t = (cview s)(k := d)" using td(2) ud(2) by (simp add: v_def)
  have dt: "disk t = disk s" by (simp add: t_def v_def u_def set_data_def)
  have "held u = []" using bwf_simps(1) [OF ud(1)] by (simp add: io_ready_def)
  moreover have "b_blockno (bufs u ! b) = k" using cu [of k b] b(2) by (simp add: cached_def)
  ultimately have "log_write b u = Ok () t"
    using log_write_eq [of u b] n hs(1) s by (simp add: t_def v_def tx_def kl klog_is_def)
  moreover have "klog_is ls hs' t" using hs'(1) klog_more [OF mt] by (simp add: klog_is_def v_def)
  moreover have "card (pinned t) \<le> card K" using s k pt by (intro card_mono) (auto simp: tx_def)
  then have "card (pinned t) + 1 < NBUF" using s by (simp add: tx_def NBUF_def LOGSIZE_def MAXOPBLOCKS_def)
  ultimately have "tx i L ls K t"
    using s k hs' hs(3) td(1) d unfolding tx_def reading_def pt vt dt kt
    by (auto intro!: exI [of _ hs'])
  then show thesis
    using that [of t] \<open>log_write b u = Ok () t\<close> vt dt kt(2) ct b(2) by (simp add: u_def keeps_def)
qed

text \<open>What a routine of a transaction leaves: the invariant, the disk, the rest of the state.\<close>

definition after :: "nat \<Rightarrow> nat set \<Rightarrow> u32 \<Rightarrow> u32 set \<Rightarrow> 'a logst_scheme \<Rightarrow> 'a logst_scheme \<Rightarrow> bool" where
  "after i L ls K s t \<longleftrightarrow> tx i L ls K t \<and> disk t = disk s \<and> logst.more t = logst.more s \<and> keeps L s t"

lemma after_trans: "after i L ls K s t \<Longrightarrow> after i L ls K t u \<Longrightarrow> after i L ls K s u"
  by (auto simp: after_def intro: keeps_trans)

lemma tx_brelse:
  fixes s :: "'a logst_scheme"
  assumes s: "tx i (insert b L) ls K s" "cached k (bufs s ! b)" "b \<notin> L"
  obtains t where "brelse b s = Ok () t" "after i L ls K s t" "cview t = cview s"
proof -
  obtain t where t: "brelse b s = Ok () t" "reading i (insert b L - {b}) t" "cview t = cview s"
    "disk t = disk s" "pinned t = pinned s" "bst.more t = bst.more s" "keeps (insert b L) s t"
    by (rule reading_brelse [OF tx_reading [OF s(1)] insertI1 s(2)])
  note kl = klog_more [OF t(6)]
  have "tx i L ls K t" using s(1,3) t(2,5) by (simp add: tx_def kl klog_is_def)
  moreover have "keeps L s t" using keeps_mono [OF t(7)] by blast
  ultimately show thesis using that [of t] t kl by (simp add: after_def)
qed

lemma tx_write_back:
  fixes s :: "'a logst_scheme"
  assumes s: "tx i (insert b L) ls K s" "cached k (bufs s ! b)" "b \<notin> L" and k: "k \<in> K" and d: "length d = BSIZE"
  obtains t where "write_back b d s = Ok () t" "after i L ls K s t" "cview t = (cview s)(k := d)"
proof -
  have "b \<in> insert b L" by simp
  from s(1) this s(2) k d obtain u where u: "log_write b (set_data b d s) = Ok () u" "tx i (insert b L) ls K u"
    "cview u = (cview s)(k := d)" "disk u = disk s" "logst.more u = logst.more s" "keeps (insert b L) s u" "cached k (bufs u ! b)"
    by (rule tx_log_write)
  from u(2,7) s(3) obtain t where t: "brelse b u = Ok () t" "after i L ls K u t" "cview t = cview u"
    by (rule tx_brelse)
  have "keeps L s u" using keeps_mono [OF u(6)] by blast
  then have "after i L ls K s t" using t(2) u(4,5) keeps_trans by (auto simp: after_def)
  then show thesis using that [of t] u t by (simp add: write_back_def)
qed

section \<open>Changing a block\<close>

lemma tx_bread:
  fixes s :: "'a logst_scheme"
  assumes s: "tx i L ls K s" "finite L" "card L \<le> 1" and k: "k < FSSIZE" "\<forall>b\<in>L. \<not> cached k (bufs s ! b)"
  shows "safe (\<lambda>t. disk t = disk s) (quiet i) (bread 1 k s)
    (\<lambda>b t. b \<notin> L \<and> tx i (insert b L) ls K t \<and> cached k (bufs t ! b) \<and> b_data (bufs t ! b) = cview s k
      \<and> cview t = cview s \<and> disk t = disk s \<and> logst.more t = logst.more s \<and> keeps L s t)"
proof (rule safe_mono [OF reading_bread [OF tx_reading [OF s(1)] s(2,3) k]])
  fix b t assume g: "got i L k s b t"
  then have m: "bst.more t = bst.more s" by (simp add: got_def)
  note kl = klog_more [OF m]
  from g s(1) have "tx i (insert b L) ls K t" by (simp add: got_def tx_def kl klog_is_def)
  with g got_data [OF g] kl
  show "b \<notin> L \<and> tx i (insert b L) ls K t \<and> cached k (bufs t ! b) \<and> b_data (bufs t ! b) = cview s k
      \<and> cview t = cview s \<and> disk t = disk s \<and> logst.more t = logst.more s \<and> keeps L s t"
    by (simp add: got_def)
qed

text \<open>
  The pattern of every change to a block: read it, compute the new contents from the old and from the
  rest of the state, log it and release it.
\<close>

lemma tx_update:
  fixes s :: "'a logst_scheme"
  assumes s: "tx i L ls K s" "finite L" "card L \<le> 1" and k: "k \<in> K" "\<forall>b\<in>L. \<not> cached k (bufs s ! b)"
    and F: "\<And>b t. b_data (bufs t ! b) = cview s k \<Longrightarrow> logst.more t = logst.more s \<Longrightarrow> F b t = write_back b d t"
    and d: "length d = BSIZE"
  shows "safe (\<lambda>t. disk t = disk s) (quiet i) (rbind (bread 1 k s) F)
    (\<lambda>_ t. after i L ls K s t \<and> cview t = (cview s)(k := d))"
proof (rule safe_bind [OF tx_bread [OF s _ k(2)]])
  show "k < FSSIZE" using s k(1) by (auto simp: tx_def)
  fix b u
  assume u: "b \<notin> L \<and> tx i (insert b L) ls K u \<and> cached k (bufs u ! b) \<and> b_data (bufs u ! b) = cview s k
      \<and> cview u = cview s \<and> disk u = disk s \<and> logst.more u = logst.more s \<and> keeps L s u"
  then obtain t where t: "write_back b d u = Ok () t" "after i L ls K u t" "cview t = (cview u)(k := d)"
    using tx_write_back [of i b L ls K u k d] k(1) d by blast
  have "keeps L s t" using u t(2) keeps_trans by (auto simp: after_def)
  then show "safe (\<lambda>t. disk t = disk s) (quiet i) (F b u) (\<lambda>_ t. after i L ls K s t \<and> cview t = (cview s)(k := d))"
    using t u F [of u b] by (simp add: after_def)
qed

lemma bzero_safe:
  fixes s :: "'a logst_scheme"
  assumes "tx i L ls K s" "finite L" "card L \<le> 1" "k \<in> K" "\<forall>b\<in>L. \<not> cached k (bufs s ! b)"
  shows "safe (\<lambda>t. disk t = disk s) (quiet i) (bzero 1 k s)
    (\<lambda>_ t. after i L ls K s t \<and> cview t = (cview s)(k := replicate BSIZE 0))"
  unfolding bzero_def using assms by (intro tx_update) simp_all

section \<open>The free map\<close>

declare balloc_from.simps [simp del] ialloc_from.simps [simp del]

lemma fs_more:
  fixes s t :: "'a fsst_scheme"
  assumes "logst.more t = logst.more s"
  shows "sb t = sb s" "inodes t = inodes s" "fsst.more t = fsst.more s"
  using assms by (cases s; cases t; simp)+

text \<open>The block of the free map, which is one block on a disk of \<open>FSSIZE\<close> blocks, and its bits.\<close>

definition bmap_block :: "'a fsst_scheme \<Rightarrow> u32" where
  "bmap_block s = sb_bmapstart (sb s)"

definition used :: "'a fsst_scheme \<Rightarrow> nat \<Rightarrow> bool" where
  "used s b = get_bit (cview s (bmap_block s)) b"

lemma BBLOCK_small: "unat b < BPB \<Longrightarrow> BBLOCK b x = sb_bmapstart x"
  by (simp add: BBLOCK_def BPB_def BSIZE_def word_arith_nat_div)

lemma used_put:
  fixes s t :: "'a fsst_scheme"
  assumes "length (cview s (bmap_block s)) = BSIZE" "b < BPB" "sb t = sb s"
    "cview t (bmap_block s) = put_bit b v (cview s (bmap_block s))" "c < BPB"
  shows "used t c = (if c = b then v else used s c)"
  using assms bitmap.put_same [of "cview s (bmap_block s)" b v] bitmap.put_other [of "cview s (bmap_block s)" b c v]
  by (simp add: used_def bmap_block_def)

lemma balloc_safe:
  fixes s :: "'a fsst_scheme" and b :: nat
  assumes s: "tx i L ls K s" "finite L" "card L \<le> 1" and sz: "sb_size (sb s) \<le> FSSIZE"
    and b: "b < unat (sb_size (sb s))" "\<not> used s b" "\<forall>c<b. used s c" "of_nat b \<noteq> bmap_block s"
    and K: "bmap_block s \<in> K" "of_nat b \<in> K"
    and L: "\<forall>c\<in>L. \<not> cached (bmap_block s) (bufs s ! c) \<and> \<not> cached (of_nat b) (bufs s ! c)"
  shows "safe (\<lambda>t. disk t = disk s) (quiet i) (balloc 1 s)
    (\<lambda>a t. a = of_nat b \<and> after i L ls K s t \<and> cview t = (cview s)
      (bmap_block s := put_bit b True (cview s (bmap_block s)), of_nat b := replicate BSIZE 0))"
proof -
  let ?m = "bmap_block s" and ?D = "\<lambda>t. disk t = disk s"
  have small: "unat (sb_size (sb s)) < BPB" "b < BPB"
    using sz b(1) by (simp_all add: word_le_nat_alt FSSIZE_def BPB_def BSIZE_def)
  have len: "length (cview s ?m) = BSIZE" using s(1) by (simp add: tx_def reading_def)
  have "find (\<lambda>bi. \<not> get_bit (cview s ?m) bi) [0..<unat (sb_size (sb s))] = Some b"
    using b by (auto simp: find_Some_iff used_def intro!: exI [of _ b])
  then have scan: "balloc_scan 0 (unat (sb_size (sb s))) (cview s ?m) = Some b"
    using small(1) by (simp add: balloc_scan_def)
  have m: "BBLOCK 0 (sb s) = ?m" by (simp add: BBLOCK_def bmap_block_def)
  have step: "balloc_from 1 0 s = rbind (bread 1 ?m s) (\<lambda>p u.
      let d = b_data (bufs u ! p) in case balloc_scan 0 (unat (sb_size (sb u))) d of
          None \<Rightarrow> rbind (brelse p u) (\<lambda>_ s. balloc_from 1 BPB s)
        | Some bi \<Rightarrow> rbind (write_back p (put_bit bi True d) u) (\<lambda>_ s. rbind (bzero 1 (of_nat bi) s) (\<lambda>_ s. Ok (of_nat bi) s)))"
    using b(1) m by (simp add: balloc_from.simps [of 1 0 s] cong: option.case_cong)
  have "safe ?D (quiet i) (balloc_from 1 0 s)
    (\<lambda>a t. a = of_nat b \<and> after i L ls K s t \<and> cview t = (cview s) (?m := put_bit b True (cview s ?m), of_nat b := replicate BSIZE 0))"
    unfolding step
  proof (rule safe_bind [OF tx_bread [OF s]])
    show "?m < FSSIZE" using K(1) s(1) by (auto simp: tx_def)
    fix p u
    assume u: "p \<notin> L \<and> tx i (insert p L) ls K u \<and> cached ?m (bufs u ! p) \<and> b_data (bufs u ! p) = cview s ?m
      \<and> cview u = cview s \<and> disk u = disk s \<and> logst.more u = logst.more s \<and> keeps L s u"
    have "length (put_bit b True (cview s ?m)) = BSIZE" using len by (simp add: put_bit_def)
    then obtain v where v: "write_back p (put_bit b True (cview s ?m)) u = Ok () v" "after i L ls K u v"
      "cview v = (cview u)(?m := put_bit b True (cview s ?m))"
      using u K(1) tx_write_back [of i p L ls K u ?m] by blast
    have v': "tx i L ls K v" "disk v = disk s" "logst.more v = logst.more s" "keeps L s v"
      using u v(2) keeps_trans by (auto simp: after_def)
    have "\<forall>c\<in>L. \<not> cached (of_nat b) (bufs v ! c)" using L v'(4) by (simp add: keeps_def)
    then have z: "safe ?D (quiet i) (bzero 1 (of_nat b) v)
      (\<lambda>_ t. after i L ls K v t \<and> cview t = (cview v)(of_nat b := replicate BSIZE 0))"
      using bzero_safe [OF v'(1) s(2,3) K(2)] v'(2) by simp
    have "safe ?D (quiet i) (rbind (bzero 1 (of_nat b) v) (\<lambda>_ s. Ok (of_nat b :: u32) s))
      (\<lambda>a t. a = of_nat b \<and> after i L ls K s t \<and> cview t = (cview s)(?m := put_bit b True (cview s ?m), of_nat b := replicate BSIZE 0))"
      by (rule safe_bind [OF z]) (use v v' u keeps_trans in \<open>auto simp: after_def\<close>)
    then show "safe ?D (quiet i)
      (let d = b_data (bufs u ! p) in case balloc_scan 0 (unat (sb_size (sb u))) d of
          None \<Rightarrow> rbind (brelse p u) (\<lambda>_ s. balloc_from 1 BPB s)
        | Some bi \<Rightarrow> rbind (write_back p (put_bit bi True d) u) (\<lambda>_ s. rbind (bzero 1 (of_nat bi) s) (\<lambda>_ s. Ok (of_nat bi) s)))
      (\<lambda>a t. a = of_nat b \<and> after i L ls K s t \<and> cview t = (cview s)(?m := put_bit b True (cview s ?m), of_nat b := replicate BSIZE 0))"
      using u scan v(1) fs_more(1) [of u s] by simp
  qed (use L in simp)
  then show ?thesis by (simp add: balloc_def)
qed

lemma bfree_safe:
  fixes s :: "'a fsst_scheme"
  assumes s: "tx i L ls K s" "finite L" "card L \<le> 1"
    and b: "unat b < BPB" "used s (unat b)" and K: "bmap_block s \<in> K"
    and L: "\<forall>c\<in>L. \<not> cached (bmap_block s) (bufs s ! c)"
  shows "safe (\<lambda>t. disk t = disk s) (quiet i) (bfree 1 b s)
    (\<lambda>_ t. after i L ls K s t \<and> cview t = (cview s)(bmap_block s := put_bit (unat b) False (cview s (bmap_block s))))"
proof -
  have m: "BBLOCK b (sb s) = bmap_block s" using b(1) by (simp add: BBLOCK_small bmap_block_def)
  have "length (cview s (bmap_block s)) = BSIZE" using s(1) by (simp add: tx_def reading_def)
  then show ?thesis
    unfolding bfree_def m using s K L b
    by (intro tx_update) (simp_all add: Let_def used_def put_bit_def [of _ False])
qed

section \<open>Inodes on the disk\<close>

text \<open>The block that holds an inode, and the inode as it is stored there.\<close>

definition inode_block :: "'a fsst_scheme \<Rightarrow> u32 \<Rightarrow> u32" where
  "inode_block s inum = IBLOCK inum (sb s)"

definition stored :: "'a fsst_scheme \<Rightarrow> u32 \<Rightarrow> dinode" where
  "stored s inum = get_dinode (cview s (inode_block s inum)) (dslot inum)"

lemma dslot_less [simp]: "dslot inum < IPB"
  by (simp add: dslot_def IPB_def BSIZE_def DINODE_SIZE_def)

lemma inode_place:
  assumes "inode_block s a = inode_block s b" "dslot a = dslot b"
  shows "a = b"
proof -
  have "a div 8 = b div 8" "unat a mod 8 = unat b mod 8"
    using assms by (simp_all add: inode_block_def IBLOCK_def dslot_def IPB_def BSIZE_def DINODE_SIZE_def)
  moreover from this(1) have "unat (a div 8) = unat (b div 8)" by simp
  then have "unat a div 8 = unat b div 8" by (simp add: unat_div_distrib)
  ultimately show ?thesis by (metis div_mult_mod_eq word_unat_eq_iff)
qed

lemma iupdate_safe:
  fixes s :: "'a fsst_scheme"
  defines "x \<equiv> \<lambda>ip. inodes s ! ip"
  assumes s: "tx i L ls K s" "finite L" "card L \<le> 1" and ip: "i_dev (x ip) = 1" "length (i_addrs (x ip)) = NDIRECT + 1"
    and K: "inode_block s (i_inum (x ip)) \<in> K" and L: "\<forall>c\<in>L. \<not> cached (inode_block s (i_inum (x ip))) (bufs s ! c)"
  shows "safe (\<lambda>t. disk t = disk s) (quiet i) (iupdate ip s)
    (\<lambda>_ t. after i L ls K s t \<and> stored t (i_inum (x ip)) = dinode_of (x ip)
      \<and> (\<forall>n. n \<noteq> i_inum (x ip) \<longrightarrow> stored t n = stored s n)
      \<and> (\<forall>k. k \<noteq> inode_block s (i_inum (x ip)) \<longrightarrow> cview t k = cview s k))"
proof -
  let ?k = "inode_block s (i_inum (x ip))"
  let ?d = "put_dinode (dslot (i_inum (x ip))) (dinode_of (x ip)) (cview s ?k)"
  have len: "length (cview s k) = BSIZE" for k using s(1) by (simp add: tx_def reading_def)
  have d: "length ?d = BSIZE" using len dinodes.put_length by simp
  have wf: "length (d_addrs (dinode_of (x ip))) = NDIRECT + 1" using ip(2) by (simp add: dinode_of_def)
  have "safe (\<lambda>t. disk t = disk s) (quiet i) (iupdate ip s) (\<lambda>_ t. after i L ls K s t \<and> cview t = (cview s)(?k := ?d))"
    unfolding iupdate_def Let_def x_def [symmetric] ip(1) inode_block_def [symmetric]
    using s K L d by (intro tx_update) (auto simp: x_def dest: fs_more(2))
  then show ?thesis
  proof (rule safe_mono)
    fix t assume t: "after i L ls K s t \<and> cview t = (cview s)(?k := ?d)"
    then have m: "inode_block t n = inode_block s n" for n
      using fs_more(1) [of t s] by (simp add: after_def inode_block_def)
    have "stored t n = stored s n" if "n \<noteq> i_inum (x ip)" for n
    proof (cases "inode_block s n = ?k")
      case True
      with that inode_place [of s n] have "dslot (i_inum (x ip)) \<noteq> dslot n" by metis
      with True len wf t show ?thesis by (simp add: stored_def m dinodes.put_other)
    qed (use t in \<open>simp add: stored_def m\<close>)
    moreover have "stored t (i_inum (x ip)) = dinode_of (x ip)" using t len wf by (simp add: stored_def m dinodes.put_same)
    ultimately show "after i L ls K s t \<and> stored t (i_inum (x ip)) = dinode_of (x ip)
      \<and> (\<forall>n. n \<noteq> i_inum (x ip) \<longrightarrow> stored t n = stored s n) \<and> (\<forall>k. k \<noteq> ?k \<longrightarrow> cview t k = cview s k)"
      using t by simp
  qed
qed

section \<open>A machine in a transaction\<close>

text \<open>The state of a machine that has booted from the disk \<open>D\<close> and has begun a transaction; for witnesses.\<close>

definition fs_boot :: "(u32 \<Rightarrow> block) \<Rightarrow> superblock \<Rightarrow> inode list \<Rightarrow> 'a \<Rightarrow> 'a fsst_scheme" where
  "fs_boot D x ino z = bst.extend (boot_bst\<lparr>disk := (\<lambda>_. D)\<rparr>)
     \<lparr>klog = (log_of [])\<lparr>lg_outstanding := 1\<rparr>, sb = x, inodes = ino, \<dots> = z\<rparr>"

lemma fs_boot_simps [simp]:
  "sb (fs_boot D x ino z) = x" "inodes (fs_boot D x ino z) = ino" "disk (fs_boot D x ino z) d = D" "held (fs_boot D x ino z) = []"
proof -
  show "held (fs_boot D x ino z) = []" using bwf_simps(1) [OF boot_bwf] by (simp add: fs_boot_def bst.defs io_ready_def)
qed (simp_all add: fs_boot_def bst.defs)

lemma fs_boot_reading:
  assumes "\<And>k. length (D k) = BSIZE"
  shows "reading 0 {} (fs_boot D x ino z)" "cview (fs_boot D x ino z) = D" "pinned (fs_boot D x ino z) = {}"
proof -
  let ?s = "fs_boot D x ino z"
  have b: "bufs ?s = bufs boot_bst" by (simp add: fs_boot_def bst.defs)
  have w: "io_ready 0 ?s" using bwf_simps(1) [OF boot_bwf]
    by (simp add: fs_boot_def bst.defs io_ready_def runs_def on_cpu_def)
  have "slks ?s = slks boot_bst" by (simp add: fs_boot_def bst.defs)
  then have wf: "bwf 0 {} ?s" using boot_bwf w boot_empty unfolding bwf_def b by simp
  moreover show p: "pinned ?s = {}" using boot_pinned by (simp add: pinned_def dirty_set_def b)
  ultimately show v: "cview ?s = D" using cview_unpinned [OF wf] by (simp add: fun_eq_iff)
  then show "reading 0 {} ?s" using wf p assms by (simp add: reading_def NBUF_def)
qed

lemma fs_boot_tx:
  assumes "\<And>k. length (D k) = BSIZE" "finite K" "card K < 29" "\<forall>k\<in>K. k < FSSIZE \<and> k \<notin> {2..<32}"
  shows "tx 0 {} 2 K (fs_boot D x ino z)"
proof -
  let ?s = "fs_boot D x ino z"
  have "log_ok 2 []" by (simp add: log_ok_def LOGSIZE_def MAXOPBLOCKS_def FSSIZE_def)
  moreover have "klog_is 2 [] ?s" "length (lh_block (klog ?s)) = LOGSIZE" "lg_size (klog ?s) = int LOGSIZE"
    "lg_outstanding (klog ?s) = 1"
    by (simp_all add: klog_is_def fs_boot_def bst.defs log_of_def log_dev_def head_block_def LOGSIZE_def MAXOPBLOCKS_def)
  ultimately show ?thesis
    using fs_boot_reading [where D = D and x = x and ino = ino and z = z, OF assms(1)] assms(2-4) unfolding tx_def
    by (auto simp: LOGSIZE_def MAXOPBLOCKS_def intro!: exI [of _ "[]"])
qed

section \<open>Allocating a block\<close>

text \<open>
  C5. \<^verbatim>\<open>balloc\<close> allocates the first free block: inside a transaction that may log the free map and that
  block, it returns the block's number, marks exactly this block as used, and fills it with zeros;
  every other block keeps its contents and nothing is written to the disk before the transaction commits.
\<close>

theorem balloc_correct:
  fixes s :: "'a fsst_scheme" and b :: nat
  assumes s: "tx i {} ls K s" "sb_size (sb s) \<le> FSSIZE"
    and b: "b < unat (sb_size (sb s))" "\<not> used s b" "\<forall>c<b. used s c" "of_nat b \<noteq> bmap_block s"
    and K: "bmap_block s \<in> K" "of_nat b \<in> K"
  shows "safe (\<lambda>t. disk t = disk s) (quiet i) (balloc 1 s)
    (\<lambda>a t. a = of_nat b \<and> tx i {} ls K t \<and> disk t = disk s \<and> (\<forall>c<BPB. used t c = (c = b \<or> used s c))
      \<and> cview t (of_nat b) = replicate BSIZE 0 \<and> inodes t = inodes s
      \<and> (\<forall>k. k \<noteq> bmap_block s \<and> k \<noteq> of_nat b \<longrightarrow> cview t k = cview s k))"
proof (rule safe_mono [OF balloc_safe [OF s(1) _ _ s(2) b K]])
  fix a :: u32 and t
  assume t: "a = of_nat b \<and> after i {} ls K s t \<and> cview t = (cview s)
      (bmap_block s := put_bit b True (cview s (bmap_block s)), of_nat b := replicate BSIZE 0)"
  have "b < BPB" using b(1) s(2) by (simp add: word_le_nat_alt FSSIZE_def BPB_def BSIZE_def)
  moreover have "length (cview s (bmap_block s)) = BSIZE" using s(1) by (simp add: tx_def reading_def)
  ultimately have "\<forall>c<BPB. used t c = (c = b \<or> used s c)"
    using used_put [of s b t True] t b(4) fs_more(1) [of t s] by (simp add: after_def)
  then show "a = of_nat b \<and> tx i {} ls K t \<and> disk t = disk s \<and> (\<forall>c<BPB. used t c = (c = b \<or> used s c))
      \<and> cview t (of_nat b) = replicate BSIZE 0 \<and> inodes t = inodes s
      \<and> (\<forall>k. k \<noteq> bmap_block s \<and> k \<noteq> of_nat b \<longrightarrow> cview t k = cview s k)"
    using t fs_more(2) [of t s] by (simp add: after_def)
qed simp_all

text \<open>The disk that \<^verbatim>\<open>mkfs\<close> makes has 59 blocks of metadata, all marked as used in block 58.\<close>

definition meta_bits :: block where
  "meta_bits = replicate 7 0xFF @ 0x07 # replicate 504 0"

definition meta_sb :: superblock where
  "meta_sb = \<lparr>sb_size = 1000, sb_nblocks = 941, sb_ninodes = 200, sb_nlog = 30, sb_logstart = 2, sb_inodestart = 32,
     sb_bmapstart = 58\<rparr>"

lemma meta_bits_used: "length meta_bits = BSIZE" "\<forall>c<59. get_bit meta_bits c" "\<not> get_bit meta_bits 59"
proof -
  have "list_all (get_bit meta_bits) [0..<59]" by code_simp
  then show "\<forall>c<59. get_bit meta_bits c" by (simp add: list_all_iff)
  show "\<not> get_bit meta_bits 59" by code_simp
qed (simp add: meta_bits_def BSIZE_def)

theorem balloc_correct_witness:
  "let s = fs_boot (\<lambda>k. if k = 58 then meta_bits else replicate BSIZE 1) meta_sb [] () in
   safe (\<lambda>t. disk t = disk s) (quiet 0) (balloc 1 s)
    (\<lambda>a t. a = 59 \<and> tx 0 {} 2 {58, 59} t \<and> disk t = disk s \<and> (\<forall>c<BPB. used t c = (c = 59 \<or> used s c))
      \<and> cview t 59 = replicate BSIZE 0 \<and> inodes t = inodes s
      \<and> (\<forall>k. k \<noteq> 58 \<and> k \<noteq> 59 \<longrightarrow> cview t k = cview s k))"
proof -
  let ?s = "fs_boot (\<lambda>k. if k = 58 then meta_bits else replicate BSIZE 1) meta_sb [] ()"
  have "tx 0 {} 2 {58, 59} ?s" by (rule fs_boot_tx) (simp_all add: meta_bits_used FSSIZE_def)
  moreover have "cview ?s 58 = meta_bits" by (subst fs_boot_reading) (simp_all add: meta_bits_used)
  moreover have "bmap_block ?s = 58" by (simp add: bmap_block_def meta_sb_def)
  ultimately show ?thesis
    using balloc_correct [of 0 2 "{58, 59}" ?s 59] meta_bits_used by (simp add: used_def meta_sb_def FSSIZE_def)
qed

end
