(* ===== verification/Contents.thy ===== *)
theory Contents
  imports Fs Blocks
begin

text \<open>
  What the inode layer promises about file contents. The bytes of a file are read off the blocks of its
  inode; \<^verbatim>\<open>readi\<close> returns them, \<^verbatim>\<open>writei\<close> changes exactly the bytes it is given, and \<^verbatim>\<open>dirlookup\<close> finds
  the first entry of a directory with a given name.
\<close>

declare readi_loop.simps [simp del] writei_loop.simps [simp del] dirlookup_from.simps [simp del]
  dirlink_slot.simps [simp del] namex_loop.simps [simp del]

section \<open>The blocks and bytes of a file\<close>

text \<open>\<open>V\<close> is the contents of the disk's blocks. The address of block \<open>n\<close> of a file:\<close>

definition baddr :: "(u32 \<Rightarrow> block) \<Rightarrow> inode \<Rightarrow> nat \<Rightarrow> u32" where
  "baddr V x n = (if n < NDIRECT then i_addrs x ! n else get_word (V (i_addrs x ! NDIRECT)) (n - NDIRECT))"

definition fbyte :: "(u32 \<Rightarrow> block) \<Rightarrow> inode \<Rightarrow> nat \<Rightarrow> u8" where
  "fbyte V x p = V (baddr V x (p div BSIZE)) ! (p mod BSIZE)"

definition contents :: "(u32 \<Rightarrow> block) \<Rightarrow> inode \<Rightarrow> u8 list" where
  "contents V x = map (fbyte V x) [0..<unat (i_size x)]"

text \<open>The first \<open>m\<close> blocks of the file have been allocated.\<close>

definition has_blocks :: "(u32 \<Rightarrow> block) \<Rightarrow> inode \<Rightarrow> nat \<Rightarrow> bool" where
  "has_blocks V x m \<longleftrightarrow> m \<le> MAXFILE \<and> (\<forall>n<m. baddr V x n \<noteq> 0 \<and> baddr V x n < FSSIZE)
     \<and> (NDIRECT < m \<longrightarrow> i_addrs x ! NDIRECT \<noteq> 0 \<and> i_addrs x ! NDIRECT < FSSIZE)"

text \<open>A routine that only reads leaves the cache with the same contents.\<close>

definition same_view :: "nat \<Rightarrow> 'a bst_scheme \<Rightarrow> 'a bst_scheme \<Rightarrow> bool" where
  "same_view i s t \<longleftrightarrow> reading i {} t \<and> cview t = cview s \<and> disk t = disk s \<and> pinned t = pinned s \<and> bst.more t = bst.more s"

lemma same_view_refl: "reading i {} s \<Longrightarrow> same_view i s s"
  by (simp add: same_view_def)

lemma same_view_trans: "same_view i s t \<Longrightarrow> same_view i t u \<Longrightarrow> same_view i s u"
  by (simp add: same_view_def)

lemma same_view_fs:
  fixes s t :: "'a fsst_scheme"
  assumes "same_view i s t"
  shows "inodes t = inodes s" "sb t = sb s" "klog t = klog s" "fsst.more t = fsst.more s" "reading i {} t" "cview t = cview s"
    "disk t = disk s"
proof -
  have "bst.more t = bst.more s" using assms by (simp add: same_view_def)
  from klog_more(6) [OF this] klog_more(1) [OF this]
  show "inodes t = inodes s" "sb t = sb s" "klog t = klog s" "fsst.more t = fsst.more s"
    using fs_more [of t s] by simp_all
qed (use assms in \<open>simp_all add: same_view_def\<close>)

text \<open>The pattern of every read: the value that is computed from a block while it is locked.\<close>

lemma read_block_safe:
  fixes s :: "'a fsst_scheme"
  assumes s: "reading i {} s" and k: "k < FSSIZE"
    and F: "\<And>b t. b_data (bufs t ! b) = cview s k \<Longrightarrow> bst.more t = bst.more s \<Longrightarrow> F b t = rbind (brelse b t) (\<lambda>_ u. G u)"
    and G: "\<And>u. same_view i s u \<Longrightarrow> safe (\<lambda>t. disk t = disk s) (quiet i) (G u) Q"
  shows "safe (\<lambda>t. disk t = disk s) (quiet i) (rbind (bread 1 k s) F) Q"
proof (rule safe_bind [OF reading_bread [OF s _ _ k]])
  fix b u assume u: "got i {} k s b u"
  then obtain t where t: "brelse b u = Ok () t" "reading i ({b} - {b}) t" "cview t = cview u" "disk t = disk u"
    "pinned t = pinned u" "bst.more t = bst.more u" "keeps {b} u t"
    using reading_brelse [of i "{b}" u b k] by (auto simp: got_def)
  then show "safe (\<lambda>t. disk t = disk s) (quiet i) (F b u) Q"
    using F [of u b] got_data [OF u] u G [of t] by (simp add: same_view_def got_def)
qed simp_all

lemma bmap_read_safe:
  fixes s :: "'a fsst_scheme"
  assumes s: "reading i {} s" and x: "inodes s ! ip = x" "i_dev x = 1" and m: "has_blocks (cview s) x m" "n < m"
  shows "safe (\<lambda>t. disk t = disk s) (quiet i) (bmap ip (of_nat n) s) (\<lambda>a t. a = baddr (cview s) x n \<and> same_view i s t)"
proof -
  have n: "n < MAXFILE" using m by (simp add: has_blocks_def)
  then have u: "unat (of_nat n :: u32) = n"
    by (simp add: unat_of_nat take_bit_nat_eq_self_iff MAXFILE_def NDIRECT_def NINDIRECT_def BSIZE_def)
  have a: "baddr (cview s) x n \<noteq> 0" "NDIRECT \<le> n \<Longrightarrow> i_addrs x ! NDIRECT \<noteq> 0 \<and> i_addrs x ! NDIRECT < FSSIZE"
    using m by (auto simp: has_blocks_def)
  show ?thesis
  proof (cases "n < NDIRECT")
    case True
    with a(1) s x(1) show ?thesis by (simp add: bmap_def u addr_or_alloc_def Let_def baddr_def same_view_refl)
  next
    case False
    let ?i = "i_addrs x ! NDIRECT"
    have r: "safe (\<lambda>t. disk t = disk s) (quiet i) (rbind (bread 1 ?i s) (\<lambda>bp s.
            let addr = get_word (b_data (bufs s ! bp)) (n - NDIRECT) in
            if addr = 0 then
              rbind (balloc (i_dev (inodes s ! ip)) s) (\<lambda>addr s.
              rbind (write_back bp (put_word (n - NDIRECT) addr (b_data (bufs s ! bp))) s) (\<lambda>_ s. Ok addr s))
            else rbind (brelse bp s) (\<lambda>_ s. Ok addr s))) (\<lambda>r t. r = baddr (cview s) x n \<and> same_view i s t)"
      using s a False by (intro read_block_safe [where G = "Ok (baddr (cview s) x n)"]) (simp_all add: baddr_def Let_def)
    with False n a(2) x show ?thesis
      by (simp add: bmap_def u addr_or_alloc_def Let_def MAXFILE_def)
  qed
qed

section \<open>Reading\<close>

lemma same_block:
  assumes "off mod B + j < (B :: nat)"
  shows "(off + j) div B = off div B" "(off + j) mod B = off mod B + j"
proof -
  have "(off + j) mod B = (off mod B + j) mod B" by (simp add: mod_add_left_eq)
  then show "(off + j) mod B = off mod B + j" using assms by simp
  show "(off + j) div B = off div B" using assms by (simp add: div_add1_eq [of off j])
qed

lemma fbytes_block:
  assumes "length (V (baddr V x (off div BSIZE))) = BSIZE" "m \<le> BSIZE - off mod BSIZE"
  shows "take m (drop (off mod BSIZE) (V (baddr V x (off div BSIZE)))) = map (fbyte V x) [off..<off + m]"
proof (rule nth_equalityI)
  have "off mod BSIZE < BSIZE" by (simp add: BSIZE_def)
  then show "length (take m (drop (off mod BSIZE) (V (baddr V x (off div BSIZE))))) = length (map (fbyte V x) [off..<off + m])"
    using assms by simp
  fix j assume "j < length (take m (drop (off mod BSIZE) (V (baddr V x (off div BSIZE)))))"
  then have j: "j < m" "off mod BSIZE + j < BSIZE" using assms by simp_all
  with same_block [OF j(2)] assms show "take m (drop (off mod BSIZE) (V (baddr V x (off div BSIZE)))) ! j = map (fbyte V x) [off..<off + m] ! j"
    by (simp add: fbyte_def)
qed

lemma readi_loop_safe:
  fixes s :: "'a fsst_scheme"
  assumes "reading i {} s" "inodes s ! ip = x" "i_dev x = 1" "has_blocks (cview s) x m" "off + n \<le> m * BSIZE"
  shows "safe (\<lambda>t. disk t = disk s) (quiet i) (readi_loop ip off n s)
    (\<lambda>bs t. bs = map (fbyte (cview s) x) [off..<off + n] \<and> same_view i s t)"
  using assms
proof (induction n arbitrary: off s rule: less_induct)
  case (less n)
  show ?case
  proof (cases "n = 0")
    case True
    then show ?thesis using less.prems(1) by (simp add: readi_loop.simps same_view_refl)
  next
    case False
    let ?m = "min n (BSIZE - off mod BSIZE)" and ?V = "cview s"
    have B: "off mod BSIZE < BSIZE" "0 < BSIZE" by (simp_all add: BSIZE_def)
    have q: "off div BSIZE < m" using less.prems(5) False B by (simp add: less_mult_imp_div_less)
    have "length (?V k) = BSIZE" for k using less.prems(1) by (simp add: reading_def)
    note bs = fbytes_block [of ?V x off ?m, OF this min.cobounded2]
    have a: "baddr ?V x (off div BSIZE) < FSSIZE" using less.prems(4) q by (simp add: has_blocks_def)
    have step: "readi_loop ip off n s = rbind (bmap ip (of_nat (off div BSIZE)) s) (\<lambda>addr s.
        rbind (bread (i_dev (inodes s ! ip)) addr s) (\<lambda>bp s.
          let bs = take ?m (drop (off mod BSIZE) (b_data (bufs s ! bp))) in
          rbind (brelse bp s) (\<lambda>_ s.
          rbind (readi_loop ip (off + ?m) (n - ?m) s) (\<lambda>cs s. Ok (bs @ cs) s))))"
      using False by (simp add: readi_loop.simps [of ip off n s] Let_def)
    show ?thesis
      unfolding step
    proof (rule safe_bind [OF bmap_read_safe [OF less.prems(1-4) q]])
      fix addr and u :: "'a fsst_scheme"
      assume u: "addr = baddr ?V x (off div BSIZE) \<and> same_view i s u"
      then have us: "same_view i s u" by simp
      note uf = same_view_fs [OF us]
      have rest: "safe (\<lambda>t. disk t = disk u) (quiet i)
          (rbind (readi_loop ip (off + ?m) (n - ?m) w) (\<lambda>cs s. Ok (map (fbyte ?V x) [off..<off + ?m] @ cs) s))
          (\<lambda>bs t. bs = map (fbyte ?V x) [off..<off + n] \<and> same_view i s t)" if "same_view i u w" for w
      proof -
        have w: "same_view i s w" using same_view_trans [OF us that] .
        note wf = same_view_fs [OF w]
        have "safe (\<lambda>t. disk t = disk w) (quiet i) (readi_loop ip (off + ?m) (n - ?m) w)
          (\<lambda>bs t. bs = map (fbyte (cview w) x) [off + ?m..<off + ?m + (n - ?m)] \<and> same_view i w t)"
          using less.prems B False wf by (intro less.IH) (auto simp: min_def)
        then show ?thesis
          unfolding wf(6,7) uf(7)
        proof (rule safe_bind)
          fix cs t assume t: "cs = map (fbyte ?V x) [off + ?m..<off + ?m + (n - ?m)] \<and> same_view i w t"
          have "[off..<off + ?m] @ [off + ?m..<off + ?m + (n - ?m)] = [off..<off + n]"
            using upt_add_eq_append [of off "off + ?m" "n - ?m"] by simp
          then have "map (fbyte ?V x) [off..<off + ?m] @ cs = map (fbyte ?V x) [off..<off + n]"
            using t by (metis map_append)
          then show "safe (\<lambda>t. disk t = disk s) (quiet i) (Ok (map (fbyte ?V x) [off..<off + ?m] @ cs) t)
            (\<lambda>bs t. bs = map (fbyte ?V x) [off..<off + n] \<and> same_view i s t)"
            using t same_view_trans [OF w] by simp
        qed
      qed
      have "safe (\<lambda>t. disk t = disk u) (quiet i) (rbind (bread 1 addr u) (\<lambda>bp s.
          let bs = take ?m (drop (off mod BSIZE) (b_data (bufs s ! bp))) in
          rbind (brelse bp s) (\<lambda>_ s.
          rbind (readi_loop ip (off + ?m) (n - ?m) s) (\<lambda>cs s. Ok (bs @ cs) s))))
          (\<lambda>bs t. bs = map (fbyte ?V x) [off..<off + n] \<and> same_view i s t)"
        by (rule read_block_safe [OF uf(5) _ _ rest]) (use u a bs uf(6) in \<open>simp_all add: Let_def\<close>)
      then show "safe (\<lambda>t. disk t = disk s) (quiet i) (rbind (bread (i_dev (inodes u ! ip)) addr u) (\<lambda>bp s.
          let bs = take ?m (drop (off mod BSIZE) (b_data (bufs s ! bp))) in
          rbind (brelse bp s) (\<lambda>_ s.
          rbind (readi_loop ip (off + ?m) (n - ?m) s) (\<lambda>cs s. Ok (bs @ cs) s))))
          (\<lambda>bs t. bs = map (fbyte ?V x) [off..<off + n] \<and> same_view i s t)"
        using uf(1,7) less.prems(2,3) by simp
    qed
  qed
qed

lemma contents_slice:
  "a + n \<le> unat (i_size x) \<Longrightarrow> map (fbyte V x) [a..<a + n] = take n (drop a (contents V x))"
  by (simp add: contents_def drop_map take_map)

lemma size_small:
  assumes "has_blocks V x m" "unat (i_size x) \<le> m * BSIZE"
  shows "unat (i_size x) \<le> MAXFILE * BSIZE"
proof -
  have "m \<le> MAXFILE" using assms(1) by (simp add: has_blocks_def)
  then have "m * BSIZE \<le> MAXFILE * BSIZE" by (rule mult_le_mono1)
  with assms(2) show ?thesis by (rule le_trans)
qed

lemma sint_nat:
  assumes "unat (k :: u32) < 2 ^ 31"
  shows "sint k = int (unat k)"
proof -
  from assms have "int (unat k) < int (2 ^ 31)" by (simp only: of_nat_less_iff)
  then have "uint k < 2 ^ 31" by simp
  then show ?thesis by (simp add: sint_uint signed_take_bit_int_eq_self order.trans [of _ 0])
qed

lemma readi_safe:
  fixes s :: "'a consst_scheme"
  assumes s: "reading i {} s" and x: "inodes s ! ip = x" "i_dev x = 1" "i_type x \<noteq> T_DEV"
    and m: "has_blocks (cview s) x m" "unat (i_size x) \<le> m * BSIZE"
  shows "safe (\<lambda>t. disk t = disk s) (quiet i) (readi ip off n s)
    (\<lambda>(r, bs) t. same_view i s t \<and>
      (if off \<le> i_size x \<and> unat off + unat n < 2 ^ 32
       then bs = take (unat n) (drop (unat off) (contents (cview s) x)) \<and> r = int (length bs)
       else r = -1 \<and> bs = []))"
proof -
  have ov: "off + n < off \<longleftrightarrow> \<not> unat off + unat n < 2 ^ 32"
    using no_olen_add_nat [of off n] by (simp flip: not_le)
  show ?thesis
  proof (cases "off \<le> i_size x \<and> unat off + unat n < 2 ^ 32")
    case True
    define k where "k = (if off + n > i_size x then i_size x - off else n)"
    have p: "unat (off + n) = unat off + unat n" using True by (simp add: unat_word_ariths)
    have k: "unat k = min (unat n) (unat (i_size x) - unat off)"
      using True p by (auto simp: k_def unat_sub min_def word_less_nat_alt word_le_nat_alt)
    then have b: "unat off + unat k \<le> unat (i_size x)" using True by (auto simp: word_le_nat_alt)
    have "unat k < 2 ^ 31" using b size_small [OF m] by (simp add: MAXFILE_def NDIRECT_def NINDIRECT_def BSIZE_def)
    then have sk: "sint k = int (unat k)" by (rule sint_nat)
    have e: "readi ip off n s = rbind (readi_loop ip (unat off) (unat k) s) (\<lambda>bs s. Ok (sint k, bs) s)"
      using True x ov unfolding k_def by (auto simp: readi_def Let_def)
    have t: "take (unat n) (drop (unat off) (contents (cview s) x)) = map (fbyte (cview s) x) [unat off..<unat off + unat k]"
      using b k by (simp add: contents_slice) (simp add: contents_def min_def)
    have "safe (\<lambda>t. disk t = disk s) (quiet i) (readi_loop ip (unat off) (unat k) s)
      (\<lambda>bs t. bs = map (fbyte (cview s) x) [unat off..<unat off + unat k] \<and> same_view i s t)"
      using s x(1,2) m(1) le_trans [OF b m(2)] by (rule readi_loop_safe)
    then show ?thesis
      unfolding e by (rule safe_bind) (simp add: True [simplified] t sk)
  next
    case False
    then have "readi ip off n s = Ok (-1, []) s" using x ov by (auto simp: readi_def Let_def)
    then show ?thesis using False s by (simp add: same_view_refl)
  qed
qed

text \<open>
  C4. \<^verbatim>\<open>readi\<close> reads the file: for an inode whose blocks are allocated it returns the bytes of the file from
  \<^verbatim>\<open>off\<close>, at most \<open>n\<close> of them and none beyond the end, and their number; if \<^verbatim>\<open>off\<close> lies beyond the end or
  \<^verbatim>\<open>off + n\<close> wraps around it returns -1. It changes no block, no inode and not the disk, and never panics.
\<close>

theorem readi_correct:
  fixes s :: "'a consst_scheme"
  assumes s: "reading i {} s" and x: "inodes s ! ip = x" "i_dev x = 1" "i_type x \<noteq> T_DEV"
    and m: "has_blocks (cview s) x m" "unat (i_size x) \<le> m * BSIZE"
  shows "safe (\<lambda>t. disk t = disk s) (quiet i) (readi ip off n s)
    (\<lambda>(r, bs) t. same_view i s t \<and>
      (if off \<le> i_size x \<and> unat off + unat n < 2 ^ 32
       then bs = take (unat n) (drop (unat off) (contents (cview s) x)) \<and> r = int (length bs)
       else r = -1 \<and> bs = []))"
  using assms by (rule readi_safe)

section \<open>Writing\<close>

text \<open>The blocks of a file are its own: no two of them are the same, and none is its indirect block.\<close>

definition own_blocks :: "(u32 \<Rightarrow> block) \<Rightarrow> inode \<Rightarrow> nat \<Rightarrow> bool" where
  "own_blocks V x m \<longleftrightarrow> has_blocks V x m \<and> inj_on (baddr V x) {..<m}
     \<and> (NDIRECT < m \<longrightarrow> i_addrs x ! NDIRECT \<notin> baddr V x ` {..<m})"

text \<open>\<open>V'\<close> differs from \<open>V\<close> in the \<open>n\<close> bytes of the file from \<open>off\<close>, which are those of \<open>src\<close>.\<close>

definition written :: "inode \<Rightarrow> nat \<Rightarrow> nat \<Rightarrow> (nat \<Rightarrow> u8) \<Rightarrow> nat \<Rightarrow> (u32 \<Rightarrow> block) \<Rightarrow> (u32 \<Rightarrow> block) \<Rightarrow> bool" where
  "written x m off src n V V' \<longleftrightarrow>
     (\<forall>q<m. baddr V' x q = baddr V x q)
     \<and> (\<forall>p<m * BSIZE. fbyte V' x p = (if off \<le> p \<and> p < off + n then src (p - off) else fbyte V x p))
     \<and> (\<forall>k. k \<notin> baddr V x ` {..<m} \<longrightarrow> V' k = V k)"

lemma own_blocks_written:
  assumes "own_blocks V x m" "written x m off src n V V'"
  shows "own_blocks V' x m"
proof -
  have b: "\<forall>q<m. baddr V' x q = baddr V x q" using assms(2) by (simp add: written_def)
  then have "inj_on (baddr V' x) {..<m} = inj_on (baddr V x) {..<m}" by (intro inj_on_cong) simp
  moreover from b have "baddr V' x ` {..<m} = baddr V x ` {..<m}" by (intro image_cong) simp_all
  ultimately show ?thesis using assms(1) b by (simp add: own_blocks_def has_blocks_def)
qed

lemma written_0: "written x m off src 0 V V"
  by (auto simp: written_def)

lemma written_trans:
  assumes "written x m off src n V V'" "written x m (off + n) (\<lambda>j. src (n + j)) n' V' V''"
  shows "written x m off src (n + n') V V''"
proof -
  have "baddr V' x ` {..<m} = baddr V x ` {..<m}"
    using assms(1) by (intro image_cong) (simp_all add: written_def)
  then show ?thesis using assms unfolding written_def by auto
qed

lemma length_blit [simp]: "a + length xs \<le> length ys \<Longrightarrow> length (blit a xs ys) = length ys"
  by (simp add: blit_def)

lemma nth_blit:
  "a + length xs \<le> length ys \<Longrightarrow> j < length ys \<Longrightarrow>
    blit a xs ys ! j = (if a \<le> j \<and> j < a + length xs then xs ! (j - a) else ys ! j)"
  by (auto simp: blit_def nth_append min_def)

lemma baddr_upd:
  assumes "own_blocks V x m" "q < m" "q' < m"
  shows "baddr (V(baddr V x q := d)) x q' = baddr V x q'"
proof (cases "q' < NDIRECT")
  case False
  then have "i_addrs x ! NDIRECT \<noteq> baddr V x q" using assms by (auto simp: own_blocks_def)
  with False show ?thesis by (simp add: baddr_def)
qed (simp add: baddr_def)

text \<open>Overwriting part of one block.\<close>

lemma written_block:
  assumes V: "own_blocks V x m" "off div BSIZE < m" and len: "length (V (baddr V x (off div BSIZE))) = BSIZE"
    and n: "n \<le> BSIZE - off mod BSIZE"
  shows "written x m off src n V
    (V(baddr V x (off div BSIZE) := blit (off mod BSIZE) (map src [0..<n]) (V (baddr V x (off div BSIZE)))))"
    (is "written x m off src n V ?V'")
  unfolding written_def
proof (intro conjI allI impI)
  let ?q = "off div BSIZE" and ?r = "off mod BSIZE"
  have B: "?r < BSIZE" "0 < BSIZE" by (simp_all add: BSIZE_def)
  have r: "?r + n \<le> BSIZE" using n B(1) by linarith
  show b: "baddr ?V' x q = baddr V x q" if "q < m" for q using baddr_upd [OF V(1,2) that] .
  show "?V' k = V k" if "k \<notin> baddr V x ` {..<m}" for k using that V(2) by auto
  fix p assume p: "p < m * BSIZE"
  then have q: "p div BSIZE < m" by (simp add: less_mult_imp_div_less)
  show "fbyte ?V' x p = (if off \<le> p \<and> p < off + n then src (p - off) else fbyte V x p)"
  proof (cases "p div BSIZE = ?q")
    case True
    have e: "off = ?q * BSIZE + ?r" "p = ?q * BSIZE + p mod BSIZE" using True by (metis div_mult_mod_eq)+
    have "off \<le> p \<longleftrightarrow> ?r \<le> p mod BSIZE" "p < off + n \<longleftrightarrow> p mod BSIZE < ?r + n" "p - off = p mod BSIZE - ?r"
      using e by linarith+
    moreover have "p mod BSIZE < BSIZE" using B by simp
    ultimately show ?thesis
      using True b [OF q] len r by (auto simp: fbyte_def nth_blit)
  next
    case False
    then have "baddr V x (p div BSIZE) \<noteq> baddr V x ?q"
      using V q by (auto simp: own_blocks_def inj_on_def)
    moreover have "\<not> (off \<le> p \<and> p < off + n)"
    proof
      assume a: "off \<le> p \<and> p < off + n"
      then have "off mod BSIZE + (p - off) < BSIZE" using r by auto
      from same_block(1) [OF this] a False show False by simp
    qed
    ultimately show ?thesis using b [OF q] by (auto simp: fbyte_def)
  qed
qed

lemma tx_same_view:
  fixes s t :: "'a fsst_scheme"
  assumes "tx i {} ls K s" "same_view i s t"
  shows "after i {} ls K s t"
proof -
  have m: "bst.more t = bst.more s" using assms(2) by (simp add: same_view_def)
  note kl = klog_more [OF m]
  show ?thesis using assms by (simp add: after_def tx_def same_view_def kl klog_is_def keeps_def)
qed

lemma writei_loop_safe:
  fixes s :: "'a fsst_scheme"
  assumes "tx i {} ls K s" "inodes s ! ip = x" "i_dev x = 1" "own_blocks (cview s) x m" "off + n \<le> m * BSIZE"
    "\<forall>q. off div BSIZE \<le> q \<and> q * BSIZE < off + n \<longrightarrow> baddr (cview s) x q \<in> K"
  shows "safe (\<lambda>t. disk t = disk s) (quiet i) (writei_loop ip src tot off n s)
    (\<lambda>_ t. after i {} ls K s t \<and> written x m off (\<lambda>j. src (tot + j)) n (cview s) (cview t))"
  using assms
proof (induction n arbitrary: tot off s rule: less_induct)
  case (less n)
  show ?case
  proof (cases "n = 0")
    case True
    then show ?thesis using less.prems(1) by (simp add: writei_loop.simps after_def written_0)
  next
    case False
    let ?m = "min n (BSIZE - off mod BSIZE)" and ?V = "cview s" and ?q = "off div BSIZE"
    have B: "off mod BSIZE < BSIZE" "0 < BSIZE" "?q * BSIZE \<le> off" by (simp_all add: BSIZE_def)
    have q: "?q < m" using less.prems(5) False B(2) by (simp add: less_mult_imp_div_less)
    have h: "has_blocks ?V x m" using less.prems(4) by (simp add: own_blocks_def)
    let ?a = "baddr ?V x ?q"
    let ?d = "blit (off mod BSIZE) (map src [tot..<tot + ?m]) (?V ?a)"
    have len: "length (?V k) = BSIZE" for k using less.prems(1) by (simp add: tx_def reading_def)
    have a: "?a \<in> K" using less.prems(6) B(3) False by (metis le_less_trans less_add_same_cancel1 neq0_conv order_refl)
    have "off mod BSIZE + ?m \<le> BSIZE" using B(1) by linarith
    then have ld: "length ?d = BSIZE" using len by simp
    have src: "map src [tot..<tot + ?m] = map (\<lambda>j. src (tot + j)) [0..<?m]"
      by (rule nth_equalityI) simp_all
    have W: "written x m off (\<lambda>j. src (tot + j)) ?m ?V (?V(?a := ?d))"
      unfolding src by (rule written_block [OF less.prems(4) q len]) simp
    have step: "writei_loop ip src tot off n s = rbind (bmap ip (of_nat ?q) s) (\<lambda>addr s.
        rbind (rbind (bread (i_dev (inodes s ! ip)) addr s) (\<lambda>bp s.
          write_back bp (blit (off mod BSIZE) (map src [tot..<tot + ?m]) (b_data (bufs s ! bp))) s)) (\<lambda>_ s.
          writei_loop ip src (tot + ?m) (off + ?m) (n - ?m) s))"
      using False by (simp add: writei_loop.simps [of ip src tot off n s] Let_def rbind_assoc)
    show ?thesis
      unfolding step
    proof (rule safe_bind [OF bmap_read_safe [OF tx_reading [OF less.prems(1)] less.prems(2,3) h q]])
      fix addr and u :: "'a fsst_scheme"
      assume u: "addr = ?a \<and> same_view i s u"
      then have us: "same_view i s u" by simp
      note uf = same_view_fs [OF us] and ua = tx_same_view [OF less.prems(1) us]
      have "safe (\<lambda>t. disk t = disk u) (quiet i) (rbind (bread 1 ?a u) (\<lambda>bp s.
          write_back bp (blit (off mod BSIZE) (map src [tot..<tot + ?m]) (b_data (bufs s ! bp))) s))
          (\<lambda>_ t. after i {} ls K u t \<and> cview t = (cview u)(?a := ?d))"
        using ua a uf(6) ld by (intro tx_update) (simp_all add: after_def)
      then have "safe (\<lambda>t. disk t = disk s) (quiet i) (rbind (bread (i_dev (inodes u ! ip)) addr u) (\<lambda>bp s.
          write_back bp (blit (off mod BSIZE) (map src [tot..<tot + ?m]) (b_data (bufs s ! bp))) s))
          (\<lambda>_ t. after i {} ls K s t \<and> cview t = ?V(?a := ?d))"
        unfolding uf(6,7) uf(1) less.prems(2,3) using u after_trans [OF ua]
        by (auto elim: safe_mono)
      then show "safe (\<lambda>t. disk t = disk s) (quiet i) (rbind (rbind (bread (i_dev (inodes u ! ip)) addr u) (\<lambda>bp s.
          write_back bp (blit (off mod BSIZE) (map src [tot..<tot + ?m]) (b_data (bufs s ! bp))) s)) (\<lambda>_ s.
          writei_loop ip src (tot + ?m) (off + ?m) (n - ?m) s))
        (\<lambda>_ t. after i {} ls K s t \<and> written x m off (\<lambda>j. src (tot + j)) n (cview s) (cview t))"
      proof (rule safe_bind)
        fix v :: "'a fsst_scheme" assume v: "after i {} ls K s v \<and> cview v = ?V(?a := ?d)"
        then have iv: "inodes v = inodes s" using fs_more(2) [of v s] by (simp add: after_def)
        have Wv: "written x m off (\<lambda>j. src (tot + j)) ?m ?V (cview v)" using W v by simp
        have same: "\<forall>q<m. baddr (cview v) x q = baddr ?V x q" using Wv by (simp add: written_def)
        have K: "baddr (cview v) x q \<in> K" if "(off + ?m) div BSIZE \<le> q" "q * BSIZE < off + ?m + (n - ?m)" for q
        proof -
          have "?q \<le> (off + ?m) div BSIZE" by (rule div_le_mono) simp
          moreover have "q * BSIZE < m * BSIZE" using that(2) less.prems(5) by linarith
          ultimately show ?thesis using that same less.prems(6) by auto
        qed
        have "safe (\<lambda>t. disk t = disk v) (quiet i) (writei_loop ip src (tot + ?m) (off + ?m) (n - ?m) v)
          (\<lambda>_ t. after i {} ls K v t \<and> written x m (off + ?m) (\<lambda>j. src (tot + ?m + j)) (n - ?m) (cview v) (cview t))"
        proof (rule less.IH)
          show "tx i {} ls K v" using v by (simp add: after_def)
          show "own_blocks (cview v) x m" using own_blocks_written [OF less.prems(4) Wv] .
        qed (use less.prems(2,3,5) iv B(1) False K in auto)
        moreover have "disk v = disk s" using v by (simp add: after_def)
        moreover have "written x m off (\<lambda>j. src (tot + j)) n ?V (cview t)"
          if "written x m (off + ?m) (\<lambda>j. src (tot + ?m + j)) (n - ?m) (cview v) (cview t)" for t :: "'a fsst_scheme"
          using written_trans [OF Wv, of "n - ?m" "cview t"] that by (simp add: add.assoc)
        ultimately show "safe (\<lambda>t. disk t = disk s) (quiet i) (writei_loop ip src (tot + ?m) (off + ?m) (n - ?m) v)
          (\<lambda>_ t. after i {} ls K s t \<and> written x m off (\<lambda>j. src (tot + j)) n (cview s) (cview t))"
          using v after_trans by (auto elim!: safe_mono)
      qed
    qed
  qed
qed

lemma upd_inode_bst [simp]:
  "bufs (upd_inode ip f s) = bufs s" "disk (upd_inode ip f s) = disk s" "klog (upd_inode ip f s) = klog s"
  "bwf i L (upd_inode ip f s) = bwf i L s" "cview (upd_inode ip f s) = cview s" "pinned (upd_inode ip f s) = pinned s"
  "sb (upd_inode ip f s) = sb s" "fsst.more (upd_inode ip f s) = fsst.more s"
  "inodes (upd_inode ip f s) = (inodes s)[ip := f (inodes s ! ip)]"
  by (simp_all add: upd_inode_def bwf_def cview_def pinned_def dirty_set_def io_ready_def has_slk_def runs_def
      on_cpu_def fun_eq_iff split: option.split)

lemma upd_inode_frame [simp]:
  "reading i L (upd_inode ip f s) = reading i L s" "tx i L ls K (upd_inode ip f s) = tx i L ls K s"
  "keeps L s (upd_inode ip f s)" "keeps L (upd_inode ip f s) t = keeps L s t"
  "inode_block (upd_inode ip f s) n = inode_block s n" "stored (upd_inode ip f s) n = stored s n"
  by (simp_all add: tx_def reading_def keeps_def klog_is_def log_dev_def head_block_def inode_block_def stored_def)

text \<open>Blocks outside the file do not matter to it.\<close>

lemma file_frame:
  assumes "has_blocks V x m" "\<forall>q<m. V' (baddr V x q) = V (baddr V x q)"
    "NDIRECT < m \<longrightarrow> V' (i_addrs x ! NDIRECT) = V (i_addrs x ! NDIRECT)"
  shows "\<forall>q<m. baddr V' x q = baddr V x q" "p < m * BSIZE \<Longrightarrow> fbyte V' x p = fbyte V x p"
proof -
  show b: "\<forall>q<m. baddr V' x q = baddr V x q" using assms(3) by (auto simp: baddr_def)
  show "fbyte V' x p = fbyte V x p" if "p < m * BSIZE"
  proof -
    have "p div BSIZE < m" using that by (simp add: less_mult_imp_div_less)
    with b assms(2) show ?thesis by (simp add: fbyte_def)
  qed
qed

lemma baddr_size [simp]:
  "baddr V (x\<lparr>i_size := z\<rparr>) = baddr V x" "fbyte V (x\<lparr>i_size := z\<rparr>) = fbyte V x"
  by (simp_all add: baddr_def fbyte_def fun_eq_iff)

text \<open>The contents of a file after a write that may have made it longer.\<close>

lemma contents_written:
  assumes w: "written x m off src n V V'" and m: "unat (i_size x) \<le> m * BSIZE" "off + n \<le> m * BSIZE"
    and off: "off \<le> unat (i_size x)" and z: "unat z = max (unat (i_size x)) (off + n)"
  shows "contents V' (x\<lparr>i_size := z\<rparr>) = blit off (map src [0..<n]) (contents V x)"
proof (rule nth_equalityI)
  let ?c = "contents V x"
  have l: "length ?c = unat (i_size x)" by (simp add: contents_def)
  show "length (contents V' (x\<lparr>i_size := z\<rparr>)) = length (blit off (map src [0..<n]) ?c)"
    using off z by (simp add: contents_def blit_def)
  fix p assume "p < length (contents V' (x\<lparr>i_size := z\<rparr>))"
  then have p: "p < max (unat (i_size x)) (off + n)" by (simp add: contents_def z)
  then have "fbyte V' x p = (if off \<le> p \<and> p < off + n then src (p - off) else fbyte V x p)"
    using w m by (auto simp: written_def max_def split: if_splits)
  moreover have "contents V' (x\<lparr>i_size := z\<rparr>) ! p = fbyte V' x p" using p z by (simp add: contents_def)
  moreover have "?c ! p = fbyte V x p" if "p < unat (i_size x)" using that by (simp add: contents_def)
  ultimately show "contents V' (x\<lparr>i_size := z\<rparr>) ! p = blit off (map src [0..<n]) ?c ! p"
    using p off by (auto simp: blit_def nth_append l)
qed

lemma contents_frame:
  assumes "has_blocks V x m" "\<forall>q<m. V' (baddr V x q) = V (baddr V x q)"
    "NDIRECT < m \<longrightarrow> V' (i_addrs x ! NDIRECT) = V (i_addrs x ! NDIRECT)" "unat (i_size x) \<le> m * BSIZE"
  shows "contents V' x = contents V x"
  using file_frame(2) [OF assms(1-3)] assms(4) by (simp add: contents_def)

text \<open>The end of \<^verbatim>\<open>writei\<close>: the file has grown, and its inode is written.\<close>

lemma writei_grow:
  fixes v :: "'a fsst_scheme"
  assumes v: "tx i {} ls K v" and x: "ip < length (inodes v)" "inodes v ! ip = x" "i_dev x = 1" "length (i_addrs x) = NDIRECT + 1"
    and K: "inode_block v (i_inum x) \<in> K"
    and blk: "has_blocks (cview v) x m" "inode_block v (i_inum x) \<notin> baddr (cview v) x ` {..<m}"
      "inode_block v (i_inum x) \<noteq> i_addrs x ! NDIRECT" "unat z \<le> m * BSIZE"
  shows "safe (\<lambda>t. disk t = disk v) (quiet i) (iupdate ip (upd_inode ip (\<lambda>x. x\<lparr>i_size := z\<rparr>) v))
    (\<lambda>_ t. tx i {} ls K t \<and> disk t = disk v \<and> inodes t = (inodes v)[ip := x\<lparr>i_size := z\<rparr>]
      \<and> contents (cview t) (x\<lparr>i_size := z\<rparr>) = contents (cview v) (x\<lparr>i_size := z\<rparr>)
      \<and> stored t (i_inum x) = dinode_of (x\<lparr>i_size := z\<rparr>)
      \<and> (\<forall>k. k \<noteq> inode_block v (i_inum x) \<longrightarrow> cview t k = cview v k))"
proof -
  let ?u = "upd_inode ip (\<lambda>x. x\<lparr>i_size := z\<rparr>) v" and ?y = "x\<lparr>i_size := z\<rparr>"
  have u: "tx i {} ls K ?u" using v by simp
  have y: "inodes ?u ! ip = ?y" using x(1,2) by simp
  have "safe (\<lambda>t. disk t = disk ?u) (quiet i) (iupdate ip ?u)
    (\<lambda>_ t. after i {} ls K ?u t \<and> stored t (i_inum ?y) = dinode_of ?y
      \<and> (\<forall>n. n \<noteq> i_inum ?y \<longrightarrow> stored t n = stored ?u n)
      \<and> (\<forall>k. k \<noteq> inode_block ?u (i_inum ?y) \<longrightarrow> cview t k = cview ?u k))"
    using iupdate_safe [OF u, where ip = ip] x(3,4) K unfolding y by simp
  then have "safe (\<lambda>t. disk t = disk v) (quiet i) (iupdate ip ?u)
    (\<lambda>_ t. after i {} ls K ?u t \<and> stored t (i_inum x) = dinode_of ?y
      \<and> (\<forall>k. k \<noteq> inode_block v (i_inum x) \<longrightarrow> cview t k = cview v k))"
    by (simp add: safe_mono)
  then show ?thesis
  proof (rule safe_mono)
    fix t :: "'a fsst_scheme"
    assume t: "after i {} ls K ?u t \<and> stored t (i_inum x) = dinode_of ?y
      \<and> (\<forall>k. k \<noteq> inode_block v (i_inum x) \<longrightarrow> cview t k = cview v k)"
    have "baddr (cview v) x q \<noteq> inode_block v (i_inum x)" if "q < m" for q using blk(2) that by (metis image_eqI lessThan_iff)
    then have "contents (cview t) ?y = contents (cview v) ?y"
      by (intro contents_frame [where m = m]) (use t blk in \<open>auto simp: has_blocks_def\<close>)
    moreover have "inodes t = inodes ?u" using t fs_more(2) [of t ?u] by (simp only: after_def)
    ultimately show "tx i {} ls K t \<and> disk t = disk v \<and> inodes t = (inodes v)[ip := ?y]
      \<and> contents (cview t) ?y = contents (cview v) ?y \<and> stored t (i_inum x) = dinode_of ?y
      \<and> (\<forall>k. k \<noteq> inode_block v (i_inum x) \<longrightarrow> cview t k = cview v k)"
      using t x(2) by (simp add: after_def)
  qed
qed

lemma writei_safe:
  fixes s :: "'a consst_scheme"
  assumes s: "tx i {} ls K s" and x: "ip < length (inodes s)" "inodes s ! ip = x" "i_dev x = 1" "i_type x \<noteq> T_DEV"
      "length (i_addrs x) = NDIRECT + 1"
    and m: "own_blocks (cview s) x m" "unat (i_size x) \<le> m * BSIZE" "unat off + unat n \<le> m * BSIZE" "off \<le> i_size x"
    and blk: "inode_block s (i_inum x) \<notin> baddr (cview s) x ` {..<m}" "inode_block s (i_inum x) \<noteq> i_addrs x ! NDIRECT"
    and K: "inode_block s (i_inum x) \<in> K" "\<forall>q<m. baddr (cview s) x q \<in> K"
  shows "safe (\<lambda>t. disk t = disk s) (quiet i) (writei ip src off n s)
    (\<lambda>r t. r = int (unat n) \<and> tx i {} ls K t \<and> disk t = disk s
      \<and> contents (cview t) (inodes t ! ip) = blit (unat off) (map src [0..<unat n]) (contents (cview s) x)
      \<and> inodes t = (inodes s)[ip := x\<lparr>i_size := max (i_size x) (off + n)\<rparr>]
      \<and> (i_size x < off + n \<longrightarrow> stored t (i_inum x) = dinode_of (inodes t ! ip))
      \<and> (\<forall>k. k \<notin> baddr (cview s) x ` {..<m} \<and> k \<noteq> inode_block s (i_inum x) \<longrightarrow> cview t k = cview s k))"
    (is "safe _ _ _ ?Q")
proof -
  let ?V = "cview s" and ?b = "inode_block s (i_inum x)" and ?z = "max (i_size x) (off + n)"
  have M: "m * BSIZE \<le> MAXFILE * BSIZE" using m(1) by (intro mult_le_mono1) (simp add: own_blocks_def has_blocks_def)
  then have small: "unat off + unat n \<le> 71680" using m(3) by (simp add: MAXFILE_def NDIRECT_def NINDIRECT_def BSIZE_def)
  then have p: "unat (off + n) = unat off + unat n" by (simp add: unat_word_ariths)
  have sn: "sint n = int (unat n)" using small by (intro sint_nat) simp
  have z: "unat ?z = max (unat (i_size x)) (unat off + unat n)" by (simp add: max_def word_le_nat_alt p)
  have guard: "\<not> (i_size x < off \<or> off + n < off)" "\<not> of_nat (MAXFILE * BSIZE) < off + n"
    using m(4) small by (auto simp: word_less_nat_alt word_le_nat_alt p not_less MAXFILE_def NDIRECT_def NINDIRECT_def BSIZE_def)
  have loop: "safe (\<lambda>t. disk t = disk s) (quiet i) (writei_loop ip src 0 (unat off) (unat n) s)
    (\<lambda>_ t. after i {} ls K s t \<and> written x m (unat off) src (unat n) ?V (cview t))"
  proof -
    have "q < m" if "q * BSIZE < unat off + unat n" for q using that m(3) by (metis less_le_trans mult_less_cancel2)
    then show ?thesis
      using writei_loop_safe [OF s x(2,3) m(1,3), where src = src and tot = 0] K(2) by simp
  qed
  have e: "writei ip src off n s = rbind (writei_loop ip src 0 (unat off) (unat n) s) (\<lambda>_ t.
      rbind (if n > 0 \<and> off + n > i_size (inodes t ! ip) then iupdate ip (upd_inode ip (\<lambda>x. x\<lparr>i_size := off + n\<rparr>) t)
        else Ok () t) (\<lambda>_ t. Ok (int (unat n)) t))"
    using guard x(2,4) sn by (simp add: writei_def Let_def)
  show ?thesis
    unfolding e
  proof (rule safe_bind [OF loop])
    fix v :: "'a consst_scheme"
    assume v: "after i {} ls K s v \<and> written x m (unat off) src (unat n) ?V (cview v)"
    then have v': "tx i {} ls K v" "disk v = disk s" "inodes v = inodes s" "sb v = sb s" "fsst.more v = fsst.more s"
      using fs_more [of v s] by (simp_all add: after_def)
    have w: "written x m (unat off) src (unat n) ?V (cview v)" using v by simp
    note c = contents_written [OF w m(2,3) m(4) [unfolded word_le_nat_alt] z]
    have b: "inode_block v (i_inum x) = ?b" using v'(4) by (simp add: inode_block_def)
    have im: "baddr (cview v) x ` {..<m} = baddr ?V x ` {..<m}"
      using w by (intro image_cong) (simp_all add: written_def)
    show "safe (\<lambda>t. disk t = disk s) (quiet i) (rbind (if n > 0 \<and> off + n > i_size (inodes v ! ip)
        then iupdate ip (upd_inode ip (\<lambda>x. x\<lparr>i_size := off + n\<rparr>) v) else Ok () v) (\<lambda>_ t. Ok (int (unat n)) t)) ?Q"
    proof (cases "i_size x < off + n")
      case True
      then have zz: "?z = off + n" by (simp add: max.absorb2)
      have n0: "0 < n" using True m(4) by (cases "n = 0") (auto simp: word_neq_0_conv)
      have "own_blocks (cview v) x m" using own_blocks_written [OF m(1) w] .
      then have "has_blocks (cview v) x m" by (simp add: own_blocks_def)
      then have "safe (\<lambda>t. disk t = disk v) (quiet i) (iupdate ip (upd_inode ip (\<lambda>x. x\<lparr>i_size := off + n\<rparr>) v))
        (\<lambda>_ t. tx i {} ls K t \<and> disk t = disk v \<and> inodes t = (inodes v)[ip := x\<lparr>i_size := off + n\<rparr>]
          \<and> contents (cview t) (x\<lparr>i_size := off + n\<rparr>) = contents (cview v) (x\<lparr>i_size := off + n\<rparr>)
          \<and> stored t (i_inum x) = dinode_of (x\<lparr>i_size := off + n\<rparr>)
          \<and> (\<forall>k. k \<noteq> inode_block v (i_inum x) \<longrightarrow> cview t k = cview v k))"
        using v' x K(1) blk b im m(3) p by (intro writei_grow) simp_all
      then have "safe (\<lambda>t. disk t = disk s) (quiet i) (rbind (iupdate ip (upd_inode ip (\<lambda>x. x\<lparr>i_size := off + n\<rparr>) v))
          (\<lambda>_ t. Ok (int (unat n)) t)) ?Q"
        unfolding v'(2) by (rule safe_bind) (use c zz x(1) v'(2,3) w b in \<open>auto simp: written_def\<close>)
      then show ?thesis using True n0 v'(3) x(2) by simp
    next
      case False
      then have zz: "?z = i_size x" by (simp add: max.absorb1)
      have "?Q (int (unat n)) v" using v' c zz x(1,2) w False by (auto simp: written_def)
      then show ?thesis using False v'(3) x(2) by simp
    qed
  qed
qed

text \<open>
  C3. \<^verbatim>\<open>writei\<close> writes the file: inside a transaction that may log the blocks it touches, for a file whose
  blocks are allocated, it returns \<open>n\<close> and replaces exactly the bytes from \<^verbatim>\<open>off\<close> on, making the file longer
  if they go past its end; a longer file is recorded in the inode on the disk. Every block outside the
  file and the inode's block keeps its contents, and nothing reaches the disk before the commit.
\<close>

theorem writei_correct:
  fixes s :: "'a consst_scheme"
  assumes s: "tx i {} ls K s" and x: "ip < length (inodes s)" "inodes s ! ip = x" "i_dev x = 1" "i_type x \<noteq> T_DEV"
      "length (i_addrs x) = NDIRECT + 1"
    and m: "own_blocks (cview s) x m" "unat (i_size x) \<le> m * BSIZE" "unat off + unat n \<le> m * BSIZE" "off \<le> i_size x"
    and blk: "inode_block s (i_inum x) \<notin> baddr (cview s) x ` {..<m}" "inode_block s (i_inum x) \<noteq> i_addrs x ! NDIRECT"
    and K: "inode_block s (i_inum x) \<in> K" "\<forall>q<m. baddr (cview s) x q \<in> K"
  shows "safe (\<lambda>t. disk t = disk s) (quiet i) (writei ip src off n s)
    (\<lambda>r t. r = int (unat n) \<and> tx i {} ls K t \<and> disk t = disk s
      \<and> contents (cview t) (inodes t ! ip) = blit (unat off) (map src [0..<unat n]) (contents (cview s) x)
      \<and> inodes t = (inodes s)[ip := x\<lparr>i_size := max (i_size x) (off + n)\<rparr>]
      \<and> (i_size x < off + n \<longrightarrow> stored t (i_inum x) = dinode_of (inodes t ! ip))
      \<and> (\<forall>k. k \<notin> baddr (cview s) x ` {..<m} \<and> k \<noteq> inode_block s (i_inum x) \<longrightarrow> cview t k = cview s k))"
  using assms by (rule writei_safe)

section \<open>Witnesses\<close>

text \<open>
  A disk with a file of 600 bytes in the blocks 100 and 101, whose inode 5 is cached; for witnesses.
\<close>

definition cons_ext :: "unit consst_ext" where
  "cons_ext = \<lparr>cons_locking = True, panicked = False, crt = (\<lambda>_. 0), crt_pos = 0, uart = True, serial = [],
     input = \<lparr>in_buf = replicate INPUT_BUF 0, in_r = 0, in_w = 0, in_e = 0\<rparr>, devtab = [], kbd_shift = 0\<rparr>"

definition demo_inode :: inode where
  "demo_inode = \<lparr>i_dev = 1, i_inum = 5, i_ref = 1, i_valid = True, i_type = T_FILE, i_major = 0, i_minor = 0, i_nlink = 1,
     i_size = 600, i_addrs = [100, 101] @ replicate 11 0\<rparr>"

definition demo_disk :: "u32 \<Rightarrow> block" where
  "demo_disk k = replicate BSIZE (ucast k)"

definition demo :: consst where
  "demo = fs_boot demo_disk meta_sb [demo_inode] cons_ext"

lemma demo_view: "reading 0 {} demo" "cview demo = demo_disk" "inodes demo = [demo_inode]" "sb demo = meta_sb"
  "disk demo d = demo_disk"
  using fs_boot_reading [of demo_disk] by (simp_all add: demo_def demo_disk_def)

lemma demo_blocks:
  "own_blocks demo_disk demo_inode 2" "baddr demo_disk demo_inode ` {..<2} = {100, 101}"
  "\<forall>q<2. baddr demo_disk demo_inode q \<in> {100, 101}"
proof -
  have b: "baddr demo_disk demo_inode 0 = 100" "baddr demo_disk demo_inode 1 = 101"
    by (simp_all add: baddr_def demo_inode_def NDIRECT_def)
  have two: "{..<2::nat} = {0, 1}" by auto
  show im: "baddr demo_disk demo_inode ` {..<2} = {100, 101}" unfolding two using b by simp
  then show "\<forall>q<2. baddr demo_disk demo_inode q \<in> {100, 101}" by blast
  have "\<forall>n\<in>{..<2}. baddr demo_disk demo_inode n \<noteq> 0 \<and> baddr demo_disk demo_inode n < FSSIZE"
    unfolding two using b by (simp add: FSSIZE_def)
  moreover have "inj_on (baddr demo_disk demo_inode) {..<2}" unfolding two using b by simp
  ultimately show "own_blocks demo_disk demo_inode 2" by (simp add: own_blocks_def has_blocks_def MAXFILE_def NDIRECT_def)
qed

lemma demo_contents: "contents demo_disk demo_inode = replicate 512 100 @ replicate 88 101"
proof (rule nth_equalityI)
  have s: "unat (i_size demo_inode) = 600" by (simp add: demo_inode_def)
  show "length (contents demo_disk demo_inode) = length (replicate 512 (100::u8) @ replicate 88 101)"
    by (simp add: contents_def s)
  fix p assume "p < length (contents demo_disk demo_inode)"
  then have p: "p < 600" by (simp add: contents_def s)
  then have "p div 512 = (if p < 512 then 0 else 1)" by (auto simp: div_nat_eqI)
  moreover have "p mod 512 < 512" by simp
  ultimately show "contents demo_disk demo_inode ! p = (replicate 512 100 @ replicate 88 101) ! p"
    using p by (simp add: contents_def s fbyte_def baddr_def BSIZE_def demo_disk_def nth_append NDIRECT_def) (simp add: demo_inode_def)
qed

theorem readi_correct_witness:
  "safe (\<lambda>t. disk t = disk demo) (quiet 0) (readi 0 510 1000 demo)
    (\<lambda>(r, bs) t. same_view 0 demo t \<and> bs = replicate 2 100 @ replicate 88 101 \<and> r = 90)"
proof -
  have s: "unat (i_size demo_inode) = 600" by (simp add: demo_inode_def)
  note c = demo_contents
  have "safe (\<lambda>t. disk t = disk demo) (quiet 0) (readi 0 510 1000 demo)
    (\<lambda>(r, bs) t. same_view 0 demo t \<and>
      (if 510 \<le> i_size demo_inode \<and> unat (510 :: u32) + unat (1000 :: u32) < 2 ^ 32
       then bs = take (unat (1000 :: u32)) (drop (unat (510 :: u32)) (contents (cview demo) demo_inode)) \<and> r = int (length bs)
       else r = -1 \<and> bs = []))"
    using demo_blocks(1) by (intro readi_correct [where m = 2]) 
      (simp_all add: demo_view own_blocks_def s BSIZE_def, simp_all add: demo_inode_def T_DEV_def T_FILE_def)
  then show ?thesis
    unfolding demo_view(2) c by (rule safe_mono) (auto simp: demo_inode_def)
qed

theorem writei_correct_witness:
  "safe (\<lambda>t. disk t = disk demo) (quiet 0) (writei 0 (\<lambda>j. of_nat (7 + j)) 599 3 demo)
    (\<lambda>r t. r = 3 \<and> contents (cview t) (inodes t ! 0) = replicate 512 100 @ replicate 87 101 @ [7, 8, 9]
      \<and> i_size (inodes t ! 0) = 602 \<and> stored t 5 = dinode_of (inodes t ! 0))"
proof -
  let ?src = "\<lambda>j. of_nat (7 + j) :: u8" and ?K = "{32, 100, 101} :: u32 set"
  have tx: "tx 0 {} 2 ?K demo" unfolding demo_def by (rule fs_boot_tx) (simp_all add: demo_disk_def FSSIZE_def)
  have b: "inode_block demo (i_inum demo_inode) = 32"
    by (simp add: inode_block_def demo_view IBLOCK_def meta_sb_def demo_inode_def IPB_def BSIZE_def DINODE_SIZE_def)
  have x: "i_dev demo_inode = 1" "i_type demo_inode \<noteq> T_DEV" "length (i_addrs demo_inode) = NDIRECT + 1" "i_inum demo_inode = 5"
    "i_size demo_inode = 600" "i_addrs demo_inode ! NDIRECT = 0"
    by (simp_all add: demo_inode_def T_DEV_def T_FILE_def NDIRECT_def)
  have "blit 599 (map ?src [0..<3]) (contents demo_disk demo_inode) = replicate 512 100 @ replicate 87 101 @ [7, 8, 9]"
    by (simp add: demo_contents blit_def upt_rec)
  moreover have "\<forall>q<2. baddr (cview demo) demo_inode q \<in> ?K" using demo_blocks(3) by (auto simp: demo_view)
  ultimately show ?thesis
    using writei_correct [OF tx, of 0 demo_inode 2 599 3 ?src] demo_blocks(1,2) b x
    by (auto simp: demo_view BSIZE_def elim!: safe_mono)
qed

end
