(* ===== verification/Dirs.thy ===== *)
theory Dirs
  imports Contents
begin

text \<open>
  What the directory and path routines of \<^verbatim>\<open>fs.c\<close> promise: \<^verbatim>\<open>namecmp\<close> compares names as the file system
  stores them, \<^verbatim>\<open>iget\<close> gives every inode at most one entry of the cache, \<^verbatim>\<open>dirlookup\<close> finds the first
  entry with a given name, and \<^verbatim>\<open>skipelem\<close> splits a path into its elements.
\<close>

section \<open>Names\<close>

text \<open>A name is what precedes the first NUL in at most \<open>DIRSIZ\<close> bytes.\<close>

abbreviation dname :: "u8 list \<Rightarrow> u8 list" where
  "dname xs \<equiv> cstr DIRSIZ xs"

lemma cstr_pad: "cstr n (pad n xs) = cstr n xs"
proof (cases "n \<le> length xs")
  case False
  then have "pad n xs = xs @ replicate (n - length xs) 0" by (simp add: pad_def min_def)
  moreover have "takeWhile (\<lambda>c. c \<noteq> 0) (xs @ replicate k (0::u8)) = takeWhile (\<lambda>c. c \<noteq> 0) xs" for k
    by (induction xs) (cases k; simp)+
  ultimately show ?thesis using False by (simp add: cstr_def)
qed (simp add: pad_def cstr_def)

lemma namecmp_eq: "namecmp s t = 0 \<longleftrightarrow> dname s = dname t"
proof -
  have l: "length (pad DIRSIZ xs) = DIRSIZ" for xs by (simp add: pad_def)
  have "region (\<lambda>i. (pad DIRSIZ s @ pad DIRSIZ t) ! i) 0 DIRSIZ = pad DIRSIZ s"
    "region (\<lambda>i. (pad DIRSIZ s @ pad DIRSIZ t) ! i) DIRSIZ DIRSIZ = pad DIRSIZ t"
    using l by (auto simp: nth_append intro!: nth_equalityI)
  then show ?thesis by (simp add: namecmp_def strncmp_eq_0_iff cstr_pad)
qed

section \<open>The inode cache\<close>

text \<open>Every inode has at most one entry of the cache that is in use.\<close>

definition icache_ok :: "'a fsst_scheme \<Rightarrow> bool" where
  "icache_ok s \<longleftrightarrow> length (inodes s) = NINODE \<and> (\<forall>a<NINODE. 0 \<le> i_ref (inodes s ! a))
     \<and> (\<forall>a<NINODE. \<forall>b<NINODE. i_ref (inodes s ! a) > 0 \<and> i_ref (inodes s ! b) > 0
          \<and> i_dev (inodes s ! a) = i_dev (inodes s ! b) \<and> i_inum (inodes s ! a) = i_inum (inodes s ! b) \<longrightarrow> a = b)"

text \<open>\<open>refs s d n\<close> is the number of references that the cache holds to inode \<open>n\<close> of device \<open>d\<close>.\<close>

definition is_inode :: "u32 \<Rightarrow> u32 \<Rightarrow> inode \<Rightarrow> bool" where
  "is_inode d n x \<longleftrightarrow> i_ref x > 0 \<and> i_dev x = d \<and> i_inum x = n"

definition refs :: "'a fsst_scheme \<Rightarrow> u32 \<Rightarrow> u32 \<Rightarrow> int" where
  "refs s d n = (case first_index (is_inode d n) (inodes s) of Some a \<Rightarrow> i_ref (inodes s ! a) | None \<Rightarrow> 0)"

lemma refs_at:
  assumes "icache_ok s" "a < NINODE" "is_inode d n (inodes s ! a)"
  shows "refs s d n = i_ref (inodes s ! a)" "first_index (is_inode d n) (inodes s) = Some a"
proof -
  obtain b where b: "first_index (is_inode d n) (inodes s) = Some b"
    using first_index_exists [of "inodes s ! a" "inodes s" "is_inode d n"] assms by (auto simp: icache_ok_def)
  then have "b < NINODE" "is_inode d n (inodes s ! b)" using first_index_SomeD [OF b] assms(1) by (auto simp: icache_ok_def)
  then have "b = a" using assms by (auto simp: icache_ok_def is_inode_def)
  then show "refs s d n = i_ref (inodes s ! a)" "first_index (is_inode d n) (inodes s) = Some a"
    using b by (simp_all add: refs_def)
qed

lemma upd_inode_held:
  "held s = [] \<Longrightarrow> (upd_inode ip f (s\<lparr>held := h\<rparr>))\<lparr>held := []\<rparr> = upd_inode ip f s"
  by (cases s) (simp add: upd_inode_def)

lemma inodes_held [simp]: "inodes (s\<lparr>held := h\<rparr>) = inodes s"
  by simp

lemma iget_eq:
  fixes s :: "'a fsst_scheme"
  assumes "held s = []"
  shows "iget d n s = (case first_index (is_inode d n) (inodes s) of
      Some a \<Rightarrow> Ok a (upd_inode a (\<lambda>x. x\<lparr>i_ref := i_ref x + 1\<rparr>) s)
    | None \<Rightarrow> (case first_index (\<lambda>x. i_ref x = 0) (inodes s) of
        None \<Rightarrow> Panic ''iget: no inodes''
      | Some a \<Rightarrow> Ok a (upd_inode a (\<lambda>x. x\<lparr>i_dev := d, i_inum := n, i_ref := 1, i_valid := False\<rparr>) s)))"
proof -
  have "held (upd_inode ip f (s\<lparr>held := h\<rparr>)) = h" for ip f h by (simp add: upd_inode_def)
  moreover have "is_inode d n = (\<lambda>x. 0 < i_ref x \<and> i_dev x = d \<and> i_inum x = n)" by (auto simp: is_inode_def)
  ultimately show ?thesis
    using assms by (auto simp: iget_def upd_inode_held split: option.split)
qed

lemma first_index_map: "map P xs = map Q ys \<Longrightarrow> first_index P xs = first_index Q ys"
proof (induction xs arbitrary: ys)
  case (Cons x xs)
  then show ?case by (cases ys) auto
qed simp

lemma refs_cong:
  fixes s t :: "'a fsst_scheme"
  assumes "length (inodes t) = length (inodes s)"
    "\<And>a. a < length (inodes s) \<Longrightarrow> is_inode d n (inodes t ! a) = is_inode d n (inodes s ! a)"
    "\<And>a. a < length (inodes s) \<Longrightarrow> is_inode d n (inodes s ! a) \<Longrightarrow> i_ref (inodes t ! a) = i_ref (inodes s ! a)"
  shows "refs t d n = refs s d n"
proof -
  have "map (is_inode d n) (inodes t) = map (is_inode d n) (inodes s)"
    using assms(1,2) by (intro nth_equalityI) simp_all
  then have "first_index (is_inode d n) (inodes t) = first_index (is_inode d n) (inodes s)" by (rule first_index_map)
  then show ?thesis
    using assms(3) first_index_SomeD [of "is_inode d n" "inodes s"] by (auto simp: refs_def split: option.split)
qed

text \<open>\<open>iget\<close> changes one entry \<open>a\<close>, which afterwards is the one entry for the inode.\<close>

lemma iget_entry:
  fixes s :: "'a fsst_scheme"
  assumes s: "icache_ok s" "held s = []" and room: "\<exists>a<NINODE. is_inode d n (inodes s ! a) \<or> i_ref (inodes s ! a) = 0"
  obtains a x where "iget d n s = Ok a (upd_inode a (\<lambda>_. x) s)" "a < NINODE" "is_inode d n x"
    "i_ref x = refs s d n + 1"
    "is_inode d n (inodes s ! a) \<or> i_ref (inodes s ! a) = 0 \<and> first_index (is_inode d n) (inodes s) = None"
proof (cases "first_index (is_inode d n) (inodes s)")
  case (Some a)
  then have a: "a < NINODE" "is_inode d n (inodes s ! a)"
    using first_index_SomeD [OF Some] s(1) by (auto simp: icache_ok_def)
  then show thesis
    using that [of a "(inodes s ! a)\<lparr>i_ref := i_ref (inodes s ! a) + 1\<rparr>"] iget_eq [OF s(2), of d n] Some
      refs_at(1) [OF s(1) a] by (simp add: is_inode_def upd_inode_def)
next
  case None
  have l: "length (inodes s) = NINODE" using s(1) by (simp add: icache_ok_def)
  from None room l have "\<exists>a<NINODE. i_ref (inodes s ! a) = 0" by (auto simp: first_index_None_iff)
  then obtain a where a: "first_index (\<lambda>x. i_ref x = 0) (inodes s) = Some a"
    using first_index_exists [of _ "inodes s" "\<lambda>x. i_ref x = 0"] l by (metis nth_mem)
  then have "a < NINODE" "i_ref (inodes s ! a) = 0" using first_index_SomeD [OF a] l by auto
  then show thesis
    using that [of a "(inodes s ! a)\<lparr>i_dev := d, i_inum := n, i_ref := 1, i_valid := False\<rparr>"] iget_eq [OF s(2), of d n]
      None a by (simp add: is_inode_def upd_inode_def refs_def)
qed

lemma iget_safe:
  fixes s :: "'a fsst_scheme"
  assumes s: "icache_ok s" "held s = []" and room: "\<exists>a<NINODE. is_inode d n (inodes s ! a) \<or> i_ref (inodes s ! a) = 0"
  shows "succeeds (iget d n s) (\<lambda>a t. icache_ok t \<and> a < NINODE \<and> is_inode d n (inodes t ! a)
    \<and> (\<forall>d' n'. refs t d' n' = refs s d' n' + (if d' = d \<and> n' = n then 1 else 0))
    \<and> (\<exists>x. t = upd_inode a (\<lambda>_. x) s))"
  using s room
proof (rule iget_entry)
  fix a x
  let ?t = "upd_inode a (\<lambda>_. x) s"
  assume a: "iget d n s = Ok a ?t" "a < NINODE" "is_inode d n x" "i_ref x = refs s d n + 1"
    "is_inode d n (inodes s ! a) \<or> i_ref (inodes s ! a) = 0 \<and> first_index (is_inode d n) (inodes s) = None"
  have l: "length (inodes s) = NINODE" using s(1) by (simp add: icache_ok_def)
  have "\<not> is_inode d n (inodes s ! b)" if "b < NINODE" "b \<noteq> a" for b
    using a(2,5) that s(1) l nth_mem [of b "inodes s"] by (auto simp: icache_ok_def is_inode_def first_index_None_iff)
  then have "\<forall>b<NINODE. b \<noteq> a \<longrightarrow> \<not> is_inode d n (inodes s ! b)" by blast
  then have ok: "icache_ok ?t"
    using s(1) a(2,3) l unfolding icache_ok_def by (auto simp: nth_list_update is_inode_def)
  moreover have "is_inode d n (inodes ?t ! a)" using a(2,3) l by simp
  moreover have "refs ?t d n = refs s d n + 1" using refs_at(1) [OF ok a(2)] a(2,3,4) l by simp
  moreover have "refs ?t d' n' = refs s d' n'" if "\<not> (d' = d \<and> n' = n)" for d' n'
    using that a(2,3,5) l by (intro refs_cong) (auto simp: nth_list_update is_inode_def split: if_splits)
  ultimately show ?thesis using a(1,2) by auto
qed

text \<open>
  C7. The inode cache has one entry per inode, with its reference count: if the cache has an entry for the
  inode or a free one, \<^verbatim>\<open>iget\<close> returns the index of the entry for it, adds one to its count, leaves the
  count of every other inode as it was, keeps the cache well formed and changes nothing else.
\<close>

theorem iget_correct:
  fixes s :: "'a fsst_scheme"
  assumes s: "icache_ok s" "held s = []" and room: "\<exists>a<NINODE. is_inode d n (inodes s ! a) \<or> i_ref (inodes s ! a) = 0"
  shows "succeeds (iget d n s) (\<lambda>a t. icache_ok t \<and> a < NINODE \<and> is_inode d n (inodes t ! a)
    \<and> (\<forall>d' n'. refs t d' n' = refs s d' n' + (if d' = d \<and> n' = n then 1 else 0))
    \<and> (\<exists>x. t = upd_inode a (\<lambda>_. x) s))"
  using assms by (rule iget_safe)

section \<open>Directories\<close>

text \<open>The entries of a directory with the contents \<open>c\<close>; an entry with inode number 0 is free.\<close>

definition dirents :: "u8 list \<Rightarrow> dirent list" where
  "dirents c = map (\<lambda>j. get_dirent (take DIRENT_SIZE (drop (DIRENT_SIZE * j) c))) [0..<length c div DIRENT_SIZE]"

definition entry_for :: "u8 list \<Rightarrow> dirent \<Rightarrow> bool" where
  "entry_for name de \<longleftrightarrow> de_inum de \<noteq> 0 \<and> dname (de_name de) = dname name"

text \<open>A directory: its inode is locked by the caller, its blocks are there, and it is a sequence of entries.\<close>

definition is_dir :: "'a consst_scheme \<Rightarrow> nat \<Rightarrow> nat \<Rightarrow> bool" where
  "is_dir s dp N \<longleftrightarrow> (\<exists>x m. inodes s ! dp = x \<and> i_dev x = 1 \<and> i_type x = T_DIR \<and> has_blocks (cview s) x m
     \<and> unat (i_size x) \<le> m * BSIZE \<and> unat (i_size x) = DIRENT_SIZE * N)"

definition dir_of :: "'a fsst_scheme \<Rightarrow> nat \<Rightarrow> dirent list" where
  "dir_of s dp = dirents (contents (cview s) (inodes s ! dp))"

lemma length_dir_of: "is_dir s dp N \<Longrightarrow> length (dir_of s dp) = N"
  by (auto simp: is_dir_def dir_of_def dirents_def contents_def DIRENT_SIZE_def)

lemma is_dir_same:
  fixes s t :: "'a consst_scheme"
  assumes "same_view i s t"
  shows "is_dir t dp N = is_dir s dp N" "dir_of t dp = dir_of s dp"
  using same_view_fs(1,6) [OF assms] by (simp_all add: is_dir_def dir_of_def)

lemma unat_small: "k < 2 ^ 32 \<Longrightarrow> unat (of_nat k :: u32) = k"
  by (simp add: unat_of_nat take_bit_nat_eq_self_iff)

lemma read_dirent_safe:
  fixes s :: "'a consst_scheme"
  assumes s: "reading i {} s" and d: "is_dir s dp N" "j < N"
  shows "safe (\<lambda>t. disk t = disk s) (quiet i) (read_dirent msg dp (DIRENT_SIZE * j) s)
    (\<lambda>de t. de = dir_of s dp ! j \<and> same_view i s t)"
proof -
  from d(1) obtain x m where x: "inodes s ! dp = x" "i_dev x = 1" "i_type x = T_DIR" "has_blocks (cview s) x m"
    "unat (i_size x) \<le> m * BSIZE" "unat (i_size x) = DIRENT_SIZE * N" by (auto simp: is_dir_def)
  let ?c = "contents (cview s) x"
  define p where "p = DIRENT_SIZE * j"
  have l: "length ?c = DIRENT_SIZE * N" by (simp add: contents_def x(6))
  have b: "p + DIRENT_SIZE \<le> DIRENT_SIZE * N" using d(2) by (simp add: p_def DIRENT_SIZE_def)
  have "DIRENT_SIZE * N < 2 ^ 32" using x(6) unsigned_less [of "i_size x", where 'a = nat] by simp
  with b have "p + DIRENT_SIZE < 2 ^ 32" by linarith
  then have u: "unat (of_nat p :: u32) = p" "unat (of_nat DIRENT_SIZE :: u32) = DIRENT_SIZE" "p + DIRENT_SIZE < 2 ^ 32"
    using unat_small [of p] unat_small [of DIRENT_SIZE] by simp_all
  then have le: "(of_nat p :: u32) \<le> i_size x" using b by (simp add: word_le_nat_alt x(6))
  have "safe (\<lambda>t. disk t = disk s) (quiet i) (readi dp (of_nat p) (of_nat DIRENT_SIZE) s)
    (\<lambda>(r, bs) t. same_view i s t \<and> bs = take DIRENT_SIZE (drop p ?c) \<and> r = int DIRENT_SIZE)"
    using readi_safe [OF s x(1,2) _ x(4,5), of "of_nat p" "of_nat DIRENT_SIZE"] x(3) u le l b
    by (auto simp: T_DIR_def T_DEV_def elim!: safe_mono)
  then show ?thesis
    unfolding read_dirent_def p_def [symmetric]
    by (rule safe_bind) (use d(2) in \<open>auto simp: dir_of_def dirents_def x(1) l p_def DIRENT_SIZE_def\<close>)
qed

text \<open>The scan from entry \<open>j\<close> on: it ends at the first entry with the name, and there calls \<^verbatim>\<open>iget\<close>.\<close>

definition looked_up :: "nat \<Rightarrow> 'a consst_scheme \<Rightarrow> nat \<Rightarrow> nat option \<Rightarrow> (nat \<times> nat) option \<Rightarrow> 'a consst_scheme \<Rightarrow> bool" where
  "looked_up i s dp k r t = (case k of
     None \<Rightarrow> r = None \<and> same_view i s t
   | Some k \<Rightarrow> (\<exists>a u. r = Some (a, DIRENT_SIZE * k) \<and> same_view i s u
       \<and> iget 1 (ucast (de_inum (dir_of s dp ! k))) u = Ok a t))"

lemma looked_up_same:
  fixes s u :: "'a consst_scheme"
  assumes u: "same_view i s u" and t: "looked_up i u dp k r t"
  shows "looked_up i s dp k r t"
proof (cases k)
  case None
  then show ?thesis using t same_view_trans [OF u] by (simp add: looked_up_def)
next
  case (Some k)
  with t obtain a v where "r = Some (a, DIRENT_SIZE * k)" "same_view i u v" "iget 1 (ucast (de_inum (dir_of u dp ! k))) v = Ok a t"
    by (auto simp: looked_up_def)
  then show ?thesis using Some same_view_trans [OF u] is_dir_same(2) [OF u, of dp] by (auto simp: looked_up_def)
qed

lemma dirlookup_from_safe:
  fixes s :: "'a consst_scheme"
  assumes "reading i {} s" "is_dir s dp N" "icache_ok s" "\<exists>a<NINODE. i_ref (inodes s ! a) = 0" "j \<le> N"
  shows "safe (\<lambda>t. disk t = disk s) (quiet i) (dirlookup_from (DIRENT_SIZE * j) dp name s)
    (looked_up i s dp (map_option (\<lambda>k. j + k) (first_index (entry_for name) (drop j (dir_of s dp)))))"
  using assms
proof (induction "N - j" arbitrary: j s)
  case 0
  then have "\<not> DIRENT_SIZE * j < unat (i_size (inodes s ! dp))" "drop j (dir_of s dp) = []"
    using length_dir_of by (auto simp: is_dir_def)
  then show ?case using 0 by (simp add: dirlookup_from.simps looked_up_def same_view_refl)
next
  case (Suc n)
  then have j: "j < N" by simp
  let ?de = "dir_of s dp ! j"
  have dr: "drop j (dir_of s dp) = ?de # drop (Suc j) (dir_of s dp)"
    using j length_dir_of [OF Suc.prems(2)] by (simp add: Cons_nth_drop_Suc)
  have "DIRENT_SIZE * j < unat (i_size (inodes s ! dp))"
    using Suc.prems(2) j by (auto simp: is_dir_def DIRENT_SIZE_def)
  then have step: "dirlookup_from (DIRENT_SIZE * j) dp name s =
      rbind (read_dirent ''dirlookup read'' dp (DIRENT_SIZE * j) s) (\<lambda>de s.
          if de_inum de = 0 then dirlookup_from (DIRENT_SIZE * j + DIRENT_SIZE) dp name s
          else if namecmp name (de_name de) = 0 then
            rbind (iget (i_dev (inodes s ! dp)) (ucast (de_inum de)) s) (\<lambda>ip s. Ok (Some (ip, DIRENT_SIZE * j)) s)
          else dirlookup_from (DIRENT_SIZE * j + DIRENT_SIZE) dp name s)"
    by (simp add: dirlookup_from.simps [of "DIRENT_SIZE * j"])
  show ?case
    unfolding step
  proof (rule safe_bind [OF read_dirent_safe [OF Suc.prems(1,2) j]])
    fix de and u :: "'a consst_scheme" assume u: "de = ?de \<and> same_view i s u"
    then have us: "same_view i s u" by simp
    note uf = same_view_fs [OF us]
    have dev: "i_dev (inodes u ! dp) = 1" using Suc.prems(2) uf(1) by (auto simp: is_dir_def)
    have room: "icache_ok u" "\<exists>a<NINODE. i_ref (inodes u ! a) = 0" using Suc.prems(3,4) uf(1) by (simp_all add: icache_ok_def)
    show "safe (\<lambda>t. disk t = disk s) (quiet i) (if de_inum de = 0 then dirlookup_from (DIRENT_SIZE * j + DIRENT_SIZE) dp name u
          else if namecmp name (de_name de) = 0 then
            rbind (iget (i_dev (inodes u ! dp)) (ucast (de_inum de)) u) (\<lambda>ip s. Ok (Some (ip, DIRENT_SIZE * j)) s)
          else dirlookup_from (DIRENT_SIZE * j + DIRENT_SIZE) dp name u)
       (looked_up i s dp (map_option (\<lambda>k. j + k) (first_index (entry_for name) (drop j (dir_of s dp)))))"
    proof (cases "entry_for name ?de")
      case True
      have "held u = []" using uf(5) by (simp add: reading_def bwf_def io_ready_def)
      with room obtain a x where a: "iget 1 (ucast (de_inum ?de)) u = Ok a (upd_inode a (\<lambda>_. x) u)"
        using iget_entry [of u 1 "ucast (de_inum ?de)"] by metis
      then show ?thesis using True u us dr dev by (auto simp: entry_for_def namecmp_eq looked_up_def)
    next
      case False
      have "safe (\<lambda>t. disk t = disk u) (quiet i) (dirlookup_from (DIRENT_SIZE * Suc j) dp name u)
        (looked_up i u dp (map_option (\<lambda>k. Suc j + k) (first_index (entry_for name) (drop (Suc j) (dir_of u dp)))))"
        using Suc.hyps(2) Suc.prems(2,5) j uf(5) room is_dir_same [OF us] by (intro Suc.hyps(1)) auto
      moreover have "map_option (\<lambda>k. Suc j + k) (first_index (entry_for name) (drop (Suc j) (dir_of u dp)))
          = map_option (\<lambda>k. j + k) (first_index (entry_for name) (drop j (dir_of s dp)))"
        using False is_dir_same(2) [OF us] by (simp add: dr option.map_comp o_def)
      ultimately have "safe (\<lambda>t. disk t = disk s) (quiet i) (dirlookup_from (DIRENT_SIZE * j + DIRENT_SIZE) dp name u)
          (looked_up i s dp (map_option (\<lambda>k. j + k) (first_index (entry_for name) (drop j (dir_of s dp)))))"
        using uf(7) looked_up_same [OF us] by (auto elim!: safe_mono simp: add.commute)
      then show ?thesis using False u by (auto simp: entry_for_def namecmp_eq)
    qed
  qed
qed

lemma refs_same:
  fixes s t :: "'a fsst_scheme"
  shows "inodes t = inodes s \<Longrightarrow> refs t d n = refs s d n"
  by (simp add: refs_def cong: option.case_cong)

lemma looked_up_cases:
  fixes s t :: "'a consst_scheme"
  assumes t: "looked_up i s dp k r t" and s: "icache_ok s" "\<exists>a<NINODE. i_ref (inodes s ! a) = 0"
  shows "reading i {} t \<and> cview t = cview s \<and> icache_ok t \<and> (case k of
      None \<Rightarrow> r = None \<and> (\<forall>d n. refs t d n = refs s d n)
    | Some k \<Rightarrow> \<exists>a<NINODE. r = Some (a, DIRENT_SIZE * k) \<and> is_inode 1 (ucast (de_inum (dir_of s dp ! k))) (inodes t ! a)
        \<and> (\<forall>d n. refs t d n = refs s d n + (if d = 1 \<and> n = ucast (de_inum (dir_of s dp ! k)) then 1 else 0)))"
proof (cases k)
  case None
  then have v: "same_view i s t" "r = None" using t by (simp_all add: looked_up_def)
  with same_view_fs [OF v(1)] s(1) None refs_same [of t s] show ?thesis by (simp add: icache_ok_def)
next
  case (Some k)
  let ?n = "ucast (de_inum (dir_of s dp ! k)) :: u32"
  from t Some obtain a u where u: "r = Some (a, DIRENT_SIZE * k)" "same_view i s u" "iget 1 ?n u = Ok a t"
    by (auto simp: looked_up_def)
  note uf = same_view_fs [OF u(2)]
  have "held u = []" using uf(5) by (simp add: reading_def bwf_def io_ready_def)
  moreover have "icache_ok u" "\<exists>a<NINODE. is_inode 1 ?n (inodes u ! a) \<or> i_ref (inodes u ! a) = 0"
    using s uf(1) by (auto simp: icache_ok_def)
  ultimately have "succeeds (iget 1 ?n u) (\<lambda>a t. icache_ok t \<and> a < NINODE \<and> is_inode 1 ?n (inodes t ! a)
    \<and> (\<forall>d' n'. refs t d' n' = refs u d' n' + (if d' = 1 \<and> n' = ?n then 1 else 0)) \<and> (\<exists>x. t = upd_inode a (\<lambda>_. x) u))"
    by (intro iget_safe)
  then have i: "icache_ok t" "a < NINODE" "is_inode 1 ?n (inodes t ! a)" "\<exists>x. t = upd_inode a (\<lambda>_. x) u"
    "\<forall>d' n'. refs t d' n' = refs u d' n' + (if d' = 1 \<and> n' = ?n then 1 else 0)" using u(3) by simp_all
  from i(4) have "reading i {} t" "cview t = cview s" using uf by auto
  moreover have "refs u d n = refs s d n" for d n using uf(1) by (rule refs_same)
  ultimately show ?thesis using i u(1) Some by auto
qed

text \<open>
  C6. Directory lookup: on a directory whose blocks are there, with a free entry in the inode cache,
  \<^verbatim>\<open>dirlookup\<close> returns null exactly when no used entry has the name (compared as names of at most 14 bytes);
  otherwise it returns the byte offset of the first such entry and a counted reference to its inode. It
  changes no block and no other reference count, and never panics.
\<close>

theorem dirlookup_correct:
  fixes s :: "'a consst_scheme"
  assumes s: "reading i {} s" and d: "is_dir s dp N" and c: "icache_ok s" "\<exists>a<NINODE. i_ref (inodes s ! a) = 0"
  shows "safe (\<lambda>t. disk t = disk s) (quiet i) (dirlookup dp name s)
    (\<lambda>r t. reading i {} t \<and> cview t = cview s \<and> icache_ok t \<and> (case first_index (entry_for name) (dir_of s dp) of
      None \<Rightarrow> r = None \<and> (\<forall>d n. refs t d n = refs s d n)
    | Some k \<Rightarrow> \<exists>a<NINODE. r = Some (a, DIRENT_SIZE * k) \<and> is_inode 1 (ucast (de_inum (dir_of s dp ! k))) (inodes t ! a)
        \<and> (\<forall>d n. refs t d n = refs s d n + (if d = 1 \<and> n = ucast (de_inum (dir_of s dp ! k)) then 1 else 0))))"
proof -
  have "dirlookup dp name s = dirlookup_from (DIRENT_SIZE * 0) dp name s"
    using d by (auto simp: dirlookup_def is_dir_def)
  moreover have "safe (\<lambda>t. disk t = disk s) (quiet i) (dirlookup_from (DIRENT_SIZE * 0) dp name s)
      (looked_up i s dp (first_index (entry_for name) (dir_of s dp)))"
    using dirlookup_from_safe [OF s d c, of 0 name] by (simp add: option.map_ident)
  ultimately have "safe (\<lambda>t. disk t = disk s) (quiet i) (dirlookup dp name s)
      (looked_up i s dp (first_index (entry_for name) (dir_of s dp)))" by (simp only:)
  then show ?thesis by (rule safe_mono) (rule looked_up_cases [OF _ c])
qed

text \<open>A disk whose directory in block 100 has the entries ``.'', a free one, and \<open>sh\<close>; for witnesses.\<close>

definition demo_entries :: "dirent list" where
  "demo_entries = [\<lparr>de_inum = 1, de_name = strncpy_list DIRSIZ (asc ''.'')\<rparr>,
     \<lparr>de_inum = 0, de_name = replicate DIRSIZ 0\<rparr>, \<lparr>de_inum = 7, de_name = strncpy_list DIRSIZ (asc ''sh'')\<rparr>]"

definition demo_block :: block where
  "demo_block = concat (map dirent_bytes demo_entries) @ replicate 464 0"

definition demo_dir :: consst where
  "demo_dir = fs_boot (\<lambda>k. if k = 100 then demo_block else replicate BSIZE 0) meta_sb
     (demo_inode\<lparr>i_type := T_DIR, i_size := 48\<rparr> # replicate 49 (demo_inode\<lparr>i_ref := 0\<rparr>)) cons_ext"

lemma demo_dir_simps:
  "reading 0 {} demo_dir" "inodes demo_dir ! 0 = demo_inode\<lparr>i_type := T_DIR, i_size := 48\<rparr>"
  "cview demo_dir = (\<lambda>k. if k = 100 then demo_block else replicate BSIZE 0)" "dir_of demo_dir 0 = demo_entries"
proof -
  let ?D = "\<lambda>k :: u32. if k = 100 then demo_block else replicate BSIZE 0"
  have l: "length demo_block = BSIZE" by code_simp
  show "reading 0 {} demo_dir" and v: "cview demo_dir = ?D"
    unfolding demo_dir_def by (intro fs_boot_reading; simp add: l)+
  show x: "inodes demo_dir ! 0 = demo_inode\<lparr>i_type := T_DIR, i_size := 48\<rparr>" by (simp add: demo_dir_def)
  have "contents ?D (demo_inode\<lparr>i_type := T_DIR, i_size := 48\<rparr>) = map (\<lambda>p. demo_block ! p) [0..<48]"
    by (auto simp: contents_def fbyte_def baddr_def demo_inode_def NDIRECT_def BSIZE_def)
  moreover have "dirents (map (\<lambda>p. demo_block ! p) [0..<48]) = demo_entries" by code_simp
  ultimately show "dir_of demo_dir 0 = demo_entries" by (simp add: dir_of_def x v)
qed

lemma demo_dir_icache: "icache_ok demo_dir" "\<exists>a<NINODE. i_ref (inodes demo_dir ! a) = 0" "i_ref (inodes demo_dir ! 0) = 1"
proof -
  have i: "inodes demo_dir = (demo_inode\<lparr>i_type := T_DIR, i_size := 48\<rparr>) # replicate 49 (demo_inode\<lparr>i_ref := 0\<rparr>)"
    by (simp add: demo_dir_def)
  have r: "i_ref (inodes demo_dir ! a) = (if a = 0 then 1 else 0)" if "a < 50" for a
    using that by (cases a) (simp_all add: i demo_inode_def)
  then show "icache_ok demo_dir" by (auto simp: icache_ok_def NINODE_def i)
  show "\<exists>a<NINODE. i_ref (inodes demo_dir ! a) = 0" using r [of 1] by (intro exI [of _ 1]) (simp add: NINODE_def)
  show "i_ref (inodes demo_dir ! 0) = 1" using r [of 0] by simp
qed

theorem iget_correct_witness:
  "refs demo_dir 1 5 = 1
   \<and> succeeds (iget 1 5 demo_dir) (\<lambda>a t. icache_ok t \<and> a < NINODE \<and> refs t 1 5 = 2 \<and> refs t 1 7 = refs demo_dir 1 7)
   \<and> succeeds (iget 1 7 demo_dir) (\<lambda>a t. icache_ok t \<and> i_inum (inodes t ! a) = 7 \<and> refs t 1 5 = 1)"
proof -
  have "is_inode 1 5 (inodes demo_dir ! 0)" by (simp add: is_inode_def demo_dir_simps demo_inode_def)
  then have r: "refs demo_dir 1 5 = 1"
    using refs_at [OF demo_dir_icache(1), of 0 1 5] demo_dir_icache(3) by (simp add: NINODE_def)
  have h: "held demo_dir = []" by (simp add: demo_dir_def)
  have "\<exists>a<NINODE. is_inode d n (inodes demo_dir ! a) \<or> i_ref (inodes demo_dir ! a) = 0" for d n
    using demo_dir_icache(2) by blast
  note i = iget_correct [OF demo_dir_icache(1) h this]
  show ?thesis
    using i [of 1 5] i [of 1 7] r by (auto simp: succeeds_def is_inode_def split: res.splits)
qed

theorem dirlookup_correct_witness:
  "safe (\<lambda>t. disk t = disk demo_dir) (quiet 0) (dirlookup 0 (asc ''sh'') demo_dir)
    (\<lambda>r t. \<exists>a. r = Some (a, 32) \<and> i_inum (inodes t ! a) = 7 \<and> refs t 1 7 = refs demo_dir 1 7 + 1)"
proof -
  note d = demo_dir_simps
  have "has_blocks (cview demo_dir) (demo_inode\<lparr>i_type := T_DIR, i_size := 48\<rparr>) 1"
    by (simp add: has_blocks_def baddr_def demo_inode_def MAXFILE_def NDIRECT_def FSSIZE_def)
  then have "is_dir demo_dir 0 3"
    unfolding is_dir_def d(2) by (intro exI [of _ "demo_inode\<lparr>i_type := T_DIR, i_size := 48\<rparr>"] exI [of _ 1]) (simp add: demo_inode_def BSIZE_def DIRENT_SIZE_def)
  moreover have "first_index (entry_for (asc ''sh'')) (dir_of demo_dir 0) = Some 2" unfolding d by code_simp
  ultimately show ?thesis
    using dirlookup_correct [OF d(1), of 0 3 "asc ''sh''"] demo_dir_icache
    by (auto elim!: safe_mono simp: is_inode_def d(4) demo_entries_def DIRENT_SIZE_def)
qed

section \<open>Paths\<close>

text \<open>The elements of a path: what lies between slashes, the empty ones left out.\<close>

abbreviation c_slash :: u8 where "c_slash \<equiv> 0x2F"

fun splits :: "u8 list \<Rightarrow> u8 list list" where
  "splits [] = [[]]"
| "splits (c # cs) = (if c = c_slash then [] # splits cs else (c # hd (splits cs)) # tl (splits cs))"

definition path_elems :: "u8 list \<Rightarrow> u8 list list" where
  "path_elems path = filter (\<lambda>e. e \<noteq> []) (splits path)"

lemma splits_no_slash: "c_slash \<notin> set xs \<Longrightarrow> splits xs = [xs]"
  by (induction xs) auto

lemma splits_slash: "c_slash \<notin> set xs \<Longrightarrow> splits (xs @ c_slash # ys) = xs # splits ys"
  by (induction xs) auto

lemma path_elems_skip: "path_elems (dropWhile (\<lambda>c. c = c_slash) path) = path_elems path"
  by (induction path) (auto simp: path_elems_def)

lemma path_elems_first:
  assumes "path \<noteq> []" "hd path \<noteq> c_slash"
  shows "path_elems path = takeWhile (\<lambda>c. c \<noteq> c_slash) path # path_elems (dropWhile (\<lambda>c. c \<noteq> c_slash) path)"
proof -
  let ?e = "takeWhile (\<lambda>c. c \<noteq> c_slash) path" and ?r = "dropWhile (\<lambda>c. c \<noteq> c_slash) path"
  have e: "c_slash \<notin> set ?e" "?e \<noteq> []" using assms by (auto dest: set_takeWhileD simp: takeWhile_eq_Nil_iff)
  show ?thesis
  proof (cases ?r)
    case Nil
    then have "?e = path" by (metis append_Nil2 takeWhile_dropWhile_id)
    moreover have "path_elems path = [path]"
      using e splits_no_slash [of path] \<open>?e = path\<close> assms(1) by (simp add: path_elems_def)
    ultimately show ?thesis by (simp only: Nil) (simp add: path_elems_def)
  next
    case (Cons c r)
    then have "c = c_slash" by (simp add: dropWhile_eq_Cons_conv)
    then have "path = ?e @ c_slash # r" using Cons by (metis takeWhile_dropWhile_id)
    with e(1) have "splits path = ?e # splits r" by (metis splits_slash)
    then show ?thesis using e(2) Cons \<open>c = c_slash\<close> by (simp add: path_elems_def)
  qed
qed

lemma path_elems_Nil: "path_elems path = [] \<longleftrightarrow> dropWhile (\<lambda>c. c = c_slash) path = []"
proof (cases "dropWhile (\<lambda>c. c = c_slash) path = []")
  case True
  have "path_elems [] = []" by (simp add: path_elems_def)
  with True show ?thesis using path_elems_skip [of path] by metis
next
  case False
  then have "hd (dropWhile (\<lambda>c. c = c_slash) path) \<noteq> c_slash" using hd_dropWhile by blast
  from path_elems_first [OF False this] False path_elems_skip [of path] show ?thesis by simp
qed

text \<open>
  C28. \<^verbatim>\<open>skipelem\<close> takes a path apart: it returns null exactly when the path has no element left; otherwise it
  copies the first element, cut to 14 bytes, into the name buffer and returns the rest of the path, which
  has the remaining elements and is empty exactly when there are none (whatever slashes follow).
\<close>

theorem skipelem_correct:
  assumes "0 \<notin> set path" "length name = DIRSIZ"
  shows "case path_elems path of
      [] \<Rightarrow> skipelem path name = None
    | e # es \<Rightarrow> \<exists>rest name'. skipelem path name = Some (rest, name') \<and> dname name' = take DIRSIZ e \<and> length name' = DIRSIZ
        \<and> path_elems rest = es \<and> (rest = [] \<longleftrightarrow> es = [])"
proof -
  let ?p = "dropWhile (\<lambda>c. c = c_slash) path"
  let ?e = "takeWhile (\<lambda>c. c \<noteq> c_slash) ?p" and ?r = "dropWhile (\<lambda>c. c = c_slash) (dropWhile (\<lambda>c. c \<noteq> c_slash) ?p)"
  show ?thesis
  proof (cases "?p = []")
    case True
    then have "path_elems path = []" by (simp add: path_elems_Nil)
    with True show ?thesis by (simp add: skipelem_def)
  next
    case False
    have "hd ?p \<noteq> c_slash" using hd_dropWhile [OF False] .
    note f = path_elems_first [OF False this, unfolded path_elems_skip]
    let ?n = "if length ?e \<ge> DIRSIZ then take DIRSIZ ?e else ?e @ 0 # drop (length ?e + 1) name"
    have z: "0 \<notin> set ?e" using assms(1) by (auto dest: set_takeWhileD set_dropWhileD)
    then have "takeWhile (\<lambda>c. c \<noteq> 0) (?e @ 0 # zs) = ?e" for zs
      by (subst takeWhile_append2) auto
    moreover have "takeWhile (\<lambda>c. c \<noteq> 0) (take DIRSIZ ?e) = take DIRSIZ ?e"
      using z by (auto simp: takeWhile_eq_all_conv dest: in_set_takeD)
    ultimately have "dname ?n = take DIRSIZ ?e" using assms(2) by (auto simp: cstr_def take_Cons')
    moreover have "length ?n = DIRSIZ" using assms(2) by auto
    moreover have "skipelem path name = Some (?r, ?n)" using False by (simp add: skipelem_def Let_def)
    moreover have "?r = [] \<longleftrightarrow> path_elems ?r = []" by (simp add: path_elems_Nil)
    ultimately show ?thesis using f path_elems_skip [of "dropWhile (\<lambda>c. c \<noteq> c_slash) ?p"] by auto
  qed
qed

theorem skipelem_correct_witness:
  "path_elems (asc ''///usr//bin/'') = [asc ''usr'', asc ''bin'']
   \<and> (\<exists>rest name'. skipelem (asc ''///usr//bin/'') (replicate DIRSIZ 1) = Some (rest, name') \<and> dname name' = asc ''usr''
       \<and> length name' = DIRSIZ \<and> path_elems rest = [asc ''bin''])"
proof -
  have "path_elems (asc ''///usr//bin/'') = [asc ''usr'', asc ''bin'']" by code_simp
  moreover have "take DIRSIZ (asc ''usr'') = asc ''usr''" "0 \<notin> set (asc ''///usr//bin/'')" by (simp_all add: asc_def DIRSIZ_def)
  ultimately show ?thesis
    using skipelem_correct [of "asc ''///usr//bin/''" "replicate DIRSIZ 1"] by auto
qed

end
