(* ===== verification/Mkfs.thy ===== *)
theory Mkfs
  imports Dirs
begin

text \<open>
  The program \<^verbatim>\<open>mkfs.c\<close>, which builds a file system image on the host, and what the kernel finds in
  the image. The image is a file of the host: a sequence of sectors, of which the first \<open>img_len\<close> exist.
  Whether the host's \<^verbatim>\<open>lseek\<close>, \<^verbatim>\<open>read\<close> and \<^verbatim>\<open>write\<close> succeed on a sector is the parameter \<open>io_ok\<close>; a
  failure, like a failed assertion, ends the program, which is the outcome \<open>Panic\<close>. The host is
  little-endian, as the machine of the kernel is. The messages on the terminal are left out.
\<close>

section \<open>The program\<close>

definition NINODES :: nat where "NINODES = 200"
definition nbitmap :: nat where "nbitmap = unat FSSIZE div (BSIZE * 8) + 1"
definition ninodeblocks :: nat where "ninodeblocks = NINODES div IPB + 1"
definition nlog :: nat where "nlog = LOGSIZE"
definition nmeta :: nat where "nmeta = 2 + nlog + ninodeblocks + nbitmap"
definition nblocks :: nat where "nblocks = unat FSSIZE - nmeta"

record mkst =
  image :: "u32 \<Rightarrow> block"
  img_len :: nat
  io_ok :: "u32 \<Rightarrow> bool"
  msb :: superblock
  freeinode :: u32
  freeblock :: u32

text \<open>Both conversions store the bytes of their argument in Intel order and read them as the host does.\<close>

definition xshort :: "u16 \<Rightarrow> u16" where
  "xshort x = get16 [ucast x, ucast (drop_bit 8 x)] 0"

definition xint :: "u32 \<Rightarrow> u32" where
  "xint x = get32 [ucast x, ucast (drop_bit 8 x), ucast (drop_bit 16 x), ucast (drop_bit 24 x)] 0"

text \<open>The sector that \<^verbatim>\<open>lseek(fsfd, sec * BSIZE, 0)\<close> finds: the product is a 32-bit number.\<close>

definition sect :: "u32 \<Rightarrow> u32" where
  "sect sec = sec * of_nat BSIZE div of_nat BSIZE"

definition wsect :: "u32 \<Rightarrow> block \<Rightarrow> mkst \<Rightarrow> (mkst, unit) res" where
  "wsect sec buf s =
     (if io_ok s (sect sec) then
        Ok () (s\<lparr>image := (image s)(sect sec := buf), img_len := max (img_len s) (unat (sect sec) + 1)\<rparr>)
      else Panic ''write'')"

definition rsect :: "u32 \<Rightarrow> mkst \<Rightarrow> (mkst, block) res" where
  "rsect sec s =
     (if io_ok s (sect sec) \<and> unat (sect sec) < img_len s then Ok (image s (sect sec)) s else Panic ''read'')"

definition winode :: "u32 \<Rightarrow> dinode \<Rightarrow> mkst \<Rightarrow> (mkst, unit) res" where
  "winode inum d s =
     (let bn = IBLOCK inum (msb s) in
      rbind (rsect bn s) (\<lambda>buf s. wsect bn (put_dinode (dslot inum) d buf) s))"

definition rinode :: "u32 \<Rightarrow> mkst \<Rightarrow> (mkst, dinode) res" where
  "rinode inum s = rbind (rsect (IBLOCK inum (msb s)) s) (\<lambda>buf s. Ok (get_dinode buf (dslot inum)) s)"

definition mk_ialloc :: "u16 \<Rightarrow> mkst \<Rightarrow> (mkst, u32) res" where
  "mk_ialloc type s =
     (let inum = freeinode s in
      rbind (winode inum (dinode_zero\<lparr>d_type := xshort type, d_nlink := xshort 1, d_size := xint 0\<rparr>)
        (s\<lparr>freeinode := inum + 1\<rparr>)) (\<lambda>_ s. Ok inum s))"

definition mk_balloc :: "u32 \<Rightarrow> mkst \<Rightarrow> (mkst, unit) res" where
  "mk_balloc n s =
     (if sint n < int (BSIZE * 8) then
        wsect (sb_bmapstart (msb s)) (fold (\<lambda>i. put_bit i True) [0..<nat (sint n)] (replicate BSIZE 0)) s
      else Panic ''assert(used < BSIZE*8)'')"

text \<open>The address of block \<open>fbn\<close> of the file with the inode \<open>d\<close>, allocated if it is missing.\<close>

definition new_block :: "mkst \<Rightarrow> mkst" where
  "new_block s = s\<lparr>freeblock := freeblock s + 1\<rparr>"

definition mk_bmap :: "nat \<Rightarrow> dinode \<Rightarrow> mkst \<Rightarrow> (mkst, u32 \<times> dinode) res" where
  "mk_bmap fbn d s =
     (if fbn < NDIRECT then
        (if xint (d_addrs d ! fbn) = 0 then
           Ok (xint (xint (freeblock s)), d\<lparr>d_addrs := (d_addrs d)[fbn := xint (freeblock s)]\<rparr>) (new_block s)
         else Ok (xint (d_addrs d ! fbn), d) s)
      else
        (let (d, s) = (if xint (d_addrs d ! NDIRECT) = 0
           then (d\<lparr>d_addrs := (d_addrs d)[NDIRECT := xint (freeblock s)]\<rparr>, new_block s) else (d, s));
             ind = xint (d_addrs d ! NDIRECT); j = fbn - NDIRECT in
         rbind (rsect ind s) (\<lambda>indirect s.
           if get_word indirect j = 0 then
             (let x = xint (freeblock s) in
              rbind (wsect ind (put_word j x indirect) (new_block s)) (\<lambda>_ s. Ok (xint x, d) s))
           else Ok (xint (get_word indirect j), d) s)))"

function iappend_loop :: "u8 list \<Rightarrow> nat \<Rightarrow> dinode \<Rightarrow> mkst \<Rightarrow> (mkst, nat \<times> dinode) res" where
  "iappend_loop p off d s =
     (if p = [] then Ok (off, d) s
      else let fbn = off div BSIZE in
        if fbn < MAXFILE then
          rbind (mk_bmap fbn d s) (\<lambda>(x, d) s.
            let n1 = min (length p) ((fbn + 1) * BSIZE - off) in
            rbind (rsect x s) (\<lambda>buf s.
            rbind (wsect x (blit (off - fbn * BSIZE) (take n1 p) buf) s) (\<lambda>_ s.
              iappend_loop (drop n1 p) (off + n1) d s)))
        else Panic ''assert(fbn < MAXFILE)'')"
  by pat_completeness auto
termination
proof (relation "measure (\<lambda>(p, off, d, s). length p)")
  fix p :: "u8 list" and off q n
  assume "p \<noteq> []" "q = off div BSIZE" "n = min (length p) ((q + 1) * BSIZE - off)"
  moreover have "off < (off div BSIZE + 1) * BSIZE"
    using mod_less_divisor [of BSIZE off] div_mult_mod_eq [of off BSIZE] by (simp add: BSIZE_def)
  ultimately show "((drop n p, off + n, d, t), p, off, e, s) \<in> measure (\<lambda>(p, off, d, s). length p)" for d e t s
    by simp
qed simp

definition iappend :: "u32 \<Rightarrow> u8 list \<Rightarrow> mkst \<Rightarrow> (mkst, unit) res" where
  "iappend inum p s =
     rbind (rinode inum s) (\<lambda>d s.
     rbind (iappend_loop p (unat (xint (d_size d))) d s) (\<lambda>(off, d) s.
       winode inum (d\<lparr>d_size := xint (of_nat off)\<rparr>) s))"

text \<open>The directory entry with a name that \<^verbatim>\<open>strncpy\<close> copies into cleared memory.\<close>

definition mk_dirent :: "u32 \<Rightarrow> u8 list \<Rightarrow> u8 list" where
  "mk_dirent inum name = dirent_bytes \<lparr>de_inum = xshort (ucast inum), de_name = pad DIRSIZ name\<rparr>"

text \<open>
  A file on the command line is its name and what the host's reads deliver, one block at a time until a
  read returns nothing; \<open>None\<close> if it cannot be opened.
\<close>

primrec mk_copy :: "u32 \<Rightarrow> u8 list list \<Rightarrow> mkst \<Rightarrow> (mkst, unit) res" where
  "mk_copy inum [] s = Ok () s"
| "mk_copy inum (b # bs) s = (if b = [] then Ok () s else rbind (iappend inum b s) (\<lambda>_ s. mk_copy inum bs s))"

definition mk_file :: "u32 \<Rightarrow> u8 list \<times> u8 list list option \<Rightarrow> mkst \<Rightarrow> (mkst, unit) res" where
  "mk_file rootino f s =
     (let name = fst f in
      if c_slash \<in> set name then Panic ''assert(index(argv[i], '/') == 0)''
      else case snd f of None \<Rightarrow> Panic ''open''
      | Some reads \<Rightarrow>
          (let name = (if name \<noteq> [] \<and> hd name = 0x5F then tl name else name) in
           rbind (mk_ialloc T_FILE s) (\<lambda>inum s.
           rbind (iappend rootino (mk_dirent inum name) s) (\<lambda>_ s.
             mk_copy inum reads s))))"

primrec mk_files :: "u32 \<Rightarrow> (u8 list \<times> u8 list list option) list \<Rightarrow> mkst \<Rightarrow> (mkst, unit) res" where
  "mk_files rootino [] s = Ok () s"
| "mk_files rootino (f # fs) s = rbind (mk_file rootino f s) (\<lambda>_ s. mk_files rootino fs s)"

primrec mk_zero :: "nat \<Rightarrow> mkst \<Rightarrow> (mkst, unit) res" where
  "mk_zero 0 s = Ok () s"
| "mk_zero (Suc n) s = rbind (mk_zero n s) (\<lambda>_ s. wsect (of_nat n) (replicate BSIZE 0) s)"

definition mk_sb :: superblock where
  "mk_sb = \<lparr>sb_size = xint FSSIZE, sb_nblocks = xint (of_nat nblocks), sb_ninodes = xint (of_nat NINODES),
     sb_nlog = xint (of_nat nlog), sb_logstart = xint 2, sb_inodestart = xint (of_nat (2 + nlog)),
     sb_bmapstart = xint (of_nat (2 + nlog + ninodeblocks))\<rparr>"

text \<open>
  The program from the point where the image has been opened, with the files on the command line. The
  image exists and is empty; what is not written reads as zero. The first two assertions of \<^verbatim>\<open>main\<close> are
  about constants and hold.
\<close>

definition mk_start :: "(u32 \<Rightarrow> bool) \<Rightarrow> mkst" where
  "mk_start ok = \<lparr>image = (\<lambda>_. replicate BSIZE 0), img_len = 0, io_ok = ok, msb = mk_sb,
     freeinode = 1, freeblock = of_nat nmeta\<rparr>"

definition mkfs_main :: "(u32 \<Rightarrow> bool) \<Rightarrow> (u8 list \<times> u8 list list option) list \<Rightarrow> (mkst, unit) res" where
  "mkfs_main ok files =
     rbind (mk_zero (unat FSSIZE) (mk_start ok)) (\<lambda>_ s.
     rbind (wsect 1 (put_sb (msb s) (replicate BSIZE 0)) s) (\<lambda>_ s.
     rbind (mk_ialloc T_DIR s) (\<lambda>rootino s.
       if rootino \<noteq> ROOTINO then Panic ''assert(rootino == ROOTINO)''
       else
         rbind (iappend rootino (mk_dirent rootino (asc ''.'')) s) (\<lambda>_ s.
         rbind (iappend rootino (mk_dirent rootino (asc ''..'')) s) (\<lambda>_ s.
         rbind (mk_files rootino files s) (\<lambda>_ s.
         rbind (rinode rootino s) (\<lambda>d s.
           let off = xint (d_size d); off = (off div of_nat BSIZE + 1) * of_nat BSIZE in
           rbind (winode rootino (d\<lparr>d_size := xint off\<rparr>) s) (\<lambda>_ s.
             mk_balloc (freeblock s) s))))))))"

section \<open>Sectors\<close>

lemma xint_id [simp]: "xint x = x"
  by (simp add: xint_def get32_def load4_def word_cat4 nth_Cons')

lemma xshort_id [simp]: "xshort x = x"
  by (simp add: xshort_def get16_def word_cat2)

lemma unat_below: "n < 4294967296 \<Longrightarrow> unat (of_nat n :: u32) = n"
  by (simp add: unat_of_nat take_bit_nat_eq_self_iff)

lemma sect_id: "k < FSSIZE \<Longrightarrow> sect k = k"
proof -
  assume "k < FSSIZE"
  then have k: "unat k < 1000" by (simp add: FSSIZE_def word_less_nat_alt)
  then have "unat (k * 512) = unat k * 512" by (subst unat_mult_lem [THEN iffD1]) simp_all
  then have "unat (k * 512 div 512) = unat k" by (simp add: unat_div)
  then have "k * 512 div 512 = k" by (simp only: word_unat_eq_iff)
  then show ?thesis by (simp add: sect_def BSIZE_def)
qed

text \<open>The image has its full length, the host does not fail, and every sector is a block.\<close>

definition mkio :: "mkst \<Rightarrow> bool" where
  "mkio s \<longleftrightarrow> (\<forall>k. io_ok s k) \<and> img_len s = unat FSSIZE \<and> msb s = mk_sb \<and> (\<forall>k. length (image s k) = BSIZE)"

lemma rsect_ok: "mkio s \<Longrightarrow> k < FSSIZE \<Longrightarrow> rsect k s = Ok (image s k) s"
  by (simp add: rsect_def sect_id mkio_def word_less_nat_alt)

lemma wsect_ok:
  assumes "mkio s" "k < FSSIZE" "length d = BSIZE"
  shows "wsect k d s = Ok () (s\<lparr>image := (image s)(k := d)\<rparr>)" "mkio (s\<lparr>image := (image s)(k := d)\<rparr>)"
proof -
  have "max (img_len s) (unat k + 1) = img_len s" using assms by (simp add: mkio_def word_less_nat_alt)
  then have "s\<lparr>image := (image s)(k := d), img_len := max (img_len s) (unat k + 1)\<rparr> = s\<lparr>image := (image s)(k := d)\<rparr>"
    by (cases s) simp
  with assms show "wsect k d s = Ok () (s\<lparr>image := (image s)(k := d)\<rparr>)" by (simp add: wsect_def sect_id mkio_def)
  show "mkio (s\<lparr>image := (image s)(k := d)\<rparr>)" using assms by (simp add: mkio_def)
qed

lemma mkio_frame [simp]: "mkio (s\<lparr>freeblock := f\<rparr>) = mkio s" "mkio (s\<lparr>freeinode := n\<rparr>) = mkio s"
  by (simp_all add: mkio_def)

section \<open>The blocks of one file\<close>

text \<open>
  \<open>mkfile V f x m b\<close>: of the blocks below \<open>f\<close> the file with the inode \<open>x\<close> has \<open>m\<close>, all different; \<open>b\<close> says that
  it has an indirect block. The addresses of the other blocks are 0.
\<close>

definition owned :: "(u32 \<Rightarrow> block) \<Rightarrow> inode \<Rightarrow> nat \<Rightarrow> bool \<Rightarrow> u32 set" where
  "owned V x m b = baddr V x ` {..<m} \<union> (if b then {i_addrs x ! NDIRECT} else {})"

definition data_block :: "nat \<Rightarrow> u32 \<Rightarrow> bool" where
  "data_block f k \<longleftrightarrow> nmeta \<le> unat k \<and> unat k < f"

definition mkfile :: "(u32 \<Rightarrow> block) \<Rightarrow> nat \<Rightarrow> inode \<Rightarrow> nat \<Rightarrow> bool \<Rightarrow> bool" where
  "mkfile V f x m b \<longleftrightarrow> m \<le> MAXFILE \<and> length (i_addrs x) = NDIRECT + 1 \<and> inj_on (baddr V x) {..<m}
     \<and> (\<forall>k\<in>owned V x m b. data_block f k) \<and> (\<forall>q. m \<le> q \<and> q < MAXFILE \<longrightarrow> baddr V x q = 0)
     \<and> (if b then i_addrs x ! NDIRECT \<notin> baddr V x ` {..<m} else m \<le> NDIRECT \<and> i_addrs x ! NDIRECT = 0)"

text \<open>The blocks from \<open>f\<close> on have not been used, and the boot block is empty.\<close>

definition unused :: "(u32 \<Rightarrow> block) \<Rightarrow> nat \<Rightarrow> bool" where
  "unused V f \<longleftrightarrow> nmeta \<le> f \<and> V 0 = replicate BSIZE 0 \<and> (\<forall>k. f \<le> unat k \<longrightarrow> V k = replicate BSIZE 0)"

text \<open>Going from \<open>V\<close>, \<open>f\<close> and a file with the blocks \<open>U\<close> to \<open>V'\<close>, \<open>f'\<close> and \<open>U'\<close> touches only that file and unused blocks.\<close>

definition grows :: "(u32 \<Rightarrow> block) \<Rightarrow> nat \<Rightarrow> u32 set \<Rightarrow> (u32 \<Rightarrow> block) \<Rightarrow> nat \<Rightarrow> u32 set \<Rightarrow> bool" where
  "grows V f U V' f' U' \<longleftrightarrow> f \<le> f' \<and> U \<subseteq> U' \<and> (\<forall>k. unat k < f \<and> k \<notin> U \<longrightarrow> V' k = V k)
     \<and> (\<forall>k\<in>U'. k \<in> U \<or> f \<le> unat k \<and> unat k < f')"

lemma grows_trans: "grows V f U V' f' U' \<Longrightarrow> grows V' f' U' V'' f'' U'' \<Longrightarrow> grows V f U V'' f'' U''"
  unfolding grows_def by (auto 0 4 dest: le_trans less_le_trans)

lemma zero_word: "j < NINDIRECT \<Longrightarrow> get_word (replicate BSIZE 0) j = 0"
  by (simp add: get_word_def get32_def load4_def NINDIRECT_def BSIZE_def)

lemma baddr_zero: "V (i_addrs x ! NDIRECT) = replicate BSIZE 0 \<Longrightarrow> NDIRECT \<le> q \<Longrightarrow> q < MAXFILE \<Longrightarrow> baddr V x q = 0"
  by (simp add: baddr_def zero_word MAXFILE_def)

lemma data_block_mono: "data_block f k \<Longrightarrow> f \<le> f' \<Longrightarrow> data_block f' k"
  by (simp add: data_block_def)

lemma inj_on_one_more:
  fixes m :: nat
  assumes "inj_on g {..<m}" "w \<notin> g ` {..<m}" "h m = w" "\<forall>q<m. h q = g q"
  shows "inj_on h {..<m + 1}"
proof -
  have "inj_on h {..<m} = inj_on g {..<m}" "h ` {..<m} = g ` {..<m}"
    using assms(4) by (auto intro!: inj_on_cong image_cong)
  moreover have "{..<m + 1} = insert m {..<m}" by auto
  ultimately show ?thesis using assms(1-3) by simp
qed

lemma mkfile_own_blocks:
  assumes "mkfile V f x m b" "f \<le> unat FSSIZE"
  shows "own_blocks V x m"
proof -
  have k: "k \<noteq> 0 \<and> k < FSSIZE" if "data_block f k" for k
    using that assms(2) by (auto simp: data_block_def nmeta_def word_less_nat_alt)
  have "NDIRECT < m \<Longrightarrow> b" using assms(1) by (auto simp: mkfile_def split: if_splits)
  with assms(1) k show ?thesis by (auto simp: own_blocks_def has_blocks_def mkfile_def owned_def)
qed

lemma mkfile_direct:
  assumes F: "mkfile V f x m b" and m: "m < NDIRECT" and f: "nmeta \<le> f" "f < 1000"
  defines "y \<equiv> x\<lparr>i_addrs := (i_addrs x)[m := of_nat f]\<rparr>"
  shows "mkfile V (f + 1) y (m + 1) b" "baddr V y m = of_nat f" "\<forall>q<m. baddr V y q = baddr V x q"
    "grows V f (owned V x m b) V (f + 1) (owned V y (m + 1) b)"
proof -
  have u: "unat (of_nat f :: u32) = f" using f by (simp add: unat_below)
  have l: "length (i_addrs x) = NDIRECT + 1" using F by (simp add: mkfile_def)
  have b: "baddr V y q = (if q = m then of_nat f else baddr V x q)" for q
    using m l by (auto simp: y_def baddr_def nth_list_update)
  then show "baddr V y m = of_nat f" "\<forall>q<m. baddr V y q = baddr V x q" by simp_all
  have i: "i_addrs y ! NDIRECT = i_addrs x ! NDIRECT" using m by (simp add: y_def)
  have im: "baddr V y ` {..<m + 1} = insert (of_nat f) (baddr V x ` {..<m})" using b by (auto simp: lessThan_Suc)
  have o: "owned V y (m + 1) b = insert (of_nat f) (owned V x m b)" unfolding owned_def im i by simp
  have lt: "unat k < f" if "k \<in> owned V x m b" for k using F that by (auto simp: mkfile_def data_block_def)
  then have new: "of_nat f \<notin> owned V x m b" using u by force
  then have "inj_on (baddr V y) {..<m + 1}"
    using F b by (intro inj_on_one_more [of "baddr V x" m "of_nat f"]) (auto simp: mkfile_def owned_def)
  then show "mkfile V (f + 1) y (m + 1) b"
    unfolding mkfile_def o i im using F m l new u f(1) b data_block_mono [of f _ "f + 1"]
    by (auto simp: mkfile_def data_block_def [of _ "of_nat f"] y_def owned_def MAXFILE_def split: if_splits)
  show "grows V f (owned V x m b) V (f + 1) (owned V y (m + 1) b)" unfolding o grows_def using u by auto
qed

text \<open>The first block beyond the direct ones needs an indirect block, which is empty.\<close>

lemma mkfile_indirect_new:
  assumes F: "mkfile V f x NDIRECT False" and f: "f < 1000" and V: "unused V f"
  defines "y \<equiv> x\<lparr>i_addrs := (i_addrs x)[NDIRECT := of_nat f]\<rparr>"
  shows "mkfile V (f + 1) y NDIRECT True" "i_addrs y ! NDIRECT = of_nat f" "\<forall>q<NDIRECT. baddr V y q = baddr V x q"
    "grows V f (owned V x NDIRECT False) V (f + 1) (owned V y NDIRECT True)"
proof -
  have u: "unat (of_nat f :: u32) = f" using f by (simp add: unat_below)
  have l: "length (i_addrs x) = NDIRECT + 1" using F by (simp add: mkfile_def)
  show i: "i_addrs y ! NDIRECT = of_nat f" using l by (simp add: y_def)
  show b: "\<forall>q<NDIRECT. baddr V y q = baddr V x q" by (simp add: y_def baddr_def)
  have im: "baddr V y ` {..<NDIRECT} = baddr V x ` {..<NDIRECT}" using b by (intro image_cong) simp_all
  have inj: "inj_on (baddr V y) {..<NDIRECT} = inj_on (baddr V x) {..<NDIRECT}" using b by (intro inj_on_cong) simp
  have o: "owned V y NDIRECT True = insert (of_nat f) (owned V x NDIRECT False)" unfolding owned_def im i by simp
  have lt: "unat k < f" if "k \<in> owned V x NDIRECT False" for k using F that by (auto simp: mkfile_def data_block_def)
  then have new: "of_nat f \<notin> owned V x NDIRECT False" using u by force
  have z: "baddr V y q = 0" if "NDIRECT \<le> q" "q < MAXFILE" for q
    using that V u i by (intro baddr_zero) (simp_all add: unused_def)
  show "mkfile V (f + 1) y NDIRECT True"
    unfolding mkfile_def o inj im i using F l u V new z data_block_mono [of f _ "f + 1"]
    by (auto simp: mkfile_def data_block_def [of _ "of_nat f"] y_def unused_def owned_def)
  show "grows V f (owned V x NDIRECT False) V (f + 1) (owned V y NDIRECT True)" unfolding o grows_def using u by auto
qed

lemma mkfile_indirect:
  assumes F: "mkfile V f x m True" and m: "NDIRECT \<le> m" "m < MAXFILE" and f: "nmeta \<le> f" "f < 1000"
    and len: "\<forall>k. length (V k) = BSIZE"
  defines "W \<equiv> V(i_addrs x ! NDIRECT := put_word (m - NDIRECT) (of_nat f) (V (i_addrs x ! NDIRECT)))"
  shows "mkfile W (f + 1) x (m + 1) True" "baddr W x m = of_nat f" "\<forall>q<m. baddr W x q = baddr V x q"
    "grows V f (owned V x m True) W (f + 1) (owned W x (m + 1) True)"
proof -
  let ?i = "i_addrs x ! NDIRECT"
  have u: "unat (of_nat f :: u32) = f" using f by (simp add: unat_below)
  have j: "m - NDIRECT < NINDIRECT" using m by (auto simp: MAXFILE_def)
  have b: "baddr W x q = (if q = m then of_nat f else baddr V x q)" if "q < MAXFILE" for q
  proof -
    have "q - NDIRECT < NINDIRECT" using that by (auto simp: MAXFILE_def NINDIRECT_def BSIZE_def)
    with len j m show ?thesis
      by (auto simp: W_def baddr_def words.put_same words.put_other)
  qed
  then show "baddr W x m = of_nat f" and o': "\<forall>q<m. baddr W x q = baddr V x q" using m by simp_all
  have im: "baddr W x ` {..<m + 1} = insert (of_nat f) (baddr V x ` {..<m})"
    using b m by (auto simp: lessThan_Suc image_iff)
  have o: "owned W x (m + 1) True = insert (of_nat f) (owned V x m True)" unfolding owned_def im by auto
  have lt: "unat k < f" if "k \<in> owned V x m True" for k using F that by (auto simp: mkfile_def data_block_def)
  then have new: "of_nat f \<notin> owned V x m True" using u by force
  have "inj_on (baddr V x) {..<m}" "of_nat f \<notin> baddr V x ` {..<m}" using F new by (auto simp: mkfile_def owned_def)
  then have "inj_on (baddr W x) {..<m + 1}"
    using o' b m by (intro inj_on_one_more [of "baddr V x" m "of_nat f"]) auto
  then show "mkfile W (f + 1) x (m + 1) True"
    unfolding mkfile_def o im using F m new u f(1) b data_block_mono [of f _ "f + 1"]
    by (auto simp: mkfile_def data_block_def [of _ "of_nat f"] owned_def)
  show "grows V f (owned V x m True) W (f + 1) (owned W x (m + 1) True)"
    unfolding o grows_def using u by (auto simp: W_def owned_def)
qed

section \<open>Appending to a file\<close>

text \<open>The inode that the kernel loads from an on-disk inode.\<close>

definition ino_of :: "dinode \<Rightarrow> inode" where
  "ino_of d = load_dinode d \<lparr>i_dev = ROOTDEV, i_inum = 0, i_ref = 1, i_valid = True, i_type = 0, i_major = 0, i_minor = 0,
     i_nlink = 0, i_size = 0, i_addrs = []\<rparr>"

lemma ino_of_simps [simp]:
  "i_addrs (ino_of d) = d_addrs d" "i_size (ino_of d) = d_size d" "i_type (ino_of d) = d_type d" "i_nlink (ino_of d) = d_nlink d"
  "ino_of (d\<lparr>d_addrs := a\<rparr>) = (ino_of d)\<lparr>i_addrs := a\<rparr>" "ino_of (d\<lparr>d_size := z\<rparr>) = (ino_of d)\<lparr>i_size := z\<rparr>"
  by (simp_all add: ino_of_def load_dinode_def)

text \<open>The number of blocks that \<open>m\<close> blocks of data take.\<close>

definition need :: "nat \<Rightarrow> nat" where
  "need m = m + (if NDIRECT < m then 1 else 0)"

definition mkblks :: "mkst \<Rightarrow> dinode \<Rightarrow> nat \<Rightarrow> u32 set" where
  "mkblks s d m = owned (image s) (ino_of d) m (NDIRECT < m)"

definition mkinv :: "mkst \<Rightarrow> nat \<Rightarrow> dinode \<Rightarrow> nat \<Rightarrow> bool" where
  "mkinv s f d m \<longleftrightarrow> mkio s \<and> unused (image s) f \<and> freeblock s = of_nat f \<and> f \<le> 1000
     \<and> mkfile (image s) f (ino_of d) m (NDIRECT < m)"

definition mkgrow :: "mkst \<Rightarrow> nat \<Rightarrow> dinode \<Rightarrow> nat \<Rightarrow> mkst \<Rightarrow> nat \<Rightarrow> dinode \<Rightarrow> nat \<Rightarrow> bool" where
  "mkgrow s f d m t f' d' m' \<longleftrightarrow> mkinv t f' d' m' \<and> t = s\<lparr>image := image t, freeblock := freeblock t\<rparr>
     \<and> d' = d\<lparr>d_addrs := d_addrs d'\<rparr> \<and> f' + need m = f + need m' \<and> m \<le> m'
     \<and> grows (image s) f (mkblks s d m) (image t) f' (mkblks t d' m')"

lemma mkgrow_refl: "mkinv s f d m \<Longrightarrow> mkgrow s f d m s f d m"
  by (auto simp: mkgrow_def grows_def)

lemma mkgrow_trans:
  assumes "mkgrow s f d m t f' d' m'" "mkgrow t f' d' m' u f'' d'' m''"
  shows "mkgrow s f d m u f'' d'' m''"
proof -
  have "t = s\<lparr>image := image t, freeblock := freeblock t\<rparr>" "u = t\<lparr>image := image u, freeblock := freeblock u\<rparr>"
    using assms by (auto simp: mkgrow_def)
  then have "u = s\<lparr>image := image u, freeblock := freeblock u\<rparr>"
    by (cases s; cases t; cases u; simp)
  moreover have "d' = d\<lparr>d_addrs := d_addrs d'\<rparr>" "d'' = d'\<lparr>d_addrs := d_addrs d''\<rparr>"
    using assms by (auto simp: mkgrow_def)
  then have "d'' = d\<lparr>d_addrs := d_addrs d''\<rparr>" by (cases d; cases d'; cases d''; simp)
  moreover have "grows (image s) f (mkblks s d m) (image u) f'' (mkblks u d'' m'')"
    using assms by (auto simp: mkgrow_def intro: grows_trans)
  ultimately show ?thesis using assms by (simp add: mkgrow_def)
qed

lemma mkinv_block: "mkinv s f d m \<Longrightarrow> k \<in> mkblks s d m \<Longrightarrow> k < FSSIZE \<and> k \<noteq> 0 \<and> unat k < f"
  by (auto simp: mkinv_def mkblks_def mkfile_def data_block_def nmeta_def FSSIZE_def word_less_nat_alt)

lemma mk_bmap_old:
  assumes s: "mkinv s f d m" and n: "n < m"
  shows "mk_bmap n d s = Ok (baddr (image s) (ino_of d) n, d) s"
proof -
  let ?a = "baddr (image s) (ino_of d) n"
  have a: "?a \<noteq> 0" using mkinv_block [OF s, of ?a] n by (simp add: mkblks_def owned_def)
  show ?thesis
  proof (cases "n < NDIRECT")
    case True
    with a show ?thesis by (simp add: mk_bmap_def baddr_def)
  next
    case False
    with n have "d_addrs d ! NDIRECT \<in> mkblks s d m" by (simp add: mkblks_def owned_def)
    with mkinv_block [OF s this] a False s show ?thesis
      by (simp add: mk_bmap_def baddr_def rsect_ok mkinv_def)
  qed
qed

text \<open>Allocating the next block, \<open>m\<close>: the new block is empty and the others keep their place and their contents.\<close>

definition next_block :: "mkst \<Rightarrow> nat \<Rightarrow> dinode \<Rightarrow> nat \<Rightarrow> mkst \<Rightarrow> nat \<Rightarrow> dinode \<Rightarrow> bool" where
  "next_block s f d m t f' d' \<longleftrightarrow> mkgrow s f d m t f' d' (m + 1)
     \<and> (\<forall>q<m. baddr (image t) (ino_of d') q = baddr (image s) (ino_of d) q \<and>
         image t (baddr (image s) (ino_of d) q) = image s (baddr (image s) (ino_of d) q))
     \<and> image t (baddr (image t) (ino_of d') m) = replicate BSIZE 0"

lemma mk_bmap_direct:
  assumes s: "mkinv s f d m" and m: "m < NDIRECT" and room: "f < 1000"
  shows "\<exists>t f' d'. mk_bmap m d s = Ok (baddr (image t) (ino_of d') m, d') t \<and> next_block s f d m t f' d'"
proof -
  let ?d = "d\<lparr>d_addrs := (d_addrs d)[m := of_nat f]\<rparr>" and ?t = "new_block s"
  have F: "mkfile (image s) f (ino_of d) m False" and f: "nmeta \<le> f" "freeblock s = of_nat f" and V: "unused (image s) f"
    using s m by (simp_all add: mkinv_def unused_def)
  note n = mkfile_direct [OF F m f(1) room]
  have "d_addrs d ! m = 0" using F m by (auto simp: mkfile_def baddr_def MAXFILE_def)
  then have e: "mk_bmap m d s = Ok (of_nat f, ?d) ?t" using m f(2) by (simp add: mk_bmap_def)
  have i: "image ?t = image s" "freeblock ?t = of_nat (f + 1)" "mkio ?t" "?t = s\<lparr>image := image ?t, freeblock := freeblock ?t\<rparr>"
    using f(2) s by (simp_all add: new_block_def mkinv_def)
  have z: "image s (of_nat f) = replicate BSIZE 0" using V room by (simp add: unused_def unat_below)
  have "mkinv ?t (f + 1) ?d (m + 1)"
    using n(1) i V room m by (simp add: mkinv_def unused_def)
  then have "next_block s f d m ?t (f + 1) ?d"
    using n i(1,4) m z by (simp add: next_block_def mkgrow_def need_def mkblks_def)
  with e n(2) i(1) show ?thesis by (metis ino_of_simps(1,5))
qed

lemma mk_bmap_indirect:
  assumes s: "mkio s" "unused (image s) f" "freeblock s = of_nat f" "f < 1000"
    and F: "mkfile (image s) f (ino_of d) m True" and m: "NDIRECT \<le> m" "m < MAXFILE"
  shows "\<exists>t. mk_bmap m d s = Ok (baddr (image t) (ino_of d) m, d) t \<and> mkinv t (f + 1) d (m + 1)
    \<and> t = s\<lparr>image := image t, freeblock := freeblock t\<rparr>
    \<and> grows (image s) f (owned (image s) (ino_of d) m True) (image t) (f + 1) (mkblks t d (m + 1))
    \<and> (\<forall>q<m. baddr (image t) (ino_of d) q = baddr (image s) (ino_of d) q \<and>
         image t (baddr (image s) (ino_of d) q) = image s (baddr (image s) (ino_of d) q))
    \<and> image t (baddr (image t) (ino_of d) m) = replicate BSIZE 0"
proof -
  let ?i = "d_addrs d ! NDIRECT"
  let ?W = "(image s)(?i := put_word (m - NDIRECT) (of_nat f) (image s ?i))"
  let ?t = "s\<lparr>image := ?W, freeblock := of_nat (f + 1)\<rparr>"
  have f: "nmeta \<le> f" using s(2) by (simp add: unused_def)
  have len: "\<forall>k. length (image s k) = BSIZE" using s(1) by (simp add: mkio_def)
  note n = mkfile_indirect [OF F m f s(4) len, unfolded ino_of_simps]
  have "?i \<in> owned (image s) (ino_of d) m True" by (simp add: owned_def)
  then have "data_block f ?i" using F by (simp add: mkfile_def)
  then have i: "?i \<noteq> 0" "?i < FSSIZE" "unat ?i < f" using s(4) by (auto simp: data_block_def nmeta_def word_less_nat_alt FSSIZE_def)
  have "get_word (image s ?i) (m - NDIRECT) = 0" using F m by (auto simp: mkfile_def baddr_def)
  then have e: "mk_bmap m d s = Ok (of_nat f, d) ?t"
    using m(1) i s len by (simp add: mk_bmap_def new_block_def rsect_ok wsect_ok words.put_length Let_def add.commute)
  have "mkio ?t" using wsect_ok(2) [OF s(1) i(2)] len by (simp add: words.put_length)
  moreover have "unused ?W (f + 1)" using s(2) i by (auto simp: unused_def)
  ultimately have "mkinv ?t (f + 1) d (m + 1)" using n(1) m s(4) by (simp add: mkinv_def)
  moreover have "?W (of_nat f) = replicate BSIZE 0"
  proof -
    have u: "unat (of_nat f :: u32) = f" using s(4) by (simp add: unat_below)
    then have "of_nat f \<noteq> ?i" using i(3) by (metis less_irrefl)
    then show ?thesis using s(2) u by (simp add: unused_def)
  qed
  moreover have "?W (baddr (image s) (ino_of d) q) = image s (baddr (image s) (ino_of d) q)" if "q < m" for q
  proof -
    have "baddr (image s) (ino_of d) q \<in> baddr (image s) (ino_of d) ` {..<m}" using that by simp
    moreover have "?i \<notin> baddr (image s) (ino_of d) ` {..<m}" using F by (simp add: mkfile_def)
    ultimately have "baddr (image s) (ino_of d) q \<noteq> ?i" by metis
    then show ?thesis by simp
  qed
  ultimately show ?thesis
    using e n(2-4) m by (intro exI [of _ ?t]) (simp add: mkblks_def)
qed

lemma mk_bmap_first_indirect:
  assumes s: "mkinv s f d NDIRECT" and room: "f + 1 < 1000"
  shows "\<exists>t f' d'. mk_bmap NDIRECT d s = Ok (baddr (image t) (ino_of d') NDIRECT, d') t \<and> next_block s f d NDIRECT t f' d'"
proof -
  let ?d = "d\<lparr>d_addrs := (d_addrs d)[NDIRECT := of_nat f]\<rparr>" and ?s = "new_block s"
  have F: "mkfile (image s) f (ino_of d) NDIRECT False" and V: "unused (image s) f" and f: "freeblock s = of_nat f"
    using s by (simp_all add: mkinv_def)
  have room1: "f < 1000" using room by simp
  note n = mkfile_indirect_new [OF F room1 V, unfolded ino_of_simps, folded ino_of_simps(5)]
  have i: "image ?s = image s" "freeblock ?s = of_nat (f + 1)" "mkio ?s" "?s = s\<lparr>freeblock := freeblock ?s\<rparr>" "unused (image ?s) (f + 1)"
    using f s V by (simp_all add: new_block_def mkinv_def unused_def)
  have "(of_nat f :: u32) \<noteq> 0" using room V unat_below [of f] by (auto simp: unused_def nmeta_def)
  moreover have "d_addrs d ! NDIRECT = 0" "length (d_addrs d) = NDIRECT + 1" using F by (simp_all add: mkfile_def)
  ultimately have e: "mk_bmap NDIRECT d s = mk_bmap NDIRECT ?d ?s" using f by (simp add: mk_bmap_def)
  have M: "NDIRECT < MAXFILE" by (simp add: MAXFILE_def NINDIRECT_def BSIZE_def)
  from mk_bmap_indirect [OF i(3,5,2) room _ order_refl M, of ?d] n(1) i(1)
  obtain t where t: "mk_bmap NDIRECT ?d ?s = Ok (baddr (image t) (ino_of ?d) NDIRECT, ?d) t" "mkinv t (f + 2) ?d (NDIRECT + 1)"
    "t = ?s\<lparr>image := image t, freeblock := freeblock t\<rparr>"
    "grows (image s) (f + 1) (owned (image s) (ino_of ?d) NDIRECT True) (image t) (f + 2) (mkblks t ?d (NDIRECT + 1))"
    "\<forall>q<NDIRECT. baddr (image t) (ino_of ?d) q = baddr (image s) (ino_of ?d) q \<and>
       image t (baddr (image s) (ino_of ?d) q) = image s (baddr (image s) (ino_of ?d) q)"
    "image t (baddr (image t) (ino_of ?d) NDIRECT) = replicate BSIZE 0"
    by auto
  have "grows (image s) f (owned (image s) (ino_of d) NDIRECT False) (image t) (f + 2) (mkblks t ?d (NDIRECT + 1))"
    using grows_trans [OF n(4) t(4)] .
  moreover have "t = s\<lparr>image := image t, freeblock := freeblock t\<rparr>" using t(3) unfolding new_block_def by (cases s; cases t; simp)
  ultimately have "next_block s f d NDIRECT t (f + 2) ?d"
    using t(2,5,6) n(3) by (simp add: next_block_def mkgrow_def need_def mkblks_def)
  with e t(1) show ?thesis by metis
qed

lemma mk_bmap_next:
  assumes s: "mkinv s f d m" and m: "m < MAXFILE" and room: "f + need (m + 1) \<le> 1000 + need m"
  shows "\<exists>t f' d'. mk_bmap m d s = Ok (baddr (image t) (ino_of d') m, d') t \<and> next_block s f d m t f' d'"
proof -
  consider "m < NDIRECT" | "m = NDIRECT" | "NDIRECT < m" by linarith
  then show ?thesis
  proof cases
    case 3
    have "mkio s" "unused (image s) f" "freeblock s = of_nat f" "f < 1000" "mkfile (image s) f (ino_of d) m True" "NDIRECT \<le> m"
      using s 3 room by (simp_all add: mkinv_def need_def)
    from mk_bmap_indirect [OF this m]
    show ?thesis using 3 by (auto simp: next_block_def mkgrow_def need_def mkblks_def)
  qed (use mk_bmap_direct [OF s] mk_bmap_first_indirect [of s f d] s room in \<open>auto simp: need_def\<close>)
qed

text \<open>The number of blocks of a file, and the bytes in them: its contents, then zeros.\<close>

definition nblk :: "nat \<Rightarrow> nat" where
  "nblk l = (l + BSIZE - 1) div BSIZE"

definition holds :: "(u32 \<Rightarrow> block) \<Rightarrow> inode \<Rightarrow> nat \<Rightarrow> u8 list \<Rightarrow> bool" where
  "holds V x m c \<longleftrightarrow> length c \<le> m * BSIZE \<and> (\<forall>p<m * BSIZE. fbyte V x p = (if p < length c then c ! p else 0))"

lemma nblk_eq: "q * BSIZE < l \<Longrightarrow> l \<le> (q + 1) * BSIZE \<Longrightarrow> nblk l = q + 1"
  unfolding nblk_def BSIZE_def by (intro div_nat_eqI) simp_all

lemma nblk_div: "nblk l = l div BSIZE + (if l mod BSIZE = 0 then 0 else 1)"
proof (cases "l mod BSIZE = 0")
  case True
  then show ?thesis by (auto simp: nblk_def BSIZE_def elim!: dvdE)
next
  case False
  have "l = l div BSIZE * BSIZE + l mod BSIZE" by simp
  moreover have "l mod BSIZE < BSIZE" by (simp add: BSIZE_def)
  moreover have "(l div BSIZE + 1) * BSIZE = l div BSIZE * BSIZE + BSIZE" by simp
  ultimately have "l div BSIZE * BSIZE < l" "l \<le> (l div BSIZE + 1) * BSIZE" using False by linarith+
  then have "nblk l = l div BSIZE + 1" by (rule nblk_eq)
  with False show ?thesis by simp
qed

lemma nblk_mono: "l \<le> l' \<Longrightarrow> nblk l \<le> nblk l'"
  by (simp add: nblk_def div_le_mono)

lemma nblk_Suc: "nblk (l + 1) = l div BSIZE + 1"
proof (rule nblk_eq)
  have "l mod BSIZE < BSIZE" "l div BSIZE * BSIZE + l mod BSIZE = l" by (simp_all add: BSIZE_def)
  then show "l div BSIZE * BSIZE < l + 1" "l + 1 \<le> (l div BSIZE + 1) * BSIZE"
    using add_mult_distrib [of "l div BSIZE" 1 BSIZE] by linarith+
qed

lemma need_mono: "m \<le> m' \<Longrightarrow> need m \<le> need m'"
  by (simp add: need_def)

lemma mkfile_written:
  assumes F: "mkfile V f x m b" and W: "written x m off src n V W"
  shows "mkfile W f x m b" "owned W x m b = owned V x m b"
proof -
  have im: "baddr W x ` {..<m} = baddr V x ` {..<m}" and inj: "inj_on (baddr W x) {..<m} = inj_on (baddr V x) {..<m}"
    using W by (auto simp: written_def intro!: image_cong inj_on_cong)
  then show o: "owned W x m b = owned V x m b" by (simp add: owned_def)
  have "0 \<notin> owned V x m b" using F by (auto simp: mkfile_def data_block_def nmeta_def)
  then have "i_addrs x ! NDIRECT \<notin> baddr V x ` {..<m}"
    using F by (auto simp: mkfile_def owned_def split: if_splits)
  then have "W (i_addrs x ! NDIRECT) = V (i_addrs x ! NDIRECT)" using W by (simp add: written_def)
  then have "baddr W x q = baddr V x q" for q by (simp add: baddr_def)
  then show "mkfile W f x m b" using F by (simp add: mkfile_def o inj)
qed

lemma mk_bmap_ok:
  assumes s: "mkinv s f d (nblk (length c))" "holds (image s) (ino_of d) (nblk (length c)) c"
    and c: "length c < MAXFILE * BSIZE" and room: "f + need (length c div BSIZE + 1) \<le> 1000 + need (nblk (length c))"
  defines "q \<equiv> length c div BSIZE"
  shows "\<exists>t f' d'. mk_bmap q d s = Ok (baddr (image t) (ino_of d') q, d') t
    \<and> mkgrow s f d (nblk (length c)) t f' d' (q + 1) \<and> holds (image t) (ino_of d') (q + 1) c"
proof (cases "length c mod BSIZE = 0")
  case False
  then have m: "nblk (length c) = q + 1" by (simp add: nblk_div q_def)
  have "mk_bmap q d s = Ok (baddr (image s) (ino_of d) q, d) s" using mk_bmap_old [OF s(1)] m by simp
  moreover have "mkgrow s f d (q + 1) s f d (q + 1)" using mkgrow_refl [OF s(1)] m by simp
  ultimately show ?thesis using s(2) m by metis
next
  case True
  then have m: "nblk (length c) = q" by (simp add: nblk_div q_def)
  have "q < MAXFILE" using c by (simp add: q_def less_mult_imp_div_less)
  from mk_bmap_next [OF s(1) [unfolded m] this] room
  obtain t f' d' where t: "mk_bmap q d s = Ok (baddr (image t) (ino_of d') q, d') t" "next_block s f d q t f' d'"
    by (auto simp: q_def m [unfolded q_def])
  have l: "length c = q * BSIZE" using True by (metis add_0_right div_mult_mod_eq q_def)
  have "fbyte (image t) (ino_of d') p = (if p < length c then c ! p else 0)" if "p < (q + 1) * BSIZE" for p
  proof (cases "p < q * BSIZE")
    case True
    then have "p div BSIZE < q" by (simp add: less_mult_imp_div_less)
    then have "fbyte (image t) (ino_of d') p = fbyte (image s) (ino_of d) p" using t(2) by (simp add: next_block_def fbyte_def)
    with True s(2) show ?thesis by (simp add: holds_def m)
  next
    case False
    with that have "p div BSIZE = q" by (intro div_nat_eqI) (simp_all add: mult.commute)
    moreover have "p mod BSIZE < BSIZE" by (simp add: BSIZE_def)
    ultimately show ?thesis using t(2) False l by (simp add: next_block_def fbyte_def)
  qed
  then have "holds (image t) (ino_of d') (q + 1) c" using l by (simp add: holds_def)
  with t m show ?thesis by (auto simp: next_block_def)
qed

lemma holds_written:
  assumes "holds V x m c" "written x m (length c) (nth p) n V W" "n \<le> length p" "length c + n \<le> m * BSIZE"
  shows "holds W x m (c @ take n p)"
  using assms by (auto simp: holds_def written_def nth_append)

lemma mk_write_ok:
  assumes s: "mkinv s f d (q + 1)" "holds (image s) (ino_of d) (q + 1) c" and q: "q = length c div BSIZE"
    and p: "p \<noteq> []" and n: "n = min (length p) ((q + 1) * BSIZE - length c)"
  defines "a \<equiv> baddr (image s) (ino_of d) q"
  shows "rsect a s = Ok (image s a) s"
    "\<exists>t. wsect a (blit (length c - q * BSIZE) (take n p) (image s a)) s = Ok () t \<and> mkgrow s f d (q + 1) t f d (q + 1)
       \<and> holds (image t) (ino_of d) (q + 1) (c @ take n p) \<and> nblk (length c + n) = q + 1"
proof -
  let ?V = "image s" and ?x = "ino_of d"
  let ?W = "?V(a := blit (length c mod BSIZE) (map (nth p) [0..<n]) (?V a))"
  have F: "mkfile ?V f ?x (q + 1) (NDIRECT < q + 1)" and io: "mkio s" and f: "f \<le> 1000" using s(1) by (simp_all add: mkinv_def)
  have k: "a < FSSIZE" "unat a < f" "a \<noteq> 0" "a \<in> mkblks s d (q + 1)"
    using mkinv_block [OF s(1), of a] by (simp_all add: a_def mkblks_def owned_def)
  show "rsect a s = Ok (image s a) s" by (rule rsect_ok [OF io k(1)])
  have r: "length c - q * BSIZE = length c mod BSIZE" using q by (simp add: minus_div_mult_eq_mod)
  have B: "length c mod BSIZE < BSIZE" "q * BSIZE + length c mod BSIZE = length c" using q by (simp_all add: BSIZE_def)
  have t: "map (nth p) [0..<n] = take n p" using n by (intro nth_equalityI) simp_all
  have nB: "n \<le> BSIZE - length c mod BSIZE" "0 < n" using n p B by auto
  have len: "length (?V j) = BSIZE" for j using io by (simp add: mkio_def)
  have own: "own_blocks ?V ?x (q + 1)" using mkfile_own_blocks [OF F] f by (simp add: FSSIZE_def)
  have "length c div BSIZE < q + 1" using q by simp
  from written_block [OF own this len nB(1), of "nth p", folded q, folded a_def]
  have W: "written ?x (q + 1) (length c) (nth p) n ?V ?W" .
  have l: "length (blit (length c mod BSIZE) (map (nth p) [0..<n]) (?V a)) = BSIZE" using nB B(1) len [of a] by simp
  let ?t = "s\<lparr>image := ?W\<rparr>"
  have w: "wsect a (blit (length c - q * BSIZE) (take n p) (?V a)) s = Ok () ?t" "mkio ?t"
    using wsect_ok [OF io k(1) l] by (simp_all add: r t)
  have fr: "unused ?W f" using s(1) k by (auto simp: mkinv_def unused_def)
  have inv: "mkinv ?t f d (q + 1)" using s(1) w(2) fr mkfile_written(1) [OF F W] by (simp add: mkinv_def)
  have o: "mkblks ?t d (q + 1) = mkblks s d (q + 1)" using mkfile_written(2) [OF F W] by (simp add: mkblks_def)
  have "grows ?V f (mkblks s d (q + 1)) ?W f (mkblks s d (q + 1))" using k(4) by (auto simp: grows_def)
  then have g: "mkgrow s f d (q + 1) ?t f d (q + 1)" using inv o by (simp add: mkgrow_def)
  have up: "length c + n \<le> (q + 1) * BSIZE" "q * BSIZE < length c + n"
    using nB B add_mult_distrib [of q 1 BSIZE] by linarith+
  have "holds ?W ?x (q + 1) (c @ take n p)"
    using holds_written [OF s(2) W _ up(1)] n by simp
  then show "\<exists>t. wsect a (blit (length c - q * BSIZE) (take n p) (image s a)) s = Ok () t \<and> mkgrow s f d (q + 1) t f d (q + 1)
       \<and> holds (image t) (ino_of d) (q + 1) (c @ take n p) \<and> nblk (length c + n) = q + 1"
    using w(1) g nblk_eq [OF up(2,1)] by (intro exI [of _ ?t]) simp
qed

declare iappend_loop.simps [simp del]

lemma iappend_loop_ok:
  assumes "mkinv s f d (nblk (length c))" "holds (image s) (ino_of d) (nblk (length c)) c"
    "length c + length p \<le> MAXFILE * BSIZE" "f + need (nblk (length c + length p)) \<le> 1000 + need (nblk (length c))"
  shows "\<exists>t f' d'. iappend_loop p (length c) d s = Ok (length c + length p, d') t
    \<and> mkgrow s f d (nblk (length c)) t f' d' (nblk (length c + length p))
    \<and> holds (image t) (ino_of d') (nblk (length c + length p)) (c @ p)"
  using assms
proof (induction p arbitrary: c s f d rule: length_induct)
  case (1 p)
  show ?case
  proof (cases "p = []")
    case True
    then have "iappend_loop p (length c) d s = Ok (length c + length p, d) s" by (simp add: iappend_loop.simps [of "[]"])
    with True 1(3) mkgrow_refl [OF 1(2)] show ?thesis by auto
  next
    case False
    let ?q = "length c div BSIZE" and ?L = "length c + length p"
    define n where "n = min (length p) ((?q + 1) * BSIZE - length c)"
    have lt: "length c < MAXFILE * BSIZE" using 1(4) False by (cases p) simp_all
    have qM: "?q < MAXFILE" using lt by (simp add: less_mult_imp_div_less)
    have "length c + 1 \<le> ?L" using False by (cases p) simp_all
    then have "?q + 1 \<le> nblk ?L" using nblk_mono nblk_Suc le_trans by metis
    then have "f + need (?q + 1) \<le> 1000 + need (nblk (length c))" using need_mono [of "?q + 1" "nblk ?L"] 1(5) by linarith
    from mk_bmap_ok [OF 1(2,3) lt this]
    obtain t f1 d1 where t: "mk_bmap ?q d s = Ok (baddr (image t) (ino_of d1) ?q, d1) t"
      "mkgrow s f d (nblk (length c)) t f1 d1 (?q + 1)" "holds (image t) (ino_of d1) (?q + 1) c"
      by (elim exE conjE) (rule that)
    have "mkinv t f1 d1 (?q + 1)" using t(2) by (simp add: mkgrow_def)
    note w = mk_write_ok [OF this t(3) refl False n_def]
    from w(2) obtain u where u:
      "wsect (baddr (image t) (ino_of d1) ?q) (blit (length c - ?q * BSIZE) (take n p) (image t (baddr (image t) (ino_of d1) ?q))) t = Ok () u"
      "mkgrow t f1 d1 (?q + 1) u f1 d1 (?q + 1)" "holds (image u) (ino_of d1) (?q + 1) (c @ take n p)" "nblk (length c + n) = ?q + 1"
      by (elim exE conjE) (rule that)
    have np: "n \<le> length p" by (simp add: n_def)
    then have ln: "length (c @ take n p) = length c + n" by simp
    have step: "iappend_loop p (length c) d s = iappend_loop (drop n p) (length (c @ take n p)) d1 u"
    proof -
      have "min (length p) (BSIZE + ?q * BSIZE - length c) = n" by (simp add: n_def)
      then show ?thesis using False qM t(1) w(1) u(1) np by (simp add: iappend_loop.simps [of p] Let_def)
    qed
    have "length c < (?q + 1) * BSIZE" by (simp add: dividend_less_div_times BSIZE_def)
    then have n0: "0 < n" using False by (simp add: n_def)
    have tot: "length (c @ take n p) + length (drop n p) = ?L" using np by simp
    have i: "mkinv u f1 d1 (nblk (length (c @ take n p)))" "holds (image u) (ino_of d1) (nblk (length (c @ take n p))) (c @ take n p)"
      using u(2-4) ln by (simp_all add: mkgrow_def)
    have r: "f1 + need (nblk (length (c @ take n p) + length (drop n p))) \<le> 1000 + need (nblk (length (c @ take n p)))"
      unfolding tot using t(2) 1(5) ln u(4) by (simp add: mkgrow_def)
    have le: "length (c @ take n p) + length (drop n p) \<le> MAXFILE * BSIZE" unfolding tot by (rule 1(4))
    have "length (drop n p) < length p" using n0 False by simp
    from 1(1) [rule_format, OF this i le r]
    obtain v f2 d2 where v: "iappend_loop (drop n p) (length (c @ take n p)) d1 u = Ok (?L, d2) v"
      "mkgrow u f1 d1 (nblk (length (c @ take n p))) v f2 d2 (nblk ?L)" "holds (image v) (ino_of d2) (nblk ?L) ((c @ take n p) @ drop n p)"
      unfolding tot by (elim exE conjE) (rule that)
    have "mkgrow s f d (nblk (length c)) v f2 d2 (nblk ?L)"
      using mkgrow_trans [OF mkgrow_trans [OF t(2) u(2)]] v(2) u(4) ln by simp
    with v(1,3) step show ?thesis by auto
  qed
qed

section \<open>The whole image\<close>

text \<open>Inode \<open>n\<close> of an image, and the block that holds it.\<close>

definition iblk :: "nat \<Rightarrow> u32" where
  "iblk n = IBLOCK (of_nat n) mk_sb"

definition dino :: "(u32 \<Rightarrow> block) \<Rightarrow> nat \<Rightarrow> dinode" where
  "dino V n = get_dinode (V (iblk n)) (dslot (of_nat n))"

definition max_inodes :: nat where "max_inodes = ninodeblocks * IPB"

lemma mk_consts [simp]:
  "NINODES = 200" "nmeta = 59" "max_inodes = 208" "unat FSSIZE = 1000" "IPB = 8" "sb_inodestart mk_sb = 32" "sb_bmapstart mk_sb = 58"
  by (simp_all add: NINODES_def nmeta_def max_inodes_def nlog_def ninodeblocks_def nbitmap_def LOGSIZE_def MAXOPBLOCKS_def
      FSSIZE_def BSIZE_def IPB_def DINODE_SIZE_def mk_sb_def)

lemma iblk_unat:
  assumes "n < max_inodes"
  shows "unat (iblk n) = 32 + n div 8" "dslot (of_nat n) = n mod 8"
proof -
  have n: "unat (of_nat n :: u32) = n" using assms by (simp add: unat_below)
  have "n div 8 < 26" using assms by simp
  then have "unat (of_nat n div 8 + 32 :: u32) = n div 8 + 32"
    using n by (subst unat_add_lem [THEN iffD1]) (simp_all add: unat_div)
  then show "unat (iblk n) = 32 + n div 8" by (simp add: iblk_def IBLOCK_def)
  show "dslot (of_nat n) = n mod 8" using n by (simp add: dslot_def)
qed

lemma iblk_bounds: "n < max_inodes \<Longrightarrow> iblk n \<noteq> 0 \<and> iblk n \<noteq> 1 \<and> iblk n < FSSIZE \<and> unat (iblk n) < 59"
  using iblk_unat(1) [of n] by (auto simp: word_less_nat_alt)

lemma unused_frame:
  assumes V: "unused V f" and W: "\<forall>k. k \<noteq> b \<longrightarrow> W k = V k" and b: "b \<noteq> 0" "unat b < 59"
  shows "unused W f"
proof -
  have "k \<noteq> b" if "f \<le> unat k" for k using that V b(2) by (auto simp: unused_def)
  with V W b(1) show ?thesis by (simp add: unused_def)
qed

lemma winode_ok:
  assumes s: "mkio s" and n: "n < max_inodes" and d: "length (d_addrs d) = NDIRECT + 1"
  shows "\<exists>t. winode (of_nat n) d s = Ok () t \<and> mkio t \<and> t = s\<lparr>image := image t\<rparr> \<and> (\<forall>k. k \<noteq> iblk n \<longrightarrow> image t k = image s k)
    \<and> dino (image t) n = d \<and> (\<forall>j<max_inodes. j \<noteq> n \<longrightarrow> dino (image t) j = dino (image s) j)"
proof -
  let ?b = "put_dinode (dslot (of_nat n)) d (image s (iblk n))"
  let ?t = "s\<lparr>image := (image s)(iblk n := ?b)\<rparr>"
  note b = iblk_bounds [OF n]
  have len: "length (image s k) = BSIZE" for k using s by (simp add: mkio_def)
  then have l: "length ?b = BSIZE" by (simp add: dinodes.put_length)
  have w: "winode (of_nat n) d s = Ok () ?t" "mkio ?t"
    using wsect_ok [OF s _ l, of "iblk n"] rsect_ok [OF s, of "iblk n"] b s by (simp_all add: winode_def iblk_def mkio_def Let_def)
  have same: "dino (image ?t) n = d"
    using dinodes.put_same [OF len _ d] iblk_unat(2) [OF n] by (simp add: dino_def)
  have "dino (image ?t) j = dino (image s) j" if j: "j < max_inodes" "j \<noteq> n" for j
  proof (cases "iblk j = iblk n")
    case True
    then have "j div 8 = n div 8" using iblk_unat(1) [OF n] iblk_unat(1) [OF j(1)] by simp
    then have "j mod 8 \<noteq> n mod 8" using j(2) div_mult_mod_eq by metis
    with True show ?thesis
      using dinodes.put_other [OF len _ _ _ d] iblk_unat(2) [OF n] iblk_unat(2) [OF j(1)] by (simp add: dino_def)
  qed (simp add: dino_def)
  with w same show ?thesis by (intro exI [of _ ?t]) simp
qed

lemma rinode_ok: "mkio s \<Longrightarrow> n < max_inodes \<Longrightarrow> rinode (of_nat n) s = Ok (dino (image s) n) s"
  using iblk_bounds [of n] rsect_ok [of s "iblk n"] by (simp add: rinode_def dino_def iblk_def mkio_def)

text \<open>A file with the contents \<open>c\<close> below block \<open>f\<close>.\<close>

definition fblocks :: "(u32 \<Rightarrow> block) \<Rightarrow> dinode \<Rightarrow> u8 list \<Rightarrow> u32 set" where
  "fblocks V d c = owned V (ino_of d) (nblk (length c)) (NDIRECT < nblk (length c))"

definition stored_file :: "(u32 \<Rightarrow> block) \<Rightarrow> nat \<Rightarrow> dinode \<Rightarrow> u8 list \<Rightarrow> bool" where
  "stored_file V f d c \<longleftrightarrow> d_size d = of_nat (length c) \<and> mkfile V f (ino_of d) (nblk (length c)) (NDIRECT < nblk (length c))
     \<and> holds V (ino_of d) (nblk (length c)) c"

lemma mkfile_size: "mkfile V f (x\<lparr>i_size := z\<rparr>) m b = mkfile V f x m b"
  and holds_size: "holds V (x\<lparr>i_size := z\<rparr>) m c = holds V x m c"
  and owned_size: "owned V (x\<lparr>i_size := z\<rparr>) m b = owned V x m b"
  by (simp_all add: mkfile_def holds_def owned_def)

lemma stored_file_data: "stored_file V f d c \<Longrightarrow> k \<in> fblocks V d c \<Longrightarrow> data_block f k"
  by (simp add: stored_file_def fblocks_def mkfile_def)

lemma stored_file_frame:
  assumes F: "stored_file V f d c" and W: "\<forall>k\<in>fblocks V d c. W k = V k" "W 0 = V 0" and f: "f \<le> f'"
  shows "stored_file W f' d c" "fblocks W d c = fblocks V d c"
proof -
  let ?x = "ino_of d" and ?m = "nblk (length c)"
  have "W (d_addrs d ! NDIRECT) = V (d_addrs d ! NDIRECT)"
    using F W by (auto simp: stored_file_def mkfile_def fblocks_def owned_def split: if_splits)
  then have b: "baddr W ?x = baddr V ?x" by (simp add: baddr_def fun_eq_iff)
  then show o: "fblocks W d c = fblocks V d c" by (simp add: fblocks_def owned_def)
  have "fbyte W ?x p = fbyte V ?x p" if "p < ?m * BSIZE" for p
  proof -
    have "p div BSIZE < ?m" using that by (simp add: less_mult_imp_div_less)
    then have "baddr V ?x (p div BSIZE) \<in> fblocks V d c" by (simp add: fblocks_def owned_def)
    with W(1) b show ?thesis by (simp add: fbyte_def)
  qed
  moreover have "\<forall>k\<in>fblocks V d c. data_block f' k" using stored_file_data [OF F] f data_block_mono by blast
  ultimately show "stored_file W f' d c"
    using F b o by (simp add: stored_file_def mkfile_def holds_def fblocks_def split: if_split_asm)
qed

text \<open>
  \<open>mkwf fs s\<close>: the image holds the files \<open>fs\<close> (their types and contents) in the inodes from 1 on, in blocks of
  their own; the blocks in use are exactly those that the files need.
\<close>

definition used_blocks :: "(u16 \<times> u8 list) list \<Rightarrow> nat" where
  "used_blocks fs = nmeta + sum_list (map (\<lambda>(_, c). need (nblk (length c))) fs)"

definition file_at :: "(u32 \<Rightarrow> block) \<Rightarrow> nat \<Rightarrow> nat \<Rightarrow> u16 \<times> u8 list \<Rightarrow> bool" where
  "file_at V f n y \<longleftrightarrow> d_type (dino V n) = fst y \<and> d_nlink (dino V n) = 1 \<and> stored_file V f (dino V n) (snd y)"

definition blks :: "(u32 \<Rightarrow> block) \<Rightarrow> (u16 \<times> u8 list) list \<Rightarrow> nat \<Rightarrow> u32 set" where
  "blks V fs j = fblocks V (dino V (j + 1)) (snd (fs ! j))"

definition mkwf :: "(u16 \<times> u8 list) list \<Rightarrow> mkst \<Rightarrow> bool" where
  "mkwf fs s \<longleftrightarrow> mkio s \<and> unused (image s) (used_blocks fs) \<and> freeblock s = of_nat (used_blocks fs) \<and> used_blocks fs \<le> 1000
     \<and> freeinode s = of_nat (length fs + 1) \<and> length fs < max_inodes \<and> get_sb (image s 1) = mk_sb
     \<and> (\<forall>j<length fs. file_at (image s) (used_blocks fs) (j + 1) (fs ! j))
     \<and> (\<forall>i<length fs. \<forall>j<length fs. i \<noteq> j \<longrightarrow> blks (image s) fs i \<inter> blks (image s) fs j = {})"

lemma used_blocks_update:
  assumes "j < length fs"
  shows "used_blocks (fs[j := (ty, c)]) + need (nblk (length (snd (fs ! j)))) = used_blocks fs + need (nblk (length c))"
proof -
  let ?g = "\<lambda>(_ :: u16, c :: u8 list). need (nblk (length c))"
  have "?g (fs ! j) \<le> sum_list (map ?g fs)" using assms by (intro member_le_sum_list) auto
  then show ?thesis
    using assms sum_list_update [of j "map ?g fs" "?g (ty, c)"] by (simp add: used_blocks_def map_update split_def)
qed

text \<open>What one step may do to the other files: it keeps their inodes and their blocks.\<close>

lemma file_at_frame:
  assumes F: "file_at V f n y" and f: "f \<le> f'" and d: "dino W n = dino V n" and "W 0 = V 0"
    and k: "\<forall>k\<in>fblocks V (dino V n) (snd y). W k = V k"
  shows "file_at W f' n y" "fblocks W (dino W n) (snd y) = fblocks V (dino V n) (snd y)"
  using stored_file_frame [of V f "dino V n" "snd y" W f'] assms by (simp_all add: file_at_def)

lemma mkwf_change:
  assumes s: "mkwf fs s" and j: "j < length fs" and fs': "fs' = fs[j := y]"
    and u: "mkio u" "freeinode u = freeinode s" "freeblock u = of_nat (used_blocks fs')" "unused (image u) (used_blocks fs')"
    and f: "used_blocks fs \<le> used_blocks fs'" "used_blocks fs' \<le> 1000"
    and k: "\<forall>k. unat k < used_blocks fs \<and> k \<notin> blks (image s) fs j \<and> k \<noteq> iblk (j + 1) \<and> k \<noteq> 58
      \<longrightarrow> image u k = image s k"
    and d: "\<forall>i<max_inodes. i \<noteq> j + 1 \<longrightarrow> dino (image u) i = dino (image s) i"
    and y: "file_at (image u) (used_blocks fs') (j + 1) y"
    and b: "\<forall>k\<in>blks (image u) fs' j. k \<in> blks (image s) fs j \<or> used_blocks fs \<le> unat k"
  shows "mkwf fs' u"
proof -
  let ?V = "image s" and ?W = "image u" and ?f = "used_blocks fs"
  have files: "file_at ?V ?f (i + 1) (fs ! i)" if "i < length fs" for i using s that by (simp add: mkwf_def)
  have n: "length fs < max_inodes" "nmeta \<le> ?f" using s by (auto simp: mkwf_def unused_def)
  have data: "data_block ?f q" if "i < length fs" "q \<in> blks ?V fs i" for i q
    using that files [of i] stored_file_data by (auto simp: file_at_def blks_def)
  have ib: "unat (iblk (j + 1)) < 59" "iblk (j + 1) \<noteq> 0" "iblk (j + 1) \<noteq> 1" using iblk_bounds [of "j + 1"] n j by auto
  have meta: "?W q = ?V q" if "unat q < nmeta" "q \<noteq> iblk (j + 1)" "q \<noteq> 58" for q
    using k that n(2) data [OF j] by (force simp: data_block_def)
  have z: "?W 0 = ?V 0" "?W 1 = ?V 1" using meta [of 0] meta [of 1] ib by simp_all
  have other: "file_at ?W (used_blocks fs') (i + 1) (fs ! i)" "blks ?W fs' i = blks ?V fs i" if i: "i < length fs" "i \<noteq> j" for i
  proof -
    have "?W q = ?V q" if "q \<in> blks ?V fs i" for q
    proof -
      have "q \<notin> blks ?V fs j" using s i j that by (auto simp: mkwf_def)
      moreover have "unat q < ?f" "q \<noteq> iblk (j + 1)" "q \<noteq> 58" using data [OF i(1) that] ib(1) by (auto simp: data_block_def)
      ultimately show ?thesis using k by simp
    qed
    then have q: "\<forall>q\<in>fblocks ?V (dino ?V (i + 1)) (snd (fs ! i)). ?W q = ?V q" by (simp add: blks_def)
    have "dino ?W (i + 1) = dino ?V (i + 1)" using d n i by simp
    from file_at_frame [OF files [OF i(1)] f(1) this z(1) q]
    show "file_at ?W (used_blocks fs') (i + 1) (fs ! i)" "blks ?W fs' i = blks ?V fs i"
      using i by (simp_all add: blks_def fs')
  qed
  have sep: "blks ?W fs' j \<inter> blks ?W fs' i = {}" if i: "i < length fs" "i \<noteq> j" for i
    unfolding other(2) [OF i] using b s i j data [OF i(1)] by (fastforce simp: mkwf_def data_block_def)
  have "blks ?W fs' i \<inter> blks ?W fs' i' = {}" if "i < length fs" "i' < length fs" "i \<noteq> i'" for i i'
    using that sep [of i] sep [of i'] other(2) s by (cases "i = j"; cases "i' = j") (auto simp: mkwf_def)
  moreover have "file_at ?W (used_blocks fs') (i + 1) (fs' ! i)" if "i < length fs" for i
    using that other(1) [of i] y by (cases "i = j") (simp_all add: fs')
  ultimately show ?thesis using s u f(2) z(2) by (simp add: mkwf_def fs')
qed

lemma iappend_files:
  assumes s: "mkwf fs s" and j: "j < length fs" "fs ! j = (ty, c)" and p: "length c + length p \<le> MAXFILE * BSIZE"
    and room: "used_blocks (fs[j := (ty, c @ p)]) \<le> 1000"
  shows "\<exists>t. iappend (of_nat (j + 1)) p s = Ok () t \<and> mkwf (fs[j := (ty, c @ p)]) t"
proof -
  let ?V = "image s" and ?f = "used_blocks fs" and ?fs = "fs[j := (ty, c @ p)]" and ?n = "j + 1"
  let ?d = "dino ?V ?n" and ?m = "nblk (length c)" and ?m' = "nblk (length c + length p)"
  have io: "mkio s" and un: "unused ?V ?f" and n: "?n < max_inodes" and N: "length fs < max_inodes" "?f \<le> 1000"
    using s j(1) by (simp_all add: mkwf_def)
  have files: "file_at ?V ?f (i + 1) (fs ! i)" if "i < length fs" for i using s that by (simp add: mkwf_def)
  have dj: "stored_file ?V ?f ?d c" "d_type ?d = ty" "d_nlink ?d = 1" using files [OF j(1)] j(2) by (simp_all add: file_at_def)
  have f': "used_blocks ?fs + need ?m = ?f + need ?m'" using used_blocks_update [OF j(1), of ty "c @ p"] j(2) by simp
  have "MAXFILE * BSIZE < 4294967296" by (simp add: MAXFILE_def NDIRECT_def NINDIRECT_def BSIZE_def)
  then have lc: "unat (d_size ?d) = length c" using dj(1) p by (simp add: stored_file_def unat_below)
  have "mkinv s ?f ?d ?m" "holds ?V (ino_of ?d) ?m c" using s dj(1) by (simp_all add: mkwf_def mkinv_def stored_file_def)
  moreover have "?f + need ?m' \<le> 1000 + need ?m" using f' room by linarith
  ultimately obtain t g e where t: "iappend_loop p (length c) ?d s = Ok (length c + length p, e) t"
    "mkgrow s ?f ?d ?m t g e ?m'" "holds (image t) (ino_of e) ?m' (c @ p)"
    using iappend_loop_ok [of s ?f ?d c p] p by auto
  have g: "g = used_blocks ?fs" using t(2) f' by (simp add: mkgrow_def)
  let ?e = "e\<lparr>d_size := of_nat (length c + length p)\<rparr>"
  have inv: "mkinv t g e ?m'" and gr: "grows ?V ?f (mkblks s ?d ?m) (image t) g (mkblks t e ?m')"
    and ts: "t = s\<lparr>image := image t, freeblock := freeblock t\<rparr>" and ed: "e = ?d\<lparr>d_addrs := d_addrs e\<rparr>"
    using t(2) by (simp_all add: mkgrow_def)
  have "mkio t" "length (d_addrs ?e) = NDIRECT + 1" using inv by (simp_all add: mkinv_def mkfile_def)
  from winode_ok [OF this(1) n this(2)]
  obtain u where u: "winode (of_nat ?n) ?e t = Ok () u" "mkio u" "u = t\<lparr>image := image u\<rparr>"
    "\<forall>k. k \<noteq> iblk ?n \<longrightarrow> image u k = image t k" "dino (image u) ?n = ?e"
    "\<forall>i<max_inodes. i \<noteq> ?n \<longrightarrow> dino (image u) i = dino (image t) i" by blast
  have run: "iappend (of_nat ?n) p s = Ok () u"
    using t(1) u(1) lc rinode_ok [OF io n] by (simp add: iappend_def)
  have "mkwf ?fs u"
  proof (rule mkwf_change [OF s j(1) refl])
    have b: "mkblks s ?d ?m = blks ?V fs j" using j by (simp add: mkblks_def blks_def fblocks_def)
    have e: "stored_file (image t) g ?e (c @ p)" "fblocks (image t) ?e (c @ p) = mkblks t e ?m'"
      using inv t(3) by (simp_all add: stored_file_def mkinv_def fblocks_def mkblks_def mkfile_size holds_size owned_size)
    have ib: "iblk ?n \<notin> fblocks (image t) ?e (c @ p)" "iblk ?n \<noteq> 0" "unat (iblk ?n) < 59"
      using iblk_bounds [OF n] stored_file_data [OF e(1), of "iblk ?n"] by (auto simp: data_block_def)
    have "\<forall>k\<in>fblocks (image t) ?e (c @ p). image u k = image t k" "image u 0 = image t 0" using u(4) ib by metis+
    note fr = stored_file_frame [OF e(1) this order_refl]
    show "file_at (image u) (used_blocks ?fs) (j + 1) (ty, c @ p)"
      using fr(1) u(5) dj(2,3) arg_cong [OF ed, of d_type] arg_cong [OF ed, of d_nlink] g by (auto simp: file_at_def)
    show "\<forall>k\<in>blks (image u) ?fs j. k \<in> blks ?V fs j \<or> ?f \<le> unat k"
      using fr(2) u(5) e(2) gr b j(1) by (auto simp: blks_def grows_def)
    show "freeinode u = freeinode s" using arg_cong [OF ts, of freeinode] arg_cong [OF u(3), of freeinode] by simp
    show "freeblock u = of_nat (used_blocks ?fs)" using arg_cong [OF u(3), of freeblock] inv g by (simp add: mkinv_def)
    show "unused (image u) (used_blocks ?fs)" using unused_frame [OF _ u(4) ib(2,3)] inv g by (simp add: mkinv_def)
    show "used_blocks fs \<le> used_blocks ?fs" using gr g by (simp add: grows_def)
    show "\<forall>k. unat k < ?f \<and> k \<notin> blks ?V fs j \<and> k \<noteq> iblk (j + 1) \<and> k \<noteq> 58 \<longrightarrow> image u k = ?V k"
      using gr b u(4) by (simp add: grows_def)
    have "dino (image t) i = dino ?V i" if "i < max_inodes" for i
    proof -
      have "iblk i \<notin> blks ?V fs j" "unat (iblk i) < ?f"
        using iblk_bounds [OF that] un stored_file_data [OF dj(1), of "iblk i"] j(2)
        by (auto simp: blks_def data_block_def unused_def)
      then show ?thesis using gr b by (simp add: dino_def grows_def)
    qed
    then show "\<forall>i<max_inodes. i \<noteq> j + 1 \<longrightarrow> dino (image u) i = dino ?V i" using u(6) by simp
  qed (use u(2) room in simp_all)
  with run show ?thesis by blast
qed

lemma ialloc_files:
  assumes s: "mkwf fs s" and n: "length fs + 1 < max_inodes"
  shows "\<exists>t. mk_ialloc ty s = Ok (of_nat (length fs + 1)) t \<and> mkwf (fs @ [(ty, [])]) t"
proof -
  let ?n = "length fs + 1" and ?fs = "fs @ [(ty, [])]" and ?V = "image s"
  let ?d = "dinode_zero\<lparr>d_type := ty, d_nlink := 1, d_size := 0\<rparr>" and ?s = "s\<lparr>freeinode := of_nat (length fs + 2)\<rparr>"
  have f: "used_blocks ?fs = used_blocks fs" by (simp add: used_blocks_def nblk_def need_def BSIZE_def)
  have "mkio ?s" "length (d_addrs ?d) = NDIRECT + 1" using s by (simp_all add: mkwf_def dinode_zero_def)
  from winode_ok [OF this(1) n this(2)]
  obtain t where t: "winode (of_nat ?n) ?d ?s = Ok () t" "mkio t" "t = ?s\<lparr>image := image t\<rparr>"
    "\<forall>k. k \<noteq> iblk ?n \<longrightarrow> image t k = ?V k" "dino (image t) ?n = ?d" "\<forall>j<max_inodes. j \<noteq> ?n \<longrightarrow> dino (image t) j = dino ?V j"
    by auto
  have ib: "iblk ?n \<noteq> 0" "iblk ?n \<noteq> 1" "unat (iblk ?n) < 59" using iblk_bounds [OF n] by auto
  have un: "unused ?V (used_blocks fs)" using s by (simp add: mkwf_def)
  then have un': "unused (image t) (used_blocks fs)" using unused_frame [OF _ t(4) ib(1,3)] by blast
  have run: "mk_ialloc ty s = Ok (of_nat ?n) t"
    using t(1) s by (simp add: mk_ialloc_def mkwf_def add.commute add.left_commute)
  have new: "file_at (image t) (used_blocks fs) ?n (ty, [])" "fblocks (image t) ?d [] = {}"
  proof -
    have a: "d_addrs ?d ! q = 0" if "q \<le> NDIRECT" for q
      using that unfolding dinode_zero_def by (simp del: replicate_Suc)
    then have "baddr (image t) (ino_of ?d) q = 0" if "q < MAXFILE" for q
      using that un' baddr_zero [of "image t" "ino_of ?d" q]
      by (cases "q < NDIRECT") (simp_all add: baddr_def unused_def)
    with a [of NDIRECT] show "file_at (image t) (used_blocks fs) ?n (ty, [])" "fblocks (image t) ?d [] = {}"
      using t(5) by (simp_all add: file_at_def stored_file_def mkfile_def owned_def holds_def fblocks_def nblk_def BSIZE_def
          dinode_zero_def NDIRECT_def)
  qed
  have old: "file_at (image t) (used_blocks fs) (j + 1) (fs ! j)" "blks (image t) ?fs j = blks ?V fs j" if j: "j < length fs" for j
  proof -
    have F: "file_at ?V (used_blocks fs) (j + 1) (fs ! j)" using s j by (simp add: mkwf_def)
    have d: "dino (image t) (j + 1) = dino ?V (j + 1)" using t(6) n j by simp
    have "iblk ?n \<notin> fblocks ?V (dino ?V (j + 1)) (snd (fs ! j))"
      using F ib(3) stored_file_data [of ?V _ _ _ "iblk ?n"] by (fastforce simp: file_at_def data_block_def)
    then have "\<forall>k\<in>fblocks ?V (dino ?V (j + 1)) (snd (fs ! j)). image t k = ?V k" using t(4) by metis
    from file_at_frame [OF F order_refl d _ this] t(4) ib(1) j
    show "file_at (image t) (used_blocks fs) (j + 1) (fs ! j)" "blks (image t) ?fs j = blks ?V fs j"
      by (simp_all add: blks_def nth_append)
  qed
  have "blks (image t) ?fs i \<inter> blks (image t) ?fs j = {}" if "i < length ?fs" "j < length ?fs" "i \<noteq> j" for i j
    using that s new(2) t(5) old(2) by (cases "i = length fs"; cases "j = length fs") (auto simp: mkwf_def blks_def nth_append)
  moreover have "file_at (image t) (used_blocks fs) (j + 1) (?fs ! j)" if "j < length ?fs" for j
    using that new(1) old(1) [of j] by (cases "j = length fs") (simp_all add: nth_append)
  moreover have "freeinode t = of_nat (length fs + 2)" "freeblock t = freeblock s"
    using arg_cong [OF t(3), of freeinode] arg_cong [OF t(3), of freeblock] by simp_all
  ultimately have "mkwf ?fs t" using s t(2,4) un' ib n f by (simp add: mkwf_def)
  with run show ?thesis by blast
qed

section \<open>The files on the command line\<close>

text \<open>The files fit: in the blocks of the image, in its inodes, and each in what an inode can address.\<close>

definition fits :: "(u16 \<times> u8 list) list \<Rightarrow> bool" where
  "fits fs \<longleftrightarrow> used_blocks fs \<le> 1000 \<and> length fs < max_inodes \<and> (\<forall>i<length fs. length (snd (fs ! i)) \<le> MAXFILE * BSIZE)"

definition smaller :: "(u16 \<times> u8 list) list \<Rightarrow> (u16 \<times> u8 list) list \<Rightarrow> bool" where
  "smaller fs fs' \<longleftrightarrow> length fs \<le> length fs' \<and> (\<forall>i<length fs. length (snd (fs ! i)) \<le> length (snd (fs' ! i)))"

lemma smaller_trans: "smaller fs fs' \<Longrightarrow> smaller fs' fs'' \<Longrightarrow> smaller fs fs''"
  unfolding smaller_def by (meson le_trans less_le_trans)

lemma fits_smaller:
  assumes "fits fs'" "smaller fs fs'"
  shows "fits fs"
proof -
  let ?g = "\<lambda>y :: u16 \<times> u8 list. need (nblk (length (snd y)))"
  have u: "used_blocks gs = nmeta + (\<Sum>i<length gs. ?g (gs ! i))" for gs
    unfolding used_blocks_def sum_list_sum_nth by (simp add: split_def atLeast0LessThan)
  have "(\<Sum>i<length fs. ?g (fs ! i)) \<le> (\<Sum>i<length fs. ?g (fs' ! i))"
    using assms(2) by (intro sum_mono need_mono nblk_mono) (simp add: smaller_def)
  also have "\<dots> \<le> (\<Sum>i<length fs'. ?g (fs' ! i))"
    using assms(2) by (intro sum_mono2) (auto simp: smaller_def)
  finally show ?thesis using assms unfolding fits_def u smaller_def by (auto intro: le_trans)
qed

definition file_bytes :: "u8 list list \<Rightarrow> u8 list" where
  "file_bytes reads = concat (takeWhile (\<lambda>b. b \<noteq> []) reads)"

definition base_name :: "u8 list \<Rightarrow> u8 list" where
  "base_name name = (if name \<noteq> [] \<and> hd name = 0x5F then tl name else name)"

lemma copy_files:
  assumes "mkwf fs s" "j < length fs" "fs ! j = (ty, c)" "fits (fs[j := (ty, c @ file_bytes bs)])"
  shows "\<exists>t. mk_copy (of_nat (j + 1)) bs s = Ok () t \<and> mkwf (fs[j := (ty, c @ file_bytes bs)]) t"
  using assms
proof (induction bs arbitrary: fs s c)
  case Nil
  then show ?case using list_update_id [of fs j] by (simp add: file_bytes_def)
next
  case (Cons b bs)
  show ?case
  proof (cases "b = []")
    case True
    then show ?thesis using Cons.prems list_update_id [of fs j] by (simp add: file_bytes_def)
  next
    case False
    let ?fs = "fs[j := (ty, c @ b)]"
    have fb: "file_bytes (b # bs) = b @ file_bytes bs" using False by (simp add: file_bytes_def)
    have "smaller ?fs (fs[j := (ty, c @ file_bytes (b # bs))])"
      using Cons.prems(2) by (auto simp: smaller_def nth_list_update fb)
    with Cons.prems(4) have F: "fits ?fs" by (rule fits_smaller)
    then have "length c + length b \<le> MAXFILE * BSIZE" "used_blocks ?fs \<le> 1000"
      using Cons.prems(2) by (auto simp: fits_def dest!: spec [of _ j])
    from iappend_files [OF Cons.prems(1-3) this]
    obtain t where t: "iappend (of_nat (j + 1)) b s = Ok () t" "mkwf ?fs t" by blast
    from Cons.IH [OF t(2), of "c @ b"] Cons.prems(2,4)
    obtain u where "mk_copy (of_nat (j + 1)) bs t = Ok () u" "mkwf (?fs[j := (ty, (c @ b) @ file_bytes bs)]) u"
      by (auto simp: fb)
    with t(1) False show ?thesis by (auto simp: fb)
  qed
qed

definition add_file :: "u8 list \<times> u8 list list \<Rightarrow> (u16 \<times> u8 list) list \<Rightarrow> (u16 \<times> u8 list) list" where
  "add_file f fs = fs[0 := (fst (fs ! 0), snd (fs ! 0) @ mk_dirent (of_nat (length fs + 1)) (base_name (fst f)))]
     @ [(T_FILE, file_bytes (snd f))]"

lemma mk_file_files:
  assumes s: "mkwf fs s" "fs \<noteq> []" and f: "c_slash \<notin> set name" and F: "fits (add_file (name, reads) fs)"
  shows "\<exists>t. mk_file 1 (name, Some reads) s = Ok () t \<and> mkwf (add_file (name, reads) fs) t"
proof -
  let ?n = "length fs + 1" and ?g = "fs @ [(T_FILE, [])]" and ?N = "base_name name"
  obtain ty c where c: "fs ! 0 = (ty, c)" by (cases "fs ! 0")
  let ?c = "c @ mk_dirent (of_nat ?n) ?N"
  let ?h = "?g[0 := (ty, ?c)]"
  have l: "0 < length fs" using s(2) by simp
  have a: "add_file (name, reads) fs = ?h[length fs := (T_FILE, [] @ file_bytes reads)]"
    using l c by (simp add: add_file_def list_update_append list_update_beyond)
  have "smaller ?h (add_file (name, reads) fs)" unfolding a using s(2) by (auto simp: smaller_def nth_list_update)
  with F have H: "fits ?h" by (rule fits_smaller)
  then have n: "?n < max_inodes" "used_blocks ?h \<le> 1000" "length c + length (mk_dirent (of_nat ?n) ?N) \<le> MAXFILE * BSIZE"
    using l by (auto simp: fits_def dest!: spec [of _ 0])
  from ialloc_files [OF s(1) n(1), of T_FILE]
  obtain t where t: "mk_ialloc T_FILE s = Ok (of_nat ?n) t" "mkwf ?g t" by blast
  have g: "0 < length ?g" "?g ! 0 = (ty, c)" using l c by (simp_all add: nth_append)
  from iappend_files [OF t(2) g n(3,2)]
  obtain u where u: "iappend 1 (mk_dirent (of_nat ?n) ?N) t = Ok () u" "mkwf ?h u" by auto
  have h: "length fs < length ?h" "?h ! length fs = (T_FILE, [])" using l by (simp_all add: nth_append)
  from copy_files [OF u(2) h F [unfolded a]]
  obtain v where v: "mk_copy (of_nat ?n) reads u = Ok () v" "mkwf (add_file (name, reads) fs) v" unfolding a by blast
  have "mk_file 1 (name, Some reads) s = Ok () v"
    using f t(1) u(1) v(1) by (simp add: mk_file_def base_name_def)
  with v(2) show ?thesis by blast
qed

lemma smaller_add_file: "fs \<noteq> [] \<Longrightarrow> smaller fs (add_file f fs)"
  by (auto simp: smaller_def add_file_def nth_append nth_list_update)

lemma add_file_not_Nil [simp]: "add_file f fs \<noteq> []" "length (add_file f fs) = length fs + 1"
  by (simp_all add: add_file_def)

lemma smaller_fold: "fs \<noteq> [] \<Longrightarrow> smaller fs (fold add_file files fs)"
proof (induction files arbitrary: fs)
  case Nil
  show ?case by (simp add: smaller_def)
next
  case (Cons f files)
  then show ?case using smaller_trans [OF smaller_add_file [OF Cons.prems] Cons.IH [of "add_file f fs"]] by simp
qed

lemma mk_files_ok:
  assumes "mkwf fs s" "fs \<noteq> []" "\<forall>f\<in>set files. c_slash \<notin> set (fst f)" "fits (fold add_file files fs)"
  shows "\<exists>t. mk_files 1 (map (map_prod id Some) files) s = Ok () t \<and> mkwf (fold add_file files fs) t"
  using assms
proof (induction files arbitrary: fs s)
  case (Cons f files)
  obtain name reads where f: "f = (name, reads)" by (cases f)
  have "fits (add_file f fs)" using Cons.prems(4) smaller_fold [of "add_file f fs" files] fits_smaller by auto
  with mk_file_files [OF Cons.prems(1,2), of name reads] Cons.prems(3) f
  obtain t where t: "mk_file 1 (name, Some reads) s = Ok () t" "mkwf (add_file f fs) t" by auto
  from Cons.IH [OF t(2)] Cons.prems(3,4) t(1) f show ?case by auto
qed simp

text \<open>The files of the image in closed form: the root directory with its entries, then the files in order.\<close>

definition mk_entry :: "nat \<Rightarrow> u8 list \<Rightarrow> dirent" where
  "mk_entry n name = \<lparr>de_inum = of_nat n, de_name = pad DIRSIZ name\<rparr>"

definition entries_from :: "nat \<Rightarrow> (u8 list \<times> u8 list list) list \<Rightarrow> dirent list" where
  "entries_from n files = map (\<lambda>(i, f). mk_entry i (base_name (fst f))) (enumerate n files)"

definition dir_bytes :: "dirent list \<Rightarrow> u8 list" where
  "dir_bytes es = concat (map dirent_bytes es)"

definition root_entries :: "(u8 list \<times> u8 list list) list \<Rightarrow> dirent list" where
  "root_entries files = mk_entry 1 (asc ''.'') # mk_entry 1 (asc ''..'') # entries_from 2 files"

definition image_files :: "(u8 list \<times> u8 list list) list \<Rightarrow> (u16 \<times> u8 list) list" where
  "image_files files = (T_DIR, dir_bytes (root_entries files)) # map (\<lambda>f. (T_FILE, file_bytes (snd f))) files"

lemma mk_dirent_eq: "mk_dirent (of_nat n) name = dirent_bytes (mk_entry n name)"
proof -
  have "(ucast (of_nat n :: u32) :: u16) = of_nat n" by (simp add: unsigned_of_nat word_of_nat_eq_iff)
  then show ?thesis by (simp add: mk_dirent_def mk_entry_def)
qed

lemma fold_add_file:
  "fold add_file files ((ty, c) # gs) =
    (ty, c @ dir_bytes (entries_from (length gs + 2) files)) # gs @ map (\<lambda>f. (T_FILE, file_bytes (snd f))) files"
proof (induction files arbitrary: c gs)
  case Nil
  show ?case by (simp add: dir_bytes_def entries_from_def)
next
  case (Cons f files)
  have "add_file f ((ty, c) # gs) = (ty, c @ dirent_bytes (mk_entry (length gs + 2) (base_name (fst f)))) # gs @ [(T_FILE, file_bytes (snd f))]"
    using mk_dirent_eq [of "length gs + 2"] by (simp add: add_file_def)
  then show ?case using Cons.IH by (simp add: dir_bytes_def entries_from_def)
qed

lemma root_names: "\<forall>e\<in>set (root_entries files). length (de_name e) = DIRSIZ"
  by (auto simp: root_entries_def entries_from_def mk_entry_def pad_def)

lemma length_dir_bytes: "\<forall>e\<in>set es. length (de_name e) = DIRSIZ \<Longrightarrow> length (dir_bytes es) = length es * DIRENT_SIZE"
  unfolding dir_bytes_def by (induction es) (simp_all add: dirent_bytes_def DIRSIZ_def DIRENT_SIZE_def)

lemma image_files_fold:
  "image_files files = fold add_file files [(T_DIR, dir_bytes [mk_entry 1 (asc ''.''), mk_entry 1 (asc ''..'')])]"
  by (simp add: fold_add_file image_files_def root_entries_def dir_bytes_def numeral_2_eq_2)

text \<open>The bytes of a directory, padded with zeros, are its entries followed by free ones.\<close>

lemma length_dirent_bytes: "length (de_name e) = DIRSIZ \<Longrightarrow> length (dirent_bytes e) = DIRENT_SIZE"
  by (simp add: dirent_bytes_def DIRSIZ_def DIRENT_SIZE_def)

lemma dirents_append:
  assumes "length xs = DIRENT_SIZE"
  shows "dirents (xs @ ys) = get_dirent xs # dirents ys"
proof -
  have "length (xs @ ys) div DIRENT_SIZE = Suc (length ys div DIRENT_SIZE)" using assms by (simp add: DIRENT_SIZE_def)
  moreover have "take DIRENT_SIZE (drop (DIRENT_SIZE * Suc j) (xs @ ys)) = take DIRENT_SIZE (drop (DIRENT_SIZE * j) ys)" for j
    using assms by simp
  ultimately show ?thesis using assms by (simp add: dirents_def upt_conv_Cons map_Suc_upt [symmetric] del: upt_Suc)
qed

lemma dirents_dir_bytes:
  assumes "\<forall>e\<in>set es. length (de_name e) = DIRSIZ"
  shows "dirents (dir_bytes es @ ys) = es @ dirents ys"
  using assms
proof (induction es)
  case (Cons e es)
  then show ?case by (simp add: dir_bytes_def dirents_append length_dirent_bytes get_dirent_bytes)
qed (simp add: dir_bytes_def)

lemma dirents_zeros: "dirents (replicate (k * DIRENT_SIZE) 0) = replicate k \<lparr>de_inum = 0, de_name = replicate DIRSIZ 0\<rparr>"
proof (induction k)
  case (Suc k)
  have "replicate (Suc k * DIRENT_SIZE) 0 = replicate DIRENT_SIZE (0 :: u8) @ replicate (k * DIRENT_SIZE) 0"
    by (simp add: replicate_add)
  moreover have "get_dirent (replicate DIRENT_SIZE 0) = \<lparr>de_inum = 0, de_name = replicate DIRSIZ 0\<rparr>"
    by (simp add: get_dirent_def get16_def DIRENT_SIZE_def DIRSIZ_def numeral_eq_Suc)
  ultimately show ?case using Suc by (simp add: dirents_append)
qed (simp add: dirents_def)

section \<open>The program\<close>

lemma mk_zero_ok: "\<forall>k. ok k \<Longrightarrow> n \<le> 1000 \<Longrightarrow> mk_zero n (mk_start ok) = Ok () ((mk_start ok)\<lparr>img_len := n\<rparr>)"
proof (induction n)
  case (Suc n)
  have u: "unat (of_nat n :: u32) = n" using Suc.prems(2) by (simp add: unat_below)
  then have "sect (of_nat n) = of_nat n" using Suc.prems(2) by (intro sect_id) (simp add: word_less_nat_alt)
  with Suc u show ?case by (simp add: wsect_def mk_start_def fun_upd_def)
qed (simp add: mk_start_def)

lemma mk_super:
  assumes "\<forall>k. ok k"
  shows "\<exists>s. wsect 1 (put_sb mk_sb (replicate BSIZE 0)) ((mk_start ok)\<lparr>img_len := 1000\<rparr>) = Ok () s \<and> mkwf [] s"
proof -
  let ?s = "(mk_start ok)\<lparr>img_len := 1000\<rparr>" and ?b = "put_sb mk_sb (replicate BSIZE 0)"
  have io: "mkio ?s" using assms by (simp add: mkio_def mk_start_def)
  have l: "length ?b = BSIZE" by (simp add: put_sb_def)
  have "(1 :: u32) < FSSIZE" by (simp add: FSSIZE_def)
  note w = wsect_ok [OF io this l]
  have "get_sb ?b = mk_sb" by (rule get_put_sb) (simp add: BSIZE_def)
  with w(2) have "mkwf [] (?s\<lparr>image := (image ?s)(1 := ?b)\<rparr>)"
    by (auto simp: mkwf_def mk_start_def unused_def used_blocks_def)
  with w(1) show ?thesis by blast
qed

text \<open>Rounding the size of the root directory up to the end of its last block.\<close>

lemma root_size_files:
  assumes s: "mkwf fs s" "0 < length fs" "fs ! 0 = (ty, c)" and c: "length c mod BSIZE \<noteq> 0"
  defines "L \<equiv> (length c div BSIZE + 1) * BSIZE"
  shows "\<exists>t. winode 1 ((dino (image s) 1)\<lparr>d_size := of_nat L\<rparr>) s = Ok () t \<and> mkwf (fs[0 := (ty, c @ replicate (L - length c) 0)]) t
    \<and> used_blocks (fs[0 := (ty, c @ replicate (L - length c) 0)]) = used_blocks fs"
proof -
  let ?V = "image s" and ?c = "c @ replicate (L - length c) 0" and ?d = "dino (image s) 1"
  let ?fs = "fs[0 := (ty, ?c)]" and ?e = "?d\<lparr>d_size := of_nat L\<rparr>" and ?f = "used_blocks fs"
  have "length c mod BSIZE < BSIZE" "length c div BSIZE * BSIZE + length c mod BSIZE = length c" by (simp_all add: BSIZE_def)
  then have L: "length c \<le> L" "length c div BSIZE * BSIZE < L" "L \<le> (length c div BSIZE + 1) * BSIZE"
    unfolding L_def add_mult_distrib by linarith+
  have m: "nblk (length ?c) = nblk (length c)" "nblk (length c) * BSIZE = L"
    using L nblk_eq [OF L(2,3)] c by (simp_all add: nblk_div [of "length c"] L_def)
  have lc: "length ?c = L" using L(1) by simp
  have F: "file_at ?V ?f 1 (ty, c)" using s by (auto simp: mkwf_def)
  have f: "used_blocks ?fs = ?f" using used_blocks_update [OF s(2), of ty ?c] s(3) m(1) by simp
  have d: "d_type ?d = ty" "d_nlink ?d = 1" "length (d_addrs ?e) = NDIRECT + 1" using F by (simp_all add: file_at_def stored_file_def mkfile_def)
  have "holds ?V (ino_of ?d) (nblk (length c)) c" using F by (simp add: file_at_def stored_file_def)
  then have "holds ?V (ino_of ?d) (nblk (length c)) ?c" unfolding holds_def lc m(2) by (auto simp: nth_append)
  then have e: "stored_file ?V ?f ?e ?c" "fblocks ?V ?e ?c = blks ?V fs 0"
    using F m(1) lc s(3) by (simp_all add: file_at_def stored_file_def mkfile_size holds_size fblocks_def owned_size blks_def)
  have n: "(1 :: nat) < max_inodes" and io: "mkio s" using s by (simp_all add: mkwf_def)
  from winode_ok [OF io n d(3)]
  obtain t where t: "winode 1 ?e s = Ok () t" "mkio t" "t = s\<lparr>image := image t\<rparr>"
    "\<forall>k. k \<noteq> iblk 1 \<longrightarrow> image t k = ?V k" "dino (image t) 1 = ?e" "\<forall>j<max_inodes. j \<noteq> 1 \<longrightarrow> dino (image t) j = dino ?V j"
    by auto
  have ib: "iblk 1 \<notin> fblocks ?V ?e ?c" "iblk 1 \<noteq> 0" "unat (iblk 1) < 59"
    using iblk_bounds [OF n] stored_file_data [OF e(1), of "iblk 1"] by (auto simp: data_block_def)
  have "\<forall>k\<in>fblocks ?V ?e ?c. image t k = ?V k" "image t 0 = ?V 0" using t(4) ib by metis+
  note fr = stored_file_frame [OF e(1) this order_refl]
  have "mkwf ?fs t"
  proof (rule mkwf_change [OF s(1,2) refl])
    show "file_at (image t) (used_blocks ?fs) (0 + 1) (ty, ?c)" using fr(1) t(5) d f by (simp add: file_at_def)
    show "\<forall>k\<in>blks (image t) ?fs 0. k \<in> blks ?V fs 0 \<or> ?f \<le> unat k" using fr(2) e(2) t(5) s(2) by (simp add: blks_def)
    show "unused (image t) (used_blocks ?fs)" using unused_frame [OF _ t(4) ib(2,3)] s(1) f by (simp add: mkwf_def)
    show "freeinode t = freeinode s" "freeblock t = of_nat (used_blocks ?fs)"
      using arg_cong [OF t(3), of freeinode] arg_cong [OF t(3), of freeblock] s(1) f by (simp_all add: mkwf_def)
  qed (use s(1) t(2,4,6) f in \<open>simp_all add: mkwf_def\<close>)
  with t(1) f show ?thesis by blast
qed

lemma bitmap_fill: "n \<le> BPB \<Longrightarrow> length (fold (\<lambda>i. put_bit i True) [0..<n] (replicate BSIZE 0)) = BSIZE
    \<and> (\<forall>b<BPB. get_bit (fold (\<lambda>i. put_bit i True) [0..<n] (replicate BSIZE 0)) b \<longleftrightarrow> b < n)"
proof (induction n)
  case 0
  then show ?case by (simp add: get_bit_def BPB_def BSIZE_def)
next
  case (Suc n)
  let ?x = "fold (\<lambda>i. put_bit i True) [0..<n] (replicate BSIZE 0)"
  have "get_bit (put_bit n True ?x) b \<longleftrightarrow> b < Suc n" if "b < BPB" for b
    using Suc that bitmap.put_same [of ?x n True] bitmap.put_other [of ?x n b True] by (cases "b = n") auto
  with Suc show ?case by (simp add: bitmap.put_length)
qed

lemma balloc_files:
  assumes s: "mkwf fs s" "0 < length fs"
  shows "\<exists>t. mk_balloc (freeblock s) s = Ok () t \<and> mkwf fs t \<and> (\<forall>b<BPB. get_bit (image t 58) b \<longleftrightarrow> b < used_blocks fs)"
proof -
  let ?f = "used_blocks fs" and ?V = "image s"
  let ?b = "fold (\<lambda>i. put_bit i True) [0..<?f] (replicate BSIZE 0)"
  let ?t = "s\<lparr>image := ?V(58 := ?b)\<rparr>"
  have io: "mkio s" and f: "freeblock s = of_nat ?f" "?f \<le> 1000" and fs: "\<forall>j<length fs. file_at ?V ?f (j + 1) (fs ! j)"
    and N: "length fs < max_inodes" and un: "unused ?V ?f"
    using s(1) by (simp_all add: mkwf_def)
  have B: "length ?b = BSIZE" "\<forall>b<BPB. get_bit ?b b \<longleftrightarrow> b < ?f" using bitmap_fill [of ?f] f(2) by (simp_all add: BPB_def BSIZE_def)
  have "(58 :: u32) < FSSIZE" by (simp add: FSSIZE_def)
  note w = wsect_ok [OF io this B(1)]
  have si: "sint (of_nat ?f :: u32) = int ?f" using f(2) by (simp add: signed_of_nat signed_take_bit_int_eq_self)
  have run: "mk_balloc (freeblock s) s = Ok () ?t"
    using w(1) io si f B(1) by (simp add: mk_balloc_def mkio_def BSIZE_def)
  have "mkwf fs ?t"
  proof (rule mkwf_change [OF s, of fs "fs ! 0"])
    have d: "dino (image ?t) i = dino ?V i" if "i < max_inodes" for i
    proof -
      have "unat (iblk i) < 58" using iblk_unat(1) [OF that] that by simp
      then have "iblk i \<noteq> 58" by auto
      then show ?thesis by (simp add: dino_def)
    qed
    then show "\<forall>i<max_inodes. i \<noteq> 0 + 1 \<longrightarrow> dino (image ?t) i = dino ?V i" by simp
    have F: "file_at ?V ?f 1 (fs ! 0)" and d1: "dino (image ?t) 1 = dino ?V 1" using fs s(2) d [of 1] by auto
    have "58 \<notin> fblocks ?V (dino ?V 1) (snd (fs ! 0))"
      using F stored_file_data [of ?V ?f "dino ?V 1" "snd (fs ! 0)" 58] by (auto simp: file_at_def data_block_def)
    then have "\<forall>k\<in>fblocks ?V (dino ?V 1) (snd (fs ! 0)). image ?t k = ?V k" by auto
    note fr = file_at_frame [where W = "image ?t", OF F order_refl d1 _ this]
    show "file_at (image ?t) ?f (0 + 1) (fs ! 0)" using fr(1) by simp
    show "\<forall>k\<in>blks (image ?t) fs 0. k \<in> blks ?V fs 0 \<or> ?f \<le> unat k" using fr(2) by (simp add: blks_def)
    show "unused (image ?t) ?f" using unused_frame [OF un, of 58 "image ?t"] by simp
  qed (use w(2) f in simp_all)
  with run B(2) show ?thesis by (intro exI [of _ ?t]) simp
qed

lemma word_round_up:
  assumes "n \<le> MAXFILE * BSIZE"
  shows "(of_nat n div of_nat BSIZE + 1) * of_nat BSIZE = (of_nat ((n div BSIZE + 1) * BSIZE) :: u32)"
proof -
  have "n < 4294967296" using assms by (simp add: MAXFILE_def NDIRECT_def NINDIRECT_def BSIZE_def)
  then have "unat (of_nat n div of_nat BSIZE :: u32) = unat (of_nat (n div BSIZE) :: u32)"
    by (simp add: unat_div unat_below BSIZE_def)
  then have "(of_nat n div of_nat BSIZE :: u32) = of_nat (n div BSIZE)" by (simp only: word_unat_eq_iff)
  then show ?thesis by (simp add: distrib_right)
qed

lemma mk_start_msb: "msb ((mk_start ok)\<lparr>img_len := n\<rparr>) = mk_sb"
  by (simp add: mk_start_def)

lemma mk_main_files:
  assumes ok: "\<forall>k. ok k" and names: "\<forall>f\<in>set files. c_slash \<notin> set (fst f)" and F: "fits (image_files files)"
    and r: "(length files + 2) mod (BSIZE div DIRENT_SIZE) \<noteq> 0"
  defines "c \<equiv> dir_bytes (root_entries files)"
  defines "L \<equiv> (length c div BSIZE + 1) * BSIZE"
  shows "\<exists>t. mkfs_main ok (map (map_prod id Some) files) = Ok () t
    \<and> mkwf ((image_files files)[0 := (T_DIR, c @ replicate (L - length c) 0)]) t
    \<and> (\<forall>b<BPB. get_bit (image t 58) b \<longleftrightarrow> b < used_blocks (image_files files))"
proof -
  let ?fs = "(image_files files)[0 := (T_DIR, c @ replicate (L - length c) 0)]"
  let ?dot = "mk_entry 1 (asc ''.'')" and ?dd = "mk_entry 1 (asc ''..'')"
  obtain s where s: "wsect 1 (put_sb mk_sb (replicate BSIZE 0)) ((mk_start ok)\<lparr>img_len := 1000\<rparr>) = Ok () s" "mkwf [] s"
    using mk_super [OF ok] by blast
  obtain s1 where s1: "mk_ialloc T_DIR s = Ok 1 s1" "mkwf [(T_DIR, [])] s1" using ialloc_files [OF s(2), of T_DIR] by auto
  have fb: "fits [(T_DIR, dir_bytes [?dot, ?dd])]"
    using fits_smaller [OF F smaller_fold [of "[(T_DIR, dir_bytes [?dot, ?dd])]" files, folded image_files_fold]] by simp
  have fd: "fits [(T_DIR, dir_bytes [?dot])]" by (rule fits_smaller [OF fb]) (simp add: smaller_def dir_bytes_def)
  have b1: "mk_dirent 1 name = dirent_bytes (mk_entry 1 name)" for name using mk_dirent_eq [of 1] by simp
  obtain s2 where s2: "iappend 1 (mk_dirent 1 (asc ''.'')) s1 = Ok () s2" "mkwf [(T_DIR, dir_bytes [?dot])] s2"
    using iappend_files [OF s1(2), of 0 T_DIR "[]" "dirent_bytes ?dot"] fd by (auto simp: fits_def dir_bytes_def b1)
  obtain s3 where s3: "iappend 1 (mk_dirent 1 (asc ''..'')) s2 = Ok () s3" "mkwf [(T_DIR, dir_bytes [?dot, ?dd])] s3"
    using iappend_files [OF s2(2), of 0 T_DIR "dir_bytes [?dot]" "dirent_bytes ?dd"] fb by (auto simp: fits_def dir_bytes_def b1)
  obtain s4 where s4: "mk_files 1 (map (map_prod id Some) files) s3 = Ok () s4" "mkwf (image_files files) s4"
    using mk_files_ok [OF s3(2) _ names] F unfolding image_files_fold by auto
  have io: "mkio s4" "rinode 1 s4 = Ok (dino (image s4) 1) s4" using s4(2) rinode_ok [of s4 1] by (simp_all add: mkwf_def)
  have i0: "0 < length (image_files files)" "image_files files ! 0 = (T_DIR, c)" by (simp_all add: image_files_def c_def)
  have lc: "length c = (length files + 2) * DIRENT_SIZE"
    unfolding c_def length_dir_bytes [OF root_names] by (simp add: root_entries_def entries_from_def)
  have "BSIZE = (BSIZE div DIRENT_SIZE) * DIRENT_SIZE" by (simp add: BSIZE_def DIRENT_SIZE_def)
  then have "length c mod BSIZE = (length files + 2) mod (BSIZE div DIRENT_SIZE) * DIRENT_SIZE"
    unfolding lc by (metis mod_mult_mult2)
  then have "length c mod BSIZE \<noteq> 0" using r by (simp add: DIRENT_SIZE_def)
  from root_size_files [OF s4(2) i0 this, folded L_def]
  obtain s5 where s5: "winode 1 ((dino (image s4) 1)\<lparr>d_size := of_nat L\<rparr>) s4 = Ok () s5" "mkwf ?fs s5"
    "used_blocks ?fs = used_blocks (image_files files)" by blast
  from balloc_files [OF s5(2)] i0(1) obtain t where t: "mk_balloc (freeblock s5) s5 = Ok () t" "mkwf ?fs t"
    "\<forall>b<BPB. get_bit (image t 58) b \<longleftrightarrow> b < used_blocks ?fs" by auto
  have "file_at (image s4) (used_blocks (image_files files)) 1 (image_files files ! 0)" using s4(2) i0(1) by (auto simp: mkwf_def)
  then have sz: "d_size (dino (image s4) 1) = of_nat (length c)" using i0(2) by (simp add: file_at_def stored_file_def)
  have "length c \<le> MAXFILE * BSIZE" using F i0 by (auto simp: fits_def dest!: spec [of _ 0])
  then have off: "(of_nat (length c) div of_nat BSIZE + 1) * of_nat BSIZE = (of_nat L :: u32)"
    unfolding L_def by (rule word_round_up)
  have "mkfs_main ok (map (map_prod id Some) files) = Ok () t"
    using mk_zero_ok [OF ok order_refl] s(1) s1(1) s2(1) s3(1) s4(1) io(2) s5(1) t(1) sz off
    by (simp add: mkfs_main_def ROOTINO_def mk_start_msb)
  with t(2,3) s5(3) show ?thesis by auto
qed

text \<open>The blocks of a file, with its indirect block.\<close>

definition file_blocks :: "(u32 \<Rightarrow> block) \<Rightarrow> inode \<Rightarrow> u32 set" where
  "file_blocks V x = (let m = nblk (unat (i_size x)) in owned V x m (NDIRECT < m))"

lemma stored_contents:
  assumes "stored_file V f d c" "f \<le> 1000"
  shows "contents V (ino_of d) = c" "own_blocks V (ino_of d) (nblk (length c))"
proof -
  have F: "mkfile V f (ino_of d) (nblk (length c)) (NDIRECT < nblk (length c))" and H: "holds V (ino_of d) (nblk (length c)) c"
    using assms(1) by (simp_all add: stored_file_def)
  then show "own_blocks V (ino_of d) (nblk (length c))" using mkfile_own_blocks assms(2) by simp
  have "length c \<le> nblk (length c) * BSIZE" "nblk (length c) \<le> MAXFILE" using F H by (simp_all add: holds_def mkfile_def)
  then have "length c \<le> MAXFILE * BSIZE" using mult_le_mono1 le_trans by blast
  then have "unat (d_size d) = length c"
    using assms(1) by (simp add: stored_file_def unat_below MAXFILE_def NDIRECT_def NINDIRECT_def BSIZE_def)
  with H show "contents V (ino_of d) = c"
    by (intro nth_equalityI) (simp_all add: contents_def holds_def)
qed

text \<open>
  C29. \<^verbatim>\<open>iappend\<close> appends to a file of the image: as long as the file stays addressable and the image has room, it
  succeeds, the file (an inode that the kernel loads from the same place) has the bytes at its end, every
  other file keeps its contents, and exactly the blocks that the longer file needs are taken.
\<close>

theorem iappend_correct:
  assumes "mkwf fs s" "j < length fs" "fs ! j = (ty, c)" "length (c @ p) \<le> MAXFILE * BSIZE"
    "used_blocks (fs[j := (ty, c @ p)]) \<le> 1000"
  shows "succeeds (iappend (of_nat (j + 1)) p s) (\<lambda>_ t. mkwf (fs[j := (ty, c @ p)]) t
    \<and> contents (image t) (ino_of (dino (image t) (j + 1))) = c @ p
    \<and> (\<forall>i<length fs. i \<noteq> j \<longrightarrow> contents (image t) (ino_of (dino (image t) (i + 1))) = snd (fs ! i))
    \<and> unat (freeblock t) + need (nblk (length c)) = unat (freeblock s) + need (nblk (length (c @ p))))"
proof -
  let ?fs = "fs[j := (ty, c @ p)]"
  obtain t where t: "iappend (of_nat (j + 1)) p s = Ok () t" "mkwf ?fs t"
    using iappend_files [OF assms(1-3)] assms(4,5) by auto
  have "contents (image t) (ino_of (dino (image t) (i + 1))) = snd (?fs ! i)" if "i < length fs" for i
    using t(2) that stored_contents(1) by (auto simp: mkwf_def file_at_def)
  moreover have "unat (freeblock t) = used_blocks ?fs" "unat (freeblock s) = used_blocks fs"
    using t(2) assms(1) by (simp_all add: mkwf_def unat_below)
  ultimately show ?thesis using t assms(2,3) used_blocks_update [OF assms(2), of ty "c @ p"] by (auto simp: nth_list_update)
qed

text \<open>
  C8. The image that \<^verbatim>\<open>mkfs\<close> builds is the file system that its command line describes, as the kernel reads
  it. If the files fit and the host's input and output succeed, the program succeeds. Block 1 holds the
  super block. The inode loaded for the root is a directory whose entries are \<^verbatim>\<open>.\<close>, \<^verbatim>\<open>..\<close> and the files in
  order, under their names without a leading underscore, followed by free entries. The inode of each file
  has exactly the bytes of the file. No block belongs to two files, and the bitmap marks exactly the blocks
  up to the last one in use.
  (With a multiple of 32 entries the size of the root would cover a block that is not allocated.)
\<close>

theorem mkfs_correct:
  assumes ok: "\<forall>k. ok k" and names: "\<forall>f\<in>set files. c_slash \<notin> set (fst f)" and F: "fits (image_files files)"
    and r: "(length files + 2) mod (BSIZE div DIRENT_SIZE) \<noteq> 0"
  shows "succeeds (mkfs_main ok (map (map_prod id Some) files)) (\<lambda>_ t. let V = image t; x = \<lambda>n. ino_of (dino V n) in
    get_sb (V 1) = mk_sb
    \<and> i_type (x 1) = T_DIR \<and> (\<exists>k. dirents (contents V (x 1)) = root_entries files @ replicate k \<lparr>de_inum = 0, de_name = replicate DIRSIZ 0\<rparr>)
    \<and> (\<forall>j<length files. i_type (x (j + 2)) = T_FILE \<and> contents V (x (j + 2)) = file_bytes (snd (files ! j)))
    \<and> (\<forall>n. 1 \<le> n \<and> n \<le> length files + 1 \<longrightarrow> i_nlink (x n) = 1 \<and> own_blocks V (x n) (nblk (unat (i_size (x n)))))
    \<and> (\<forall>m n. 1 \<le> m \<and> m < n \<and> n \<le> length files + 1 \<longrightarrow> file_blocks V (x m) \<inter> file_blocks V (x n) = {})
    \<and> (\<forall>b<BPB. get_bit (V (sb_bmapstart mk_sb)) b \<longleftrightarrow> b < used_blocks (image_files files)))"
proof -
  let ?c = "dir_bytes (root_entries files)"
  let ?k = "(length ?c div BSIZE + 1) * BSIZE - length ?c"
  let ?fs = "(image_files files)[0 := (T_DIR, ?c @ replicate ?k 0)]"
  obtain t where t: "mkfs_main ok (map (map_prod id Some) files) = Ok () t" "mkwf ?fs t"
    "\<forall>b<BPB. get_bit (image t 58) b \<longleftrightarrow> b < used_blocks (image_files files)"
    using mk_main_files [OF ok names F r] by blast
  let ?x = "\<lambda>n. ino_of (dino (image t) n)"
  have fs: "length ?fs = length files + 1" "?fs ! 0 = (T_DIR, ?c @ replicate ?k 0)"
    "\<forall>j<length files. ?fs ! (j + 1) = (T_FILE, file_bytes (snd (files ! j)))" by (simp_all add: image_files_def)
  have at: "file_at (image t) (used_blocks ?fs) (j + 1) (?fs ! j)" if "j < length files + 1" for j
    using t(2) that fs(1) by (simp add: mkwf_def)
  have c: "i_type (?x (j + 1)) = fst (?fs ! j)" "i_nlink (?x (j + 1)) = 1" "contents (image t) (?x (j + 1)) = snd (?fs ! j)"
    "own_blocks (image t) (?x (j + 1)) (nblk (length (snd (?fs ! j))))" if "j < length files + 1" for j
    using at [OF that] stored_contents [of "image t" "used_blocks ?fs" "dino (image t) (j + 1)" "snd (?fs ! j)"] t(2)
    by (simp_all add: file_at_def mkwf_def)
  have d: "DIRENT_SIZE dvd ?k" by (simp add: length_dir_bytes [OF root_names] DIRENT_SIZE_def BSIZE_def)
  then obtain k where "?k = DIRENT_SIZE * k" by (elim dvdE)
  then have "?k = k * DIRENT_SIZE" by (simp only: mult.commute)
  then have "dirents (contents (image t) (?x 1)) = root_entries files @ replicate k \<lparr>de_inum = 0, de_name = replicate DIRSIZ 0\<rparr>"
    using c(3) [of 0] fs(2) by (simp add: dirents_dir_bytes [OF root_names] dirents_zeros)
  moreover have "i_type (?x (j + 2)) = T_FILE" "contents (image t) (?x (j + 2)) = file_bytes (snd (files ! j))" if "j < length files" for j
    using c(1,3) [of "j + 1"] fs(3) that by (simp_all add: add.commute)
  moreover have "i_nlink (?x n) = 1" "own_blocks (image t) (?x n) (nblk (unat (i_size (?x n))))" if "1 \<le> n" "n \<le> length files + 1" for n
  proof -
    have n: "n - 1 < length files + 1" "n - 1 + 1 = n" using that by auto
    have "length (contents (image t) (?x n)) = unat (i_size (?x n))" by (simp add: contents_def)
    then show "i_nlink (?x n) = 1" "own_blocks (image t) (?x n) (nblk (unat (i_size (?x n))))"
      using c(2,3,4) [OF n(1)] unfolding n(2) by simp_all
  qed
  moreover have "file_blocks (image t) (?x m) \<inter> file_blocks (image t) (?x n) = {}" if "1 \<le> m" "m < n" "n \<le> length files + 1" for m n
  proof -
    have b: "file_blocks (image t) (?x (j + 1)) = blks (image t) ?fs j" if "j < length files + 1" for j
      using c(3) [OF that] by (simp add: file_blocks_def blks_def fblocks_def Let_def contents_def) (metis length_map length_upt minus_nat.diff_0)
    have "m - 1 < length files + 1" "n - 1 < length files + 1" "m - 1 \<noteq> n - 1" "m - 1 + 1 = m" "n - 1 + 1 = n" using that by auto
    then show ?thesis using b [of "m - 1"] b [of "n - 1"] t(2) fs(1) by (simp add: mkwf_def)
  qed
  ultimately show ?thesis using t c(1) [of 0] fs(2) by (auto simp: mkwf_def Let_def)
qed

theorem mkfs_correct_witness:
  "succeeds (mkfs_main (\<lambda>_. True) [(asc ''_cat'', Some [asc ''hello'']), (asc ''README'', Some [asc ''one'', asc ''two''])])
    (\<lambda>_ t. i_type (ino_of (dino (image t) 1)) = T_DIR \<and> contents (image t) (ino_of (dino (image t) 2)) = asc ''hello''
       \<and> contents (image t) (ino_of (dino (image t) 3)) = asc ''onetwo'')"
proof -
  let ?F = "[(asc ''_cat'', [asc ''hello'']), (asc ''README'', [asc ''one'', asc ''two''])]"
  have b: "file_bytes [asc ''hello''] = asc ''hello''" "file_bytes [asc ''one'', asc ''two''] = asc ''onetwo''"
    "length (asc ''hello'') = 5" "length (asc ''onetwo'') = 6"
    by (simp_all add: file_bytes_def asc_def)
  have "length (dir_bytes (root_entries ?F)) = 64"
    unfolding length_dir_bytes [OF root_names] by (simp add: root_entries_def entries_from_def DIRENT_SIZE_def)
  moreover have I: "image_files ?F = [(T_DIR, dir_bytes (root_entries ?F)), (T_FILE, asc ''hello''), (T_FILE, asc ''onetwo'')]"
    by (simp add: image_files_def b)
  moreover have "need (nblk 64) = 1" "need (nblk 5) = 1" "need (nblk 6) = 1"
    by (simp_all add: need_def nblk_def BSIZE_def NDIRECT_def)
  ultimately have "fits (image_files ?F)" unfolding I
    using b by (auto simp: fits_def used_blocks_def MAXFILE_def NDIRECT_def NINDIRECT_def BSIZE_def less_Suc_eq)
  moreover have "\<forall>f\<in>set ?F. c_slash \<notin> set (fst f)" by (simp add: asc_def)
  moreover have "(length ?F + 2) mod (BSIZE div DIRENT_SIZE) \<noteq> 0" by (simp add: BSIZE_def DIRENT_SIZE_def)
  ultimately have m: "succeeds (mkfs_main (\<lambda>_. True) (map (map_prod id Some) ?F))
    (\<lambda>_ t. i_type (ino_of (dino (image t) 1)) = T_DIR \<and> (\<forall>j<length ?F. contents (image t) (ino_of (dino (image t) (j + 2))) = file_bytes (snd (?F ! j))))"
    using mkfs_correct [of "\<lambda>_. True" ?F] unfolding succeeds_def Let_def by (auto split: res.splits)
  show ?thesis using m b by (auto simp: succeeds_def numeral_2_eq_2 numeral_3_eq_3 dest!: spec [of _ 0] spec [of _ 1] split: res.splits)
qed

theorem iappend_correct_witness:
  "\<exists>s. mkwf [(T_FILE, [])] s \<and> unat (freeblock s) = 59 \<and> succeeds (iappend 1 (asc ''hi'') s)
     (\<lambda>_ t. contents (image t) (ino_of (dino (image t) 1)) = asc ''hi'' \<and> unat (freeblock t) = 60)"
proof -
  obtain s0 where "mkwf [] s0" using mk_super [of "\<lambda>_. True"] by blast
  then obtain s where s: "mkwf [(T_FILE, [])] s" using ialloc_files [of "[]" s0 T_FILE] by auto
  have u: "used_blocks [(T_FILE, [])] = 59" "used_blocks [(T_FILE, asc ''hi'')] = 60" "length (asc ''hi'') = 2"
    "need (nblk 0) = 0" "need (nblk 2) = 1"
    by (simp_all add: used_blocks_def need_def nblk_def BSIZE_def NDIRECT_def asc_def)
  have f: "unat (freeblock s) = 59" using s u(1) by (simp add: mkwf_def)
  have "(2 :: nat) \<le> MAXFILE * BSIZE" by (simp add: MAXFILE_def NDIRECT_def NINDIRECT_def BSIZE_def)
  then show ?thesis
    using iappend_correct [OF s, of 0 T_FILE "[]" "asc ''hi''"] u f s by (auto simp: succeeds_def split: res.splits)
qed

text \<open>
  \<^verbatim>\<open>mkfs\<close> never compares the number of inodes with the size of the inode area: inode 208 lies in the block of
  the bitmap, which the program writes last.
\<close>

lemma inode_overruns_bitmap: "iblk max_inodes = sb_bmapstart mk_sb"
  by (simp add: iblk_def IBLOCK_def)

end
