(* ===== verification/File.thy ===== *)
theory File
  imports Fs Pipe
begin

text \<open>
  Open files, \<^verbatim>\<open>file.c\<close>, and \<^verbatim>\<open>pipealloc\<close> of \<^verbatim>\<open>pipe.c\<close>, which needs them. A pointer to a file is
  its index in the file table.
\<close>

section \<open>Data\<close>

definition NFILE :: nat where "NFILE = 100"

datatype filetype = FD_NONE | FD_PIPE | FD_INODE

record file_t =
  f_type :: filetype
  f_ref :: int
  f_readable :: bool
  f_writable :: bool
  f_pipe :: u32
  f_ip :: "nat option"
  f_off :: u32

record ftst = consst +
  ftable :: "file_t list"

definition upd_file :: "nat \<Rightarrow> (file_t \<Rightarrow> file_t) \<Rightarrow> 'a ftst_scheme \<Rightarrow> 'a ftst_scheme" where
  "upd_file f g s = s\<lparr>ftable := (ftable s)[f := g (ftable s ! f)]\<rparr>"

section \<open>Reference counts\<close>

definition filealloc :: "'a ftst_scheme \<Rightarrow> ('a ftst_scheme, nat option) res" where
  "filealloc s =
     rbind (acquire L_ftable s) (\<lambda>_ s.
       case first_index (\<lambda>x. f_ref x = 0) (ftable s) of
         Some f \<Rightarrow> rbind (release L_ftable (upd_file f (\<lambda>x. x\<lparr>f_ref := 1\<rparr>) s)) (\<lambda>_ s. Ok (Some f) s)
       | None \<Rightarrow> rbind (release L_ftable s) (\<lambda>_ s. Ok None s))"

definition filedup :: "nat \<Rightarrow> 'a ftst_scheme \<Rightarrow> ('a ftst_scheme, nat) res" where
  "filedup f s =
     rbind (acquire L_ftable s) (\<lambda>_ s.
       if f_ref (ftable s ! f) < 1 then Panic ''filedup''
       else rbind (release L_ftable (upd_file f (\<lambda>x. x\<lparr>f_ref := f_ref x + 1\<rparr>) s)) (\<lambda>_ s. Ok f s))"

definition fileclose :: "nat \<Rightarrow> 'a ftst_scheme \<Rightarrow> ('a ftst_scheme, unit) res" where
  "fileclose f s =
     rbind (acquire L_ftable s) (\<lambda>_ s.
       if f_ref (ftable s ! f) < 1 then Panic ''fileclose''
       else let s = upd_file f (\<lambda>x. x\<lparr>f_ref := f_ref x - 1\<rparr>) s in
         if f_ref (ftable s ! f) > 0 then release L_ftable s
         else let ff = ftable s ! f;
                  s = upd_file f (\<lambda>x. x\<lparr>f_ref := 0, f_type := FD_NONE\<rparr>) s in
           rbind (release L_ftable s) (\<lambda>_ s.
             case f_type ff of
               FD_PIPE \<Rightarrow> pipeclose (f_pipe ff) (f_writable ff) s
             | FD_INODE \<Rightarrow>
                 rbind (begin_op s) (\<lambda>_ s.
                 rbind (case f_ip ff of None \<Rightarrow> Panic ''nullptr'' | Some ip \<Rightarrow> iput ip s) (\<lambda>_ s.
                   end_op s))
             | FD_NONE \<Rightarrow> Ok () s))"

section \<open>Input and output\<close>

definition filestat :: "nat \<Rightarrow> 'a ftst_scheme \<Rightarrow> ('a ftst_scheme, stat option) res" where
  "filestat f s =
     (if f_type (ftable s ! f) = FD_INODE then
        rbind (ilock (f_ip (ftable s ! f)) s) (\<lambda>_ s.
          case f_ip (ftable s ! f) of None \<Rightarrow> Panic ''nullptr''
          | Some ip \<Rightarrow> let st = stati ip s in rbind (iunlock (Some ip) s) (\<lambda>_ s. Ok (Some st) s))
      else Ok None s)"

definition fileread :: "nat \<Rightarrow> int \<Rightarrow> 'a ftst_scheme \<Rightarrow> ('a ftst_scheme, int \<times> u8 list) res" where
  "fileread f n s =
     (let x = ftable s ! f in
      if \<not> f_readable x then Ok (-1, []) s
      else case f_type x of
          FD_PIPE \<Rightarrow> piperead (f_pipe x) n s
        | FD_INODE \<Rightarrow>
            (case f_ip x of None \<Rightarrow> Panic ''ilock''
             | Some ip \<Rightarrow>
                 rbind (ilock (Some ip) s) (\<lambda>_ s.
                 rbind (readi ip (f_off (ftable s ! f)) (word_of_int n) s) (\<lambda>(r, bs) s.
                   let s = (if r > 0 then upd_file f (\<lambda>x. x\<lparr>f_off := f_off x + word_of_int r\<rparr>) s else s) in
                   rbind (iunlock (Some ip) s) (\<lambda>_ s. Ok (r, bs) s))))
        | FD_NONE \<Rightarrow> Panic ''fileread'')"

definition write_max :: int where
  "write_max = (int MAXOPBLOCKS - 1 - 1 - 2) div 2 * 512"

text \<open>One transaction of \<^verbatim>\<open>filewrite\<close>, for \<open>n1\<close> bytes at \<open>addr + i\<close>; the result is \<^verbatim>\<open>r\<close>.\<close>

definition filewrite_chunk ::
  "nat \<Rightarrow> nat \<Rightarrow> (nat \<Rightarrow> u8) \<Rightarrow> nat \<Rightarrow> int \<Rightarrow> 'a ftst_scheme \<Rightarrow> ('a ftst_scheme, int) res" where
  "filewrite_chunk f ip addr i n1 s =
     rbind (begin_op s) (\<lambda>_ s.
     rbind (ilock (Some ip) s) (\<lambda>_ s.
     rbind (writei ip (\<lambda>j. addr (i + j)) (f_off (ftable s ! f)) (word_of_int n1) s) (\<lambda>r s.
       let s = (if r > 0 then upd_file f (\<lambda>x. x\<lparr>f_off := f_off x + word_of_int r\<rparr>) s else s) in
       rbind (iunlock (Some ip) s) (\<lambda>_ s.
       rbind (end_op s) (\<lambda>_ s. Ok r s)))))"

function filewrite_loop ::
  "nat \<Rightarrow> nat \<Rightarrow> (nat \<Rightarrow> u8) \<Rightarrow> int \<Rightarrow> int \<Rightarrow> 'a ftst_scheme \<Rightarrow> ('a ftst_scheme, int) res" where
  "filewrite_loop f ip addr i n s =
     (if i < n then
        let n1 = (if n - i > write_max then write_max else n - i) in
        rbind (filewrite_chunk f ip addr (nat i) n1 s) (\<lambda>r s.
          if r < 0 then Ok i s
          else if r \<noteq> n1 then Panic ''short filewrite''
          else filewrite_loop f ip addr (i + n1) n s)
      else Ok i s)"
  by pat_completeness auto
termination
  by (relation "measure (\<lambda>(f, ip, addr, i, n, s). nat (n - i))") (auto simp: write_max_def MAXOPBLOCKS_def)

definition filewrite :: "nat \<Rightarrow> (nat \<Rightarrow> u8) \<Rightarrow> int \<Rightarrow> 'a ftst_scheme \<Rightarrow> ('a ftst_scheme, int) res" where
  "filewrite f addr n s =
     (let x = ftable s ! f in
      if \<not> f_writable x then Ok (-1) s
      else case f_type x of
          FD_PIPE \<Rightarrow> pipewrite (f_pipe x) addr n s
        | FD_INODE \<Rightarrow>
            rbind (case f_ip x of
                     None \<Rightarrow> if n > 0 then Panic ''ilock'' else Ok 0 s
                   | Some ip \<Rightarrow> filewrite_loop f ip addr 0 n s) (\<lambda>i s.
              Ok (if i = n then n else -1) s)
        | FD_NONE \<Rightarrow> Panic ''filewrite'')"

section \<open>Creating a pipe\<close>

text \<open>The code after the label \<^verbatim>\<open>bad\<close>.\<close>

definition close_opt :: "nat option \<Rightarrow> 'a ftst_scheme \<Rightarrow> ('a ftst_scheme, unit) res" where
  "close_opt q s = (case q of None \<Rightarrow> Ok () s | Some f \<Rightarrow> fileclose f s)"

definition pipealloc_bad ::
  "u32 \<Rightarrow> nat option \<Rightarrow> nat option \<Rightarrow> 'a ftst_scheme \<Rightarrow> ('a ftst_scheme, (nat \<times> nat) option) res" where
  "pipealloc_bad p f0 f1 s =
     rbind (if p \<noteq> 0 then kfree p s else Ok () s) (\<lambda>_ s.
     rbind (close_opt f0 s) (\<lambda>_ s.
     rbind (close_opt f1 s) (\<lambda>_ s. Ok None s)))"

definition pipealloc :: "'a ftst_scheme \<Rightarrow> ('a ftst_scheme, (nat \<times> nat) option) res" where
  "pipealloc s =
     rbind (filealloc s) (\<lambda>f0 s.
       case f0 of None \<Rightarrow> pipealloc_bad 0 None None s
       | Some a \<Rightarrow>
         rbind (filealloc s) (\<lambda>f1 s.
           case f1 of None \<Rightarrow> pipealloc_bad 0 f0 None s
           | Some b \<Rightarrow>
             rbind (kalloc s) (\<lambda>p s.
               if p = 0 then pipealloc_bad 0 f0 f1 s
               else let s = upd_pipe p (\<lambda>q. q\<lparr>pp_readopen := True, pp_writeopen := True, pp_nwrite := 0, pp_nread := 0\<rparr>) s;
                        s = upd_file a (\<lambda>x. x\<lparr>f_type := FD_PIPE, f_readable := True, f_writable := False, f_pipe := p\<rparr>) s;
                        s = upd_file b (\<lambda>x. x\<lparr>f_type := FD_PIPE, f_readable := False, f_writable := True, f_pipe := p\<rparr>) s
                    in Ok (Some (a, b)) s)))"

end
