(* ===== verification/Lazy.thy ===== *)
theory Lazy
  imports Vm
begin

text \<open>
  Lazy allocation of user memory: \<^verbatim>\<open>growproc\<close> (\<^verbatim>\<open>proc.c\<close>), which only moves the process
  size, and \<^verbatim>\<open>handle_lazy_allocation\<close> (\<^verbatim>\<open>trap.c\<close>), which maps a page when the process touches
  it. The messages that the handler prints are not modelled.
\<close>

section \<open>Operations\<close>

definition growproc :: "int \<Rightarrow> 'a kmem_scheme \<Rightarrow> ('a kmem_scheme, int) res" where
  "growproc n s =
     rbind (myproc s) (\<lambda>p s.
       case p of None \<Rightarrow> Panic ''nullptr''
       | Some i \<Rightarrow>
         let p = procs s ! i; sz = p_sz p in
         rbind (if n > 0 then allocuvm (p_pgdir p) sz (sz + of_int n) s
                else if n < 0 then deallocuvm (p_pgdir p) sz (sz + of_int n) s
                else Ok sz s) (\<lambda>sz s.
           if n \<noteq> 0 \<and> sz = 0 then Ok (-1) s
           else rbind (switchuvm (Some i) (upd_proc i (\<lambda>p. p\<lparr>p_sz := sz\<rparr>) s)) (\<lambda>_ s. Ok 0 s)))"

definition handle_lazy_allocation ::
  "proc \<Rightarrow> u32 \<Rightarrow> 'a kmem_scheme \<Rightarrow> ('a kmem_scheme, int) res" where
  "handle_lazy_allocation p faultaddr s =
     (let pgdir = p_pgdir p; a = PGROUNDDOWN faultaddr in
      if faultaddr \<ge> p_sz p then Ok (-1) s
      else if faultaddr < PGSIZE then Ok (-1) s
      else rbind (kalloc s) (\<lambda>m s.
        if m = 0 then Ok (-1) s
        else let s = fill_page m 0 s in
          rbind (mappages pgdir a PGSIZE (V2P m) (PTE_W OR PTE_U) s) (\<lambda>r s.
            if r < 0 then rbind (kfree m s) (\<lambda>_ s. Ok (-1) s)
            else Ok 0 s)))"

section \<open>Mapping one fresh page\<close>

lemma vpn_one_page:
  "vpn (PGROUNDDOWN a + PGSIZE - 1) = vpn a" "PGROUNDDOWN a \<le> PGROUNDDOWN a + PGSIZE - 1"
proof -
  have "vpn a * 4096 + 4095 < 2 ^ 32" using vpn_less [of a] by simp
  then have u: "unat (PGROUNDDOWN a + 4095) = vpn a * 4096 + 4095"
    by (simp add: unat_word_ariths unat_PGROUNDDOWN)
  have e: "PGROUNDDOWN a + PGSIZE - 1 = PGROUNDDOWN a + 4095" by (simp add: PGSIZE_def)
  show "vpn (PGROUNDDOWN a + PGSIZE - 1) = vpn a"
    unfolding e by (simp add: vpn_def [of "PGROUNDDOWN a + 4095"] u)
  show "PGROUNDDOWN a \<le> PGROUNDDOWN a + PGSIZE - 1"
    unfolding e by (simp add: word_le_nat_alt u unat_PGROUNDDOWN)
qed

lemma pte_at_cong: "vpn a = vpn b \<Longrightarrow> pte_at s pgdir a = pte_at s pgdir b"
  using vpn_eq_iff [of a b] by (simp add: pte_at_def)

lemma mappages_page:
  assumes "vm_wf s pgdir xs" and "pte_at s pgdir va AND PTE_P = 0"
  shows "\<exists>r t ys. mappages pgdir (PGROUNDDOWN va) PGSIZE pa perm s = Ok r t \<and> vm_wf t pgdir ys
    \<and> (r = 0 \<or> r = -1 \<and> ys = [])
    \<and> (\<forall>w. vpn w \<noteq> vpn va \<longrightarrow> pte_at t pgdir w = pte_at s pgdir w)
    \<and> (r = 0 \<longrightarrow> (\<forall>w. vpn w = vpn va \<longrightarrow> pte_at t pgdir w = pa OR perm OR PTE_P))
    \<and> vm_pages t pgdir \<union> set ys = vm_pages s pgdir \<union> set xs
    \<and> (\<forall>w. w \<notin> vm_pages s pgdir \<union> set xs \<longrightarrow> mem t w = mem s w)"
proof -
  let ?a = "PGROUNDDOWN va" and ?b = "PGROUNDDOWN va + PGSIZE - 1"
  have one: "vpn ?a \<le> vpn w \<and> vpn w \<le> vpn ?b \<longleftrightarrow> vpn w = vpn va" for w
    by (auto simp: vpn_one_page)
  have "pte_at s pgdir w AND PTE_P = 0" if "vpn w = vpn va" for w
    using assms(2) by (simp add: pte_at_cong [OF that])
  then have free: "\<And>w. vpn ?a \<le> vpn w \<Longrightarrow> vpn w \<le> vpn ?b \<Longrightarrow> pte_at s pgdir w AND PTE_P = 0"
    using one by blast
  have "pa + of_nat (vpn w - vpn ?a) * PGSIZE = pa" if "vpn w = vpn va" for w
    using that by simp
  with mappages_spec [of s pgdir xs ?a PGSIZE pa perm, OF assms(1) vpn_one_page(2) free]
  show ?thesis unfolding one by metis
qed

lemma vm_wf_take_page:
  assumes "vm_wf s pgdir (m # xs)" and "m \<notin> vm_pages s pgdir"
  defines "t \<equiv> fill_page m 0 (s\<lparr>freelist := load4 0 (mem s m)\<rparr>)"
  shows "vm_wf t pgdir xs" and "pte_at t pgdir va = pte_at s pgdir va"
    and "vm_pages t pgdir = vm_pages s pgdir"
proof -
  have same: "mem t w = mem s w" if "w \<in> vm_pages s pgdir" for w
    using that assms(2) by (auto simp: t_def fill_page_def)
  note f = vm_frame [OF same]
  show "pte_at t pgdir va = pte_at s pgdir va" "vm_pages t pgdir = vm_pages s pgdir"
    by (simp_all add: f)
  have "free_pages t xs" unfolding t_def
    using assms(1) kalloc_free_pages_Cons(2) [of s m xs]
    by (intro free_pages_fill) (auto simp: vm_wf_def free_pages_def)
  then show "vm_wf t pgdir xs" using assms(1) by (auto simp: vm_wf_def f)
qed

lemma vm_wf_kalloc:
  assumes "vm_wf s pgdir (m # xs)"
  shows "kalloc s = Ok m (s\<lparr>freelist := load4 0 (mem s m)\<rparr>)" and "m \<noteq> 0"
proof -
  from assms have "free_pages s (m # xs)" by (simp add: vm_wf_def)
  then show "kalloc s = Ok m (s\<lparr>freelist := load4 0 (mem s m)\<rparr>)" "m \<noteq> 0"
    by (rule kalloc_free_pages_Cons, simp add: free_pages_def)
qed

lemma vm_pages_free:
  assumes "vm_wf s pgdir xs" and "x \<in> set xs"
  shows "x \<notin> vm_pages s pgdir"
  using assms by (auto simp: vm_wf_def vm_pages_def)

section \<open>Page faults\<close>

lemma in_range: "PGSIZE \<le> fa \<Longrightarrow> fa < sz \<Longrightarrow> \<not> fa < PGSIZE \<and> \<not> sz \<le> fa"
  by auto

lemma V2P_page:
  assumes "kpage s m"
  shows "take_bit 12 (V2P m) = 0" "P2V (V2P m) = m"
  using kpage_aligned [OF assms] by (simp_all add: take_bit_V2P P2V_V2P)

lemma user_perm: "(PTE_W OR PTE_U) AND NOT (mask 12) = 0" "(PTE_W OR PTE_U) AND PTE_U \<noteq> 0"
  by (simp_all add: PTE_W_def PTE_U_def mask_eq_exp_minus_1)

lemma kfree_vm_wf:
  assumes "vm_wf s pgdir xs" and "kpage s m" and "m \<notin> set xs" and "m \<notin> vm_pages s pgdir"
  shows "\<exists>t. kfree m s = Ok () t \<and> vm_wf t pgdir (m # xs) \<and> (\<forall>w. pte_at t pgdir w = pte_at s pgdir w)"
proof -
  let ?t = "s\<lparr>mem := (mem s)(m := store4 0 (freelist s) (\<lambda>_. 1)), freelist := m\<rparr>"
  have eq: "kfree m s = Ok () ?t"
    using assms by (intro kfree_page) (simp_all add: vm_wf_def free_pages_def)
  have same: "mem ?t w = mem s w" if "w \<in> vm_pages s pgdir" for w
    using that assms(4) by auto
  note f = vm_frame [OF same]
  obtain t' where "kfree m s = Ok () t'" "free_pages t' (m # xs)"
    using kfree_free_pages [of s xs m] assms by (auto simp: vm_wf_def)
  with eq have "free_pages ?t (m # xs)" by simp
  moreover have "pt_page s pgdir i \<noteq> m" if "i < 1024" "pd_present s pgdir i" for i
    using that assms(4) by (auto simp: vm_pages_def)
  moreover have "m \<noteq> pgdir" using assms(4) by (auto simp: vm_pages_def)
  ultimately have "vm_wf ?t pgdir (m # xs)" using assms(1) by (auto simp: vm_wf_def f)
  then show ?thesis using eq f(4) by blast
qed

lemma map_fresh_page:
  assumes wf: "vm_wf s pgdir (m # xs)" and free: "pte_at s pgdir fa AND PTE_P = 0"
  defines "u \<equiv> fill_page m 0 (s\<lparr>freelist := load4 0 (mem s m)\<rparr>)"
  shows "\<exists>r t ys. mappages pgdir (PGROUNDDOWN fa) PGSIZE (V2P m) (PTE_W OR PTE_U) u = Ok r t
    \<and> vm_wf t pgdir ys \<and> m \<notin> vm_pages t pgdir \<union> set ys \<and> mem t m = (\<lambda>_. 0) \<and> kpage t m
    \<and> (r = 0 \<and> (\<forall>w. vpn w = vpn fa \<longrightarrow> uva2ka pgdir w t = Ok m t) \<or> r = -1 \<and> ys = [])
    \<and> (\<forall>w. vpn w \<noteq> vpn fa \<longrightarrow> pte_at t pgdir w = pte_at s pgdir w)"
proof -
  have m: "m \<notin> vm_pages s pgdir" "m \<notin> set xs" "kpage s m"
    using wf vm_pages_free [OF wf] by (auto simp: vm_wf_def free_pages_def)
  note take = vm_wf_take_page [OF wf m(1), folded u_def]
  have kp: "kpage u m" using m(3) by (simp add: u_def fill_page_def)
  have "pte_at u pgdir fa AND PTE_P = 0" using free take(2) by simp
  from mappages_page [OF take(1) this, of "V2P m" "PTE_W OR PTE_U"]
  obtain r t ys where t: "mappages pgdir (PGROUNDDOWN fa) PGSIZE (V2P m) (PTE_W OR PTE_U) u = Ok r t"
    "vm_wf t pgdir ys" "r = 0 \<or> r = -1 \<and> ys = []"
    "\<And>w. vpn w \<noteq> vpn fa \<Longrightarrow> pte_at t pgdir w = pte_at u pgdir w"
    "\<And>w. r = 0 \<Longrightarrow> vpn w = vpn fa \<Longrightarrow> pte_at t pgdir w = V2P m OR (PTE_W OR PTE_U) OR PTE_P"
    "vm_pages t pgdir \<union> set ys = vm_pages s pgdir \<union> set xs" "mem t m = mem u m"
    using m take(3) by auto
  have "L_kmem \<notin> set (held u)" using take(1) by (simp add: vm_wf_def free_pages_def)
  then have "mem_only u t" using mappages_mem_only t(1) by blast
  then have "kpage t m" using kp by (simp add: mem_only_simps(8))
  moreover have "uva2ka pgdir w t = Ok m t" if "r = 0" "vpn w = vpn fa" for w
    using uva2ka_mapped [OF t(5) [OF that] V2P_page(1) [OF m(3)] user_perm]
    by (simp add: V2P_page(2) [OF m(3)])
  moreover have "mem t m = (\<lambda>_. 0)" using t(7) by (simp add: u_def fill_page_def)
  ultimately show ?thesis
    using t(1-4,6) m take(2) by (intro exI [of _ r] exI [of _ t] exI [of _ ys]) auto
qed



text \<open>
  C20. A fault on a page that is already mapped, such as the guard page whose user bit
  \<^verbatim>\<open>exec\<close> clears, is not refused: it reaches \<^verbatim>\<open>mappages\<close> and panics the kernel.
\<close>

theorem lazy_fault_on_mapped_page:
  assumes "vm_wf s (p_pgdir p) (x # xs)" and "PGSIZE \<le> fa" and "fa < p_sz p"
    and "pte_at s (p_pgdir p) fa AND PTE_P \<noteq> 0"
  shows "handle_lazy_allocation p fa s = Panic ''remap''"
proof -
  let ?u = "fill_page x 0 (s\<lparr>freelist := load4 0 (mem s x)\<rparr>)"
  note k = vm_wf_kalloc [OF assms(1)]
  have x: "x \<notin> vm_pages s (p_pgdir p)" using vm_pages_free [OF assms(1)] by simp
  note take = vm_wf_take_page [OF assms(1) x]
  have "pte_at ?u (p_pgdir p) (PGROUNDDOWN fa) AND PTE_P \<noteq> 0"
    using assms(4) take(2) pte_at_cong [of "PGROUNDDOWN fa" fa s "p_pgdir p"] by simp
  moreover from this have "pd_present ?u (p_pgdir p) (PDX (PGROUNDDOWN fa))"
    by (auto simp: pte_at_def split: if_splits)
  ultimately have "mappages (p_pgdir p) (PGROUNDDOWN fa) PGSIZE (V2P x) (PTE_W OR PTE_U) ?u
      = Panic ''remap''"
    by (intro mappages_remap)
  with in_range [OF assms(2,3)] k show ?thesis
    by (simp add: handle_lazy_allocation_def Let_def)
qed

definition guard_state :: kmem where
  "guard_state = set_pte (0x80402000, 5) (0x600000 OR PTE_W OR PTE_P)
     (add_table 0x8DF01000 0 0x80402000 kmem3)"

theorem lazy_fault_on_mapped_page_witness:
  "handle_lazy_allocation ((user_proc 1 RUNNING 3)\<lparr>p_sz := 0x8000\<rparr>) 0x5004 guard_state
    = Panic ''remap''"
proof -
  let ?d = "0x8DF01000 :: u32" and ?x = "0x80402000 :: u32" and ?v = "0x600000 OR PTE_W OR PTE_P"
  have "mem kmem3 ?d = (\<lambda>_. 0)" by (simp add: kmem3_def ptab.defs)
  then have wf0: "vm_wf kmem3 ?d [?x, 0x80401000, 0x80400000]" and "\<not> pd_present kmem3 ?d 0"
    using vm_wf_empty [OF kmem3_free, of ?d]
    by (simp_all add: pd_present_def get_pte_def load32_def load4_def)
  note at = add_table_props [OF wf0 _ this(2), simplified]
  note sp = set_pte_props [OF at(1) _ at(2), where j = 5 and v = ?v, unfolded at(3), simplified,
      folded guard_state_def]
  have "PDX 0x5004 = 0" "PTX 0x5004 = 5" by (simp_all add: PDX_eq PTX_eq vpn_def)
  then have "pte_at guard_state ?d 0x5004 = ?v" by (simp add: sp(4))
  moreover have "?v AND PTE_P \<noteq> 0" using present_or [of "0x600000 OR PTE_W"] by (simp add: or.assoc)
  moreover have "p_pgdir ((user_proc 1 RUNNING 3)\<lparr>p_sz := 0x8000\<rparr>) = ?d" by (simp add: user_proc_def)
  ultimately show ?thesis
    using lazy_fault_on_mapped_page [of guard_state "(user_proc 1 RUNNING 3)\<lparr>p_sz := 0x8000\<rparr>"
        "0x80401000" "[0x80400000]" "0x5004"] sp(1)
    by (simp add: PGSIZE_def)
qed

text \<open>
  Growing the heap is lazy: past the first ten pages, or by more than two pages at once,
  \<^verbatim>\<open>sbrk\<close> below the kernel's half of the address space allocates no page and touches no page
  table; the process size is all that moves.
\<close>

theorem growproc_lazy:
  assumes "on_cpu c s" and "c_proc (cpus s ! c) = Some i" and "i < length (procs s)"
    and "p_sz (procs s ! i) = sz" and "p_kstack (procs s ! i) \<noteq> 0" and "p_pgdir (procs s ! i) \<noteq> 0"
    and "0 < n" and "uint sz + n < 0x80000000" and "sz \<ge> 10 * PGSIZE \<or> n > 2 * 4096"
  shows "\<exists>t. growproc n s = Ok 0 t \<and> mem t = mem s \<and> freelist t = freelist s
    \<and> procs t = (procs s)[i := (procs s ! i)\<lparr>p_sz := sz + of_int n\<rparr>]"
proof -
  have "0 \<le> n" "n < 4294967296" using assms(7,8) uint_ge_0 [of sz] by linarith+
  then have n: "uint (of_int n :: u32) = n" by (simp add: uint_word_of_int)
  then have sum: "uint (sz + of_int n) = uint sz + n"
    using assms(8) assms(7) uint_ge_0 [of sz] by (simp add: uint_word_ariths)
  have pos: "uint sz + n > 0" using assms(7) uint_ge_0 [of sz] by linarith
  have lt: "\<not> sz + of_int n \<ge> KERNBASE" "\<not> sz + of_int n < sz" "sz + of_int n \<noteq> 0"
    using assms(7,8) sum pos
    by (auto simp: word_le_def word_less_def KERNBASE_def word_uint_eq_iff)
  have big: "\<not> (sz > 0 \<and> sz + of_int n - sz \<le> 2 * PGSIZE \<and> sz < 10 * PGSIZE)"
    using assms(9) n by (auto simp: word_le_def word_less_def PGSIZE_def)
  have a: "allocuvm (p_pgdir (procs s ! i)) sz (sz + of_int n) s = Ok (sz + of_int n) s"
    unfolding allocuvm_def Let_def using lt big by (simp only: if_False)
  let ?s = "upd_proc i (\<lambda>p. p\<lparr>p_sz := sz + of_int n\<rparr>) s"
  obtain f where "switchuvm (Some i) ?s = Ok () (upd_cpu c f ?s)"
    using switchuvm_on [of c ?s i] assms by auto
  then have "growproc n s = Ok 0 (upd_cpu c f ?s)"
    using assms a lt(3) by (simp add: growproc_def Let_def)
  then show ?thesis by (simp add: upd_cpu_def upd_proc_def)
qed

theorem growproc_lazy_witness:
  "\<exists>t. growproc 20000 (kmem3\<lparr>procs := [(user_proc 1 RUNNING 3)\<lparr>p_sz := 0x4000\<rparr>]\<rparr>) = Ok 0 t
    \<and> p_sz (procs t ! 0) = 36384 \<and> freelist t = freelist kmem3"
  using growproc_lazy [of 0 "kmem3\<lparr>procs := [(user_proc 1 RUNNING 3)\<lparr>p_sz := 0x4000\<rparr>]\<rparr>" 0 "0x4000" 20000]
  by (fastforce simp: kmem3_def tab_of_def ptab.defs on_cpu_def user_proc_def)

end
