(* ===== verification/Proc.thy ===== *)
theory Proc
  imports File Lazy
begin

text \<open>
  The life of a process, \<^verbatim>\<open>proc.c\<close>: \<^verbatim>\<open>allocproc\<close>, \<^verbatim>\<open>userinit\<close>, \<^verbatim>\<open>fork\<close>, \<^verbatim>\<open>exit\<close>, \<^verbatim>\<open>wait\<close> and
  \<^verbatim>\<open>forkret\<close>. The state gains the static flag of \<^verbatim>\<open>forkret\<close> and the clock \<^verbatim>\<open>ticks\<close> of \<^verbatim>\<open>trap.c\<close>.
  The trap frame of a process is the field \<open>p_tf\<close> of its table entry and its address on the
  kernel stack is \<open>p_tfp\<close>.
\<close>

section \<open>State\<close>

record kst = ftst +
  forkret_first :: bool
  ticks :: u32

definition FL_IF :: u32 where "FL_IF = 0x200"
definition SEG_UCODE :: u16 where "SEG_UCODE = 3"
definition SEG_UDATA :: u16 where "SEG_UDATA = 4"
definition DPL_USER :: u16 where "DPL_USER = 3"

text \<open>The sizes of \<^verbatim>\<open>struct trapframe\<close> and \<^verbatim>\<open>struct context\<close>; \<^verbatim>\<open>eip\<close> is the last word of a context.\<close>

definition TF_SIZE :: nat where "TF_SIZE = 76"
definition CONTEXT_SIZE :: nat where "CONTEXT_SIZE = 20"

section \<open>A new process\<close>

text \<open>The layout of a fresh kernel stack, from its top: the trap frame, \<^verbatim>\<open>trapret\<close>, the context.\<close>

definition stack_init :: "nat \<Rightarrow> u32 \<Rightarrow> 'a kmem_scheme \<Rightarrow> 'a kmem_scheme" where
  "stack_init i k s =
     (let sp = 4096 - TF_SIZE;
          s = upd_proc i (\<lambda>p. p\<lparr>p_tfp := k + of_nat sp\<rparr>) s;
          sp = sp - 4;
          s = store32 k sp (trapret s) s;
          sp = sp - CONTEXT_SIZE;
          s = upd_proc i (\<lambda>p. p\<lparr>p_context := k + of_nat sp\<rparr>) s;
          s = write_bytes k sp (replicate CONTEXT_SIZE 0) s
      in store32 k (sp + 16) (forkret_addr s) s)"

definition allocproc :: "'a kmem_scheme \<Rightarrow> ('a kmem_scheme, nat option) res" where
  "allocproc s =
     rbind (acquire L_ptable s) (\<lambda>_ s.
       case first_index (\<lambda>p. p_state p = UNUSED) (procs s) of
         None \<Rightarrow> rbind (release L_ptable s) (\<lambda>_ s. Ok None s)
       | Some i \<Rightarrow>
           let pid = nextpid s;
               s = upd_proc i (\<lambda>p. p\<lparr>p_state := EMBRYO, p_pid := pid, p_priority := 3,
                                     p_ticks_waiting := 0\<rparr>) (s\<lparr>nextpid := pid + 1\<rparr>)
           in rbind (release L_ptable s) (\<lambda>_ s.
              rbind (kalloc s) (\<lambda>k s.
                let s = upd_proc i (\<lambda>p. p\<lparr>p_kstack := k\<rparr>) s in
                if k = 0 then Ok None (upd_proc i (\<lambda>p. p\<lparr>p_state := UNUSED\<rparr>) s)
                else Ok (Some i) (stack_init i k s))))"

text \<open>\<^verbatim>\<open>safestrcpy(p->name, t, sizeof(p->name))\<close> leaves the bytes after the terminator as they were.\<close>

definition set_name :: "u8 list \<Rightarrow> proc \<Rightarrow> proc" where
  "set_name t p = (let c = safestrcpy_list 16 t in p\<lparr>p_name := c @ drop (length c) (p_name p)\<rparr>)"

definition make_runnable :: "nat \<Rightarrow> 'a ptab_scheme \<Rightarrow> ('a ptab_scheme, unit) res" where
  "make_runnable i s =
     rbind (acquire L_ptable s) (\<lambda>_ s.
       release L_ptable (upd_proc i (\<lambda>p. p\<lparr>p_state := RUNNABLE\<rparr>) s))"

text \<open>\<open>initcode\<close> is the image of \<^verbatim>\<open>initcode.S\<close> that the linker embeds in the kernel.\<close>

definition user_tf :: trapframe where
  "user_tf = (let ds = push_bit 3 SEG_UDATA OR DPL_USER in
     tf_zero\<lparr>tf_cs := push_bit 3 SEG_UCODE OR DPL_USER, tf_ds := ds, tf_es := ds, tf_ss := ds,
             tf_eflags := FL_IF, tf_esp := PGSIZE, tf_eip := 0\<rparr>)"

definition userinit :: "u8 list \<Rightarrow> 'a kst_scheme \<Rightarrow> ('a kst_scheme, unit) res" where
  "userinit initcode s =
     rbind (allocproc s) (\<lambda>p s.
       let s = s\<lparr>initproc := p\<rparr> in
       case p of None \<Rightarrow> Panic ''nullptr''
       | Some i \<Rightarrow>
         rbind (setupkvm s) (\<lambda>d s.
           let s = upd_proc i (\<lambda>p. p\<lparr>p_pgdir := d\<rparr>) s in
           if d = 0 then Panic ''userinit: out of memory?''
           else rbind (inituvm d initcode s) (\<lambda>_ s.
             let s = upd_proc i (\<lambda>p. set_name (asc ''initcode'') (p\<lparr>p_sz := PGSIZE, p_tf := user_tf\<rparr>)) s in
             rbind (namei (asc ''/'') s) (\<lambda>ip s.
               make_runnable i (upd_proc i (\<lambda>p. p\<lparr>p_cwd := ip\<rparr>) s)))))"

section \<open>fork\<close>

primrec fork_files :: "nat list \<Rightarrow> nat \<Rightarrow> nat \<Rightarrow> 'a ftst_scheme \<Rightarrow> ('a ftst_scheme, unit) res" where
  "fork_files [] np i s = Ok () s"
| "fork_files (fd # fds) np i s =
     (case p_ofile (procs s ! i) ! fd of
        None \<Rightarrow> fork_files fds np i s
      | Some f \<Rightarrow> rbind (filedup f s) (\<lambda>f s.
          fork_files fds np i (upd_proc np (\<lambda>p. p\<lparr>p_ofile := (p_ofile p)[fd := Some f]\<rparr>) s)))"

definition fork :: "'a kst_scheme \<Rightarrow> ('a kst_scheme, int) res" where
  "fork s =
     rbind (myproc s) (\<lambda>cur s.
     rbind (allocproc s) (\<lambda>np s.
       case np of None \<Rightarrow> Ok (-1) s
       | Some np \<Rightarrow>
         (case cur of None \<Rightarrow> Panic ''nullptr''
          | Some i \<Rightarrow>
            rbind (copyuvm (p_pgdir (procs s ! i)) (p_sz (procs s ! i)) s) (\<lambda>d s.
              let s = upd_proc np (\<lambda>p. p\<lparr>p_pgdir := d\<rparr>) s in
              if d = 0 then
                rbind (kfree (p_kstack (procs s ! np)) s) (\<lambda>_ s.
                  Ok (-1) (upd_proc np (\<lambda>p. p\<lparr>p_kstack := 0, p_state := UNUSED\<rparr>) s))
              else
                let cp = procs s ! i;
                    s = upd_proc np (\<lambda>p. p\<lparr>p_sz := p_sz cp, p_parent := Some i,
                          p_tf := (p_tf cp)\<lparr>tf_eax := 0\<rparr>, p_priority := p_priority cp\<rparr>) s in
                rbind (fork_files [0..<NOFILE] np i s) (\<lambda>_ s.
                  case p_cwd (procs s ! i) of None \<Rightarrow> Panic ''nullptr''
                  | Some wd \<Rightarrow>
                    rbind (idup wd s) (\<lambda>wd s.
                      let s = upd_proc np (\<lambda>p. set_name (p_name (procs s ! i)) (p\<lparr>p_cwd := Some wd\<rparr>)) s;
                          pid = p_pid (procs s ! np) in
                      rbind (make_runnable np s) (\<lambda>_ s. Ok pid s)))))))"

section \<open>exit\<close>

primrec exit_files :: "nat list \<Rightarrow> nat \<Rightarrow> 'a ftst_scheme \<Rightarrow> ('a ftst_scheme, unit) res" where
  "exit_files [] i s = Ok () s"
| "exit_files (fd # fds) i s =
     (case p_ofile (procs s ! i) ! fd of
        None \<Rightarrow> exit_files fds i s
      | Some f \<Rightarrow> rbind (fileclose f s) (\<lambda>_ s.
          exit_files fds i (upd_proc i (\<lambda>p. p\<lparr>p_ofile := (p_ofile p)[fd := None]\<rparr>) s)))"

definition abandon :: "nat \<Rightarrow> nat \<Rightarrow> 'a ptab_scheme \<Rightarrow> 'a ptab_scheme" where
  "abandon i j s =
     (if p_parent (procs s ! j) = Some i then
        let s = upd_proc j (\<lambda>p. p\<lparr>p_parent := initproc s\<rparr>) s in
        if p_state (procs s ! j) = ZOMBIE then wakeup1 (map_option Ch_proc (initproc s)) s else s
      else s)"

definition exit_zombie :: "nat \<Rightarrow> 'a ptab_scheme \<Rightarrow> ('a ptab_scheme, unit) res" where
  "exit_zombie i s =
     rbind (acquire L_ptable s) (\<lambda>_ s.
       let s = wakeup1 (map_option Ch_proc (p_parent (procs s ! i))) s;
           s = fold (abandon i) [0..<length (procs s)] s;
           s = upd_proc i (\<lambda>p. p\<lparr>p_state := ZOMBIE\<rparr>) s in
       rbind (sched s) (\<lambda>_ _. Panic ''zombie exit''))"

definition exit :: "'a ftst_scheme \<Rightarrow> ('a ftst_scheme, unit) res" where
  "exit s =
     rbind (myproc s) (\<lambda>cur s.
       if cur = initproc s then Panic ''init exiting''
       else case cur of None \<Rightarrow> Panic ''nullptr''
       | Some i \<Rightarrow>
         rbind (exit_files [0..<NOFILE] i s) (\<lambda>_ s.
         rbind (begin_op s) (\<lambda>_ s.
         rbind (case p_cwd (procs s ! i) of None \<Rightarrow> Panic ''nullptr'' | Some wd \<Rightarrow> iput wd s) (\<lambda>_ s.
         rbind (end_op s) (\<lambda>_ s.
           exit_zombie i (upd_proc i (\<lambda>p. p\<lparr>p_cwd := None\<rparr>) s))))))"

section \<open>wait\<close>

definition wait_reap :: "nat \<Rightarrow> 'a kmem_scheme \<Rightarrow> ('a kmem_scheme, int) res" where
  "wait_reap j s =
     (let pid = p_pid (procs s ! j) in
      rbind (kfree (p_kstack (procs s ! j)) s) (\<lambda>_ s.
        let s = upd_proc j (\<lambda>p. p\<lparr>p_kstack := 0\<rparr>) s in
      rbind (freevm (p_pgdir (procs s ! j)) s) (\<lambda>_ s.
        let s = upd_proc j (\<lambda>p. p\<lparr>p_pid := 0, p_parent := None, p_name := (p_name p)[0 := 0],
                                  p_killed := False, p_state := UNUSED\<rparr>) s in
      rbind (release L_ptable s) (\<lambda>_ s. Ok pid s))))"

definition wait_scan :: "nat \<Rightarrow> 'a kmem_scheme \<Rightarrow> ('a kmem_scheme, int + unit) res" where
  "wait_scan i s =
     (case first_index (\<lambda>p. p_parent p = Some i \<and> p_state p = ZOMBIE) (procs s) of
        Some j \<Rightarrow> rbind (wait_reap j s) (\<lambda>pid s. Ok (Inl pid) s)
      | None \<Rightarrow>
          if \<not> list_ex (\<lambda>p. p_parent p = Some i) (procs s) \<or> p_killed (procs s ! i)
          then rbind (release L_ptable s) (\<lambda>_ s. Ok (Inl (-1)) s)
          else rbind (sleep (Ch_proc i) (Some L_ptable) s) (\<lambda>_ s. Ok (Inr ()) s))"

definition wait :: "'a kmem_scheme \<Rightarrow> ('a kmem_scheme, int) res" where
  "wait s =
     rbind (myproc s) (\<lambda>cur s.
     rbind (acquire L_ptable s) (\<lambda>_ s.
       case cur of None \<Rightarrow> Panic ''nullptr'' | Some i \<Rightarrow> sleep_loop (wait_scan i) s))"

section \<open>The first return to user space\<close>

definition forkret :: "'a kst_scheme \<Rightarrow> ('a kst_scheme, unit) res" where
  "forkret s =
     rbind (release L_ptable s) (\<lambda>_ s.
       if forkret_first s then
         rbind (iinit ROOTDEV (s\<lparr>forkret_first := False\<rparr>)) (\<lambda>_ s. initlog ROOTDEV s)
       else Ok () s)"

end
