(* ===== verification/Exec.thy ===== *)
theory Exec
  imports Proc
begin

text \<open>
  \<^verbatim>\<open>exec.c\<close>, the ELF structures of \<^verbatim>\<open>elf.h\<close> and \<^verbatim>\<open>loaduvm\<close> of \<^verbatim>\<open>vm.c\<close>. The path and the
  argument strings are given as the bytes before their terminator, and \<^verbatim>\<open>argv\<close> as the list of the
  strings before its null pointer.
\<close>

section \<open>ELF headers\<close>

definition ELF_MAGIC :: u32 where "ELF_MAGIC = 0x464C457F"
definition ELF_PROG_LOAD :: u32 where "ELF_PROG_LOAD = 1"
definition ELFHDR_SIZE :: nat where "ELFHDR_SIZE = 52"
definition PROGHDR_SIZE :: nat where "PROGHDR_SIZE = 32"
definition MAXARG :: nat where "MAXARG = 32"

record elfhdr =
  eh_magic :: u32
  eh_elf :: "u8 list"
  eh_type :: u16
  eh_machine :: u16
  eh_version :: u32
  eh_entry :: u32
  eh_phoff :: u32
  eh_shoff :: u32
  eh_flags :: u32
  eh_ehsize :: u16
  eh_phentsize :: u16
  eh_phnum :: u16
  eh_shentsize :: u16
  eh_shnum :: u16
  eh_shstrndx :: u16

definition get_elfhdr :: "u8 list \<Rightarrow> elfhdr" where
  "get_elfhdr xs = \<lparr>eh_magic = get32 xs 0, eh_elf = take 12 (drop 4 xs), eh_type = get16 xs 16,
     eh_machine = get16 xs 18, eh_version = get32 xs 20, eh_entry = get32 xs 24, eh_phoff = get32 xs 28,
     eh_shoff = get32 xs 32, eh_flags = get32 xs 36, eh_ehsize = get16 xs 40, eh_phentsize = get16 xs 42,
     eh_phnum = get16 xs 44, eh_shentsize = get16 xs 46, eh_shnum = get16 xs 48, eh_shstrndx = get16 xs 50\<rparr>"

record proghdr =
  ph_type :: u32
  ph_off :: u32
  ph_vaddr :: u32
  ph_paddr :: u32
  ph_filesz :: u32
  ph_memsz :: u32
  ph_flags :: u32
  ph_align :: u32

definition get_proghdr :: "u8 list \<Rightarrow> proghdr" where
  "get_proghdr xs = \<lparr>ph_type = get32 xs 0, ph_off = get32 xs 4, ph_vaddr = get32 xs 8, ph_paddr = get32 xs 12,
     ph_filesz = get32 xs 16, ph_memsz = get32 xs 20, ph_flags = get32 xs 24, ph_align = get32 xs 28\<rparr>"

section \<open>Loading a segment\<close>

text \<open>\<^verbatim>\<open>exec\<close> has checked that the segment ends below \<^verbatim>\<open>KERNBASE\<close>, so \<^verbatim>\<open>i\<close> does not wrap around.\<close>

definition loaduvm_pte :: "u32 \<Rightarrow> u32 \<Rightarrow> 'a kmem_scheme \<Rightarrow> ('a kmem_scheme, ptep) res" where
  "loaduvm_pte pgdir a s =
     rbind (walkpgdir pgdir a False s) (\<lambda>pte s.
       case pte of Some p \<Rightarrow> Ok p s
       | None \<Rightarrow> rbind (walkpgdir pgdir a True s) (\<lambda>pte s.
           case pte of Some p \<Rightarrow> Ok p s | None \<Rightarrow> Panic ''loaduvm: walkpgdir failed''))"

text \<open>The page at \<open>a\<close> is present, or is allocated now; the result is its frame.\<close>

definition loaduvm_page :: "u32 \<Rightarrow> u32 \<Rightarrow> 'a consst_scheme \<Rightarrow> ('a consst_scheme, u32 option) res" where
  "loaduvm_page pgdir a s =
     rbind (loaduvm_pte pgdir a s) (\<lambda>pte s.
     rbind (if get_pte pte s AND PTE_P = 0 then
              rbind (kalloc s) (\<lambda>m s.
                if m = 0 then rbind (cprintf (''loaduvm: out of memory'' @ [CHR 0x0A]) [] s) (\<lambda>_ s. Ok False s)
                else let s = set_pte pte (V2P m OR PTE_P OR PTE_W OR PTE_U) (fill_page m 0 s) in
                  rbind (cprintf (''[LAZY-LOAD] P'' @ [CHR 0xC3, CHR 0xA1] @
                           ''gina asignada en loaduvm: addr=0x%x'' @ [CHR 0x0A]) [FInt a] s) (\<lambda>_ s. Ok True s))
            else Ok True s) (\<lambda>ok s.
       Ok (if ok then Some (PTE_ADDR (get_pte pte s)) else None) s))"

function loaduvm_loop ::
  "u32 \<Rightarrow> u32 \<Rightarrow> nat \<Rightarrow> u32 \<Rightarrow> nat \<Rightarrow> nat \<Rightarrow> 'a consst_scheme \<Rightarrow> ('a consst_scheme, int) res" where
  "loaduvm_loop pgdir addr ip offset sz i s =
     (if i < sz then
        rbind (loaduvm_page pgdir (addr + of_nat i) s) (\<lambda>pa s.
          case pa of None \<Rightarrow> Ok (-1) s
          | Some pa \<Rightarrow>
            let n = (if sz - i < 4096 then sz - i else 4096) in
            rbind (readi ip (offset + of_nat i) (of_nat n) s) (\<lambda>(r, bs) s.
              let s = write_bytes (P2V pa) 0 bs s in
              if r \<noteq> int n then Ok (-1) s
              else loaduvm_loop pgdir addr ip offset sz (i + 4096) s))
      else Ok 0 s)"
  by pat_completeness auto
termination
  by (relation "measure (\<lambda>(pgdir, addr, ip, offset, sz, i, s). sz - i)") auto

declare loaduvm_loop.simps [simp del]

definition loaduvm ::
  "u32 \<Rightarrow> u32 \<Rightarrow> nat \<Rightarrow> u32 \<Rightarrow> u32 \<Rightarrow> 'a consst_scheme \<Rightarrow> ('a consst_scheme, int) res" where
  "loaduvm pgdir addr ip offset sz s =
     (if addr mod PGSIZE \<noteq> 0 then Panic ''loaduvm: addr must be page aligned''
      else loaduvm_loop pgdir addr ip offset (unat sz) 0 s)"

section \<open>exec\<close>

text \<open>The code after the label \<^verbatim>\<open>bad\<close>; a null \<^verbatim>\<open>pgdir\<close> is 0.\<close>

definition exec_bad :: "u32 \<Rightarrow> nat option \<Rightarrow> 'a consst_scheme \<Rightarrow> ('a consst_scheme, int) res" where
  "exec_bad pgdir ip s =
     rbind (if pgdir \<noteq> 0 then freevm pgdir s else Ok () s) (\<lambda>_ s.
     rbind (if ip \<noteq> None then rbind (iunlockput ip s) (\<lambda>_ s. end_op s) else Ok () s) (\<lambda>_ s.
       Ok (-1) s))"

text \<open>One program header: the new \<^verbatim>\<open>sz\<close>, or \<^const>\<open>None\<close> for \<^verbatim>\<open>goto bad\<close>.\<close>

definition exec_segment ::
  "u32 \<Rightarrow> nat \<Rightarrow> u32 \<Rightarrow> u32 \<Rightarrow> 'a consst_scheme \<Rightarrow> ('a consst_scheme, u32 option) res" where
  "exec_segment pgdir ip off sz s =
     rbind (readi ip off (of_nat PROGHDR_SIZE) s) (\<lambda>(r, bs) s.
       if r \<noteq> int PROGHDR_SIZE then Ok None s
       else let ph = get_proghdr bs in
         if ph_type ph \<noteq> ELF_PROG_LOAD then Ok (Some sz) s
         else if ph_memsz ph < ph_filesz ph then Ok None s
         else if ph_vaddr ph + ph_memsz ph < ph_vaddr ph then Ok None s
         else rbind (allocuvm pgdir sz (ph_vaddr ph + ph_memsz ph) s) (\<lambda>sz s.
           if sz = 0 then Ok None s
           else if ph_vaddr ph mod PGSIZE \<noteq> 0 then Ok None s
           else rbind (loaduvm pgdir (ph_vaddr ph) ip (ph_off ph) (ph_filesz ph) s) (\<lambda>r s.
             Ok (if r < 0 then None else Some sz) s)))"

primrec exec_load ::
  "nat \<Rightarrow> u32 \<Rightarrow> nat \<Rightarrow> u32 \<Rightarrow> u32 \<Rightarrow> 'a consst_scheme \<Rightarrow> ('a consst_scheme, u32 option) res" where
  "exec_load 0 pgdir ip off sz s = Ok (Some sz) s"
| "exec_load (Suc n) pgdir ip off sz s =
     rbind (exec_segment pgdir ip off sz s) (\<lambda>q s.
       case q of None \<Rightarrow> Ok None s
       | Some sz \<Rightarrow> exec_load n pgdir ip (off + of_nat PROGHDR_SIZE) sz s)"

text \<open>Pushing the argument strings: the stack pointer and the entries of \<^verbatim>\<open>ustack\<close> from index 3.\<close>

fun exec_args ::
  "u8 list list \<Rightarrow> nat \<Rightarrow> u32 \<Rightarrow> u32 \<Rightarrow> 'a kmem_scheme \<Rightarrow> ('a kmem_scheme, (u32 \<times> u32 list) option) res" where
  "exec_args [] argc pgdir sp s = Ok (Some (sp, [])) s"
| "exec_args (a # argv) argc pgdir sp s =
     (if argc \<ge> MAXARG then Ok None s
      else let sp = (sp - of_nat (length a + 1)) AND NOT 3 in
        rbind (copyout pgdir sp (a @ [0]) s) (\<lambda>r s.
          if r < 0 then Ok None s
          else rbind (exec_args argv (Suc argc) pgdir sp s) (\<lambda>q s.
            Ok (map_option (\<lambda>(sp', us). (sp', sp # us)) q) s)))"

definition words_bytes :: "u32 list \<Rightarrow> u8 list" where
  "words_bytes ws = put_words 0 ws (replicate (4 * length ws) 0)"

definition last_elem :: "u8 list \<Rightarrow> u8 list" where
  "last_elem path = rev (takeWhile (\<lambda>c. c \<noteq> 0x2F) (rev path))"

text \<open>From the stack on, when the file is closed again: \<^verbatim>\<open>ip\<close> is null, only \<^verbatim>\<open>pgdir\<close> is to be freed.\<close>

definition exec_commit ::
  "nat \<Rightarrow> u8 list \<Rightarrow> u32 \<Rightarrow> u32 \<Rightarrow> u32 \<Rightarrow> u32 \<Rightarrow> 'a consst_scheme \<Rightarrow> ('a consst_scheme, int) res" where
  "exec_commit i path pgdir sz sp entry s =
     (let s = upd_proc i (set_name (last_elem path)) s;
          oldpgdir = p_pgdir (procs s ! i);
          s = upd_proc i (\<lambda>p. p\<lparr>p_pgdir := pgdir, p_sz := sz,
                p_tf := (p_tf p)\<lparr>tf_eip := entry, tf_esp := sp\<rparr>\<rparr>) s in
      rbind (switchuvm (Some i) s) (\<lambda>_ s.
      rbind (freevm oldpgdir s) (\<lambda>_ s. Ok 0 s)))"

definition exec_stack ::
  "nat \<Rightarrow> u8 list \<Rightarrow> u8 list list \<Rightarrow> u32 \<Rightarrow> u32 \<Rightarrow> u32 \<Rightarrow> 'a consst_scheme \<Rightarrow> ('a consst_scheme, int) res" where
  "exec_stack i path argv pgdir sz entry s =
     (let sz = PGROUNDUP sz in
      rbind (allocuvm pgdir sz (sz + 2 * PGSIZE) s) (\<lambda>sz s.
        if sz = 0 then exec_bad pgdir None s
        else rbind (clearpteu pgdir (sz - 2 * PGSIZE) s) (\<lambda>_ s.
          rbind (exec_args argv 0 pgdir sz s) (\<lambda>q s.
            case q of None \<Rightarrow> exec_bad pgdir None s
            | Some (sp, us) \<Rightarrow>
              let argc = of_nat (length us);
                  ustack = [0xFFFFFFFF, argc, sp - (argc + 1) * 4] @ us @ [0];
                  sp = sp - (3 + argc + 1) * 4 in
              rbind (copyout pgdir sp (words_bytes ustack) s) (\<lambda>r s.
                if r < 0 then exec_bad pgdir None s
                else exec_commit i path pgdir sz sp entry s)))))"

definition exec :: "u8 list \<Rightarrow> u8 list list \<Rightarrow> 'a consst_scheme \<Rightarrow> ('a consst_scheme, int) res" where
  "exec path argv s =
     rbind (myproc s) (\<lambda>cur s.
     rbind (begin_op s) (\<lambda>_ s.
     rbind (namei path s) (\<lambda>ip s.
       case ip of
         None \<Rightarrow> rbind (end_op s) (\<lambda>_ s. rbind (cprintf (''exec: fail'' @ [CHR 0x0A]) [] s) (\<lambda>_ s. Ok (-1) s))
       | Some ip \<Rightarrow>
         rbind (ilock (Some ip) s) (\<lambda>_ s.
         rbind (readi ip 0 (of_nat ELFHDR_SIZE) s) (\<lambda>(r, bs) s.
           let elf = get_elfhdr bs in
           if r \<noteq> int ELFHDR_SIZE \<or> eh_magic elf \<noteq> ELF_MAGIC then exec_bad 0 (Some ip) s
           else rbind (setupkvm s) (\<lambda>pgdir s.
             if pgdir = 0 then exec_bad 0 (Some ip) s
             else rbind (exec_load (unat (eh_phnum elf)) pgdir ip (eh_phoff elf) 0 s) (\<lambda>q s.
               case q of None \<Rightarrow> exec_bad pgdir (Some ip) s
               | Some sz \<Rightarrow>
                 rbind (iunlockput (Some ip) s) (\<lambda>_ s.
                 rbind (end_op s) (\<lambda>_ s.
                   case cur of None \<Rightarrow> Panic ''nullptr''
                   | Some i \<Rightarrow> exec_stack i path argv pgdir sz (eh_entry elf) s)))))))))"

end
