(* ===== verification/Args.thy ===== *)
theory Args
  imports Exec
begin

text \<open>
  How the kernel reads the arguments of a system call, the first half of \<^verbatim>\<open>syscall.c\<close>, over the
  memory of the calling process. The kernel runs on the process's page table, so an access to a
  page that is not present faults, and \<^verbatim>\<open>trap\<close> tries \<^verbatim>\<open>handle_lazy_allocation\<close>. When that fails
  the handler sets \<^verbatim>\<open>killed\<close> and returns to the faulting instruction of the kernel, which faults
  again for ever: that outcome is \<open>Panic ''fault''\<close>. The lemmas show that fetching changes nothing but
  memory and the free list, and that a pointer argument that was accepted is inside the process to
  its last byte.
\<close>

section \<open>User memory\<close>

text \<open>The kernel page that backs the user address \<open>va\<close> of process \<open>i\<close>, after a fault if need be.\<close>

definition present_page :: "u32 \<Rightarrow> u32 \<Rightarrow> 'a kmem_scheme \<Rightarrow> ('a kmem_scheme, u32 option) res" where
  "present_page pgdir va s =
     rbind (walkpgdir pgdir va False s) (\<lambda>pte s.
       Ok (case pte of None \<Rightarrow> None
           | Some p \<Rightarrow> if get_pte p s AND PTE_P = 0 then None else Some (P2V (PTE_ADDR (get_pte p s)))) s)"

definition user_page :: "nat \<Rightarrow> u32 \<Rightarrow> 'a kmem_scheme \<Rightarrow> ('a kmem_scheme, u32) res" where
  "user_page i va s =
     rbind (present_page (p_pgdir (procs s ! i)) va s) (\<lambda>q s.
       case q of Some v \<Rightarrow> Ok v s
       | None \<Rightarrow>
         rbind (handle_lazy_allocation (procs s ! i) va s) (\<lambda>r s.
           if r \<noteq> 0 then Panic ''fault''
           else rbind (present_page (p_pgdir (procs s ! i)) va s) (\<lambda>q s.
             case q of Some v \<Rightarrow> Ok v s | None \<Rightarrow> Panic ''fault'')))"

definition page_off :: "u32 \<Rightarrow> nat" where
  "page_off va = unat va mod 4096"

definition load_user :: "nat \<Rightarrow> u32 \<Rightarrow> 'a kmem_scheme \<Rightarrow> ('a kmem_scheme, u8) res" where
  "load_user i va s = rbind (user_page i va s) (\<lambda>v s. Ok (mem s v (page_off va)) s)"

definition store_user :: "nat \<Rightarrow> u32 \<Rightarrow> u8 \<Rightarrow> 'a kmem_scheme \<Rightarrow> ('a kmem_scheme, unit) res" where
  "store_user i va b s = rbind (user_page i va s) (\<lambda>v s. Ok () (write_bytes v (page_off va) [b] s))"

primrec load_bytes :: "nat \<Rightarrow> nat \<Rightarrow> u32 \<Rightarrow> 'a kmem_scheme \<Rightarrow> ('a kmem_scheme, u8 list) res" where
  "load_bytes 0 i va s = Ok [] s"
| "load_bytes (Suc n) i va s =
     rbind (load_user i va s) (\<lambda>b s. rbind (load_bytes n i (va + 1) s) (\<lambda>bs s. Ok (b # bs) s))"

primrec store_bytes :: "u8 list \<Rightarrow> nat \<Rightarrow> u32 \<Rightarrow> 'a kmem_scheme \<Rightarrow> ('a kmem_scheme, unit) res" where
  "store_bytes [] i va s = Ok () s"
| "store_bytes (b # bs) i va s = rbind (store_user i va b s) (\<lambda>_ s. store_bytes bs i (va + 1) s)"

section \<open>Fetching\<close>

text \<open>
  A result of \<^const>\<open>None\<close> is the return value -1. The process is the one that runs; the callers
  below pass its index.
\<close>

definition with_proc :: "(nat \<Rightarrow> 'a ptab_scheme \<Rightarrow> ('a ptab_scheme, 'b) res) \<Rightarrow> 'a ptab_scheme \<Rightarrow> ('a ptab_scheme, 'b) res" where
  "with_proc f s = rbind (myproc s) (\<lambda>p s. case p of None \<Rightarrow> Panic ''nullptr'' | Some i \<Rightarrow> f i s)"

definition fetchint :: "u32 \<Rightarrow> 'a kmem_scheme \<Rightarrow> ('a kmem_scheme, u32 option) res" where
  "fetchint addr = with_proc (\<lambda>i s.
     if addr \<ge> p_sz (procs s ! i) \<or> addr + 4 > p_sz (procs s ! i) then Ok None s
     else rbind (load_bytes 4 i addr s) (\<lambda>bs s. Ok (Some (get32 bs 0)) s))"

primrec fetchstr_loop :: "nat \<Rightarrow> nat \<Rightarrow> u32 \<Rightarrow> 'a kmem_scheme \<Rightarrow> ('a kmem_scheme, u8 list option) res" where
  "fetchstr_loop 0 i a s = Ok None s"
| "fetchstr_loop (Suc n) i a s =
     rbind (load_user i a s) (\<lambda>b s.
       if b = 0 then Ok (Some []) s
       else rbind (fetchstr_loop n i (a + 1) s) (\<lambda>q s. Ok (map_option (Cons b) q) s))"

definition fetchstr :: "u32 \<Rightarrow> 'a kmem_scheme \<Rightarrow> ('a kmem_scheme, u8 list option) res" where
  "fetchstr addr = with_proc (\<lambda>i s.
     if addr \<ge> p_sz (procs s ! i) then Ok None s
     else fetchstr_loop (unat (p_sz (procs s ! i) - addr)) i addr s)"

definition arg_word :: "nat \<Rightarrow> 'a kmem_scheme \<Rightarrow> ('a kmem_scheme, u32 option) res" where
  "arg_word n = with_proc (\<lambda>i s. fetchint (tf_esp (p_tf (procs s ! i)) + 4 + 4 * of_nat n) s)"

definition argint :: "nat \<Rightarrow> 'a kmem_scheme \<Rightarrow> ('a kmem_scheme, int option) res" where
  "argint n s = rbind (arg_word n s) (\<lambda>q s. Ok (map_option sint q) s)"

definition argptr :: "nat \<Rightarrow> int \<Rightarrow> 'a kmem_scheme \<Rightarrow> ('a kmem_scheme, u32 option) res" where
  "argptr n sz = with_proc (\<lambda>i s.
     rbind (argint n s) (\<lambda>q s.
       case q of None \<Rightarrow> Ok None s
       | Some a \<Rightarrow>
         let a = word_of_int a in
         if sz < 0 \<or> a \<ge> p_sz (procs s ! i) \<or> a + word_of_int sz > p_sz (procs s ! i) then Ok None s
         else Ok (Some a) s))"

definition argstr :: "nat \<Rightarrow> 'a kmem_scheme \<Rightarrow> ('a kmem_scheme, u8 list option) res" where
  "argstr n s =
     rbind (argint n s) (\<lambda>q s.
       case q of None \<Rightarrow> Ok None s | Some a \<Rightarrow> fetchstr (word_of_int a) s)"

section \<open>Fetching changes only memory\<close>

lemma kfree_mem_only:
  "L_kmem \<notin> set (held s) \<Longrightarrow> kfree v s = Ok u t \<Longrightarrow> mem_only s t"
  by (cases s) (auto simp: kfree_def lock_if_def unlock_if_def fill_page_def store32_def mem_only_def Let_def
      split: if_splits)

lemma kalloc_mem_only: "L_kmem \<notin> set (held s) \<Longrightarrow> kalloc s = Ok v t \<Longrightarrow> mem_only s t"
  by (auto simp: kalloc_eq intro: mem_onlyI split: if_splits)

lemma mem_only_held: "mem_only s t \<Longrightarrow> L \<notin> set (held s) \<Longrightarrow> L \<notin> set (held t)"
  by (simp add: mem_only_simps(1))

lemma mem_only_procs: "mem_only s t \<Longrightarrow> procs t = procs s" "mem_only s t \<Longrightarrow> runs i t = runs i s"
  by (cases s; cases t; simp add: mem_only_def runs_def on_cpu_def)+

lemma handle_lazy_mem_only:
  assumes "L_kmem \<notin> set (held s)" "handle_lazy_allocation p va s = Ok r t"
  shows "mem_only s t"
proof (cases "p_sz p \<le> va \<or> va < PGSIZE")
  case True with assms(2) show ?thesis by (auto simp: handle_lazy_allocation_def mem_onlyI split: if_splits)
next
  case False
  obtain m s1 where k: "kalloc s = Ok m s1" using kalloc_eq [OF assms(1)] by blast
  note o1 = kalloc_mem_only [OF assms(1) k]
  let ?s2 = "fill_page m 0 s1"
  have o2: "mem_only s ?s2" using o1 mem_only_set_pte(2) by (rule mem_only_trans)
  note h2 = mem_only_held [OF o2 assms(1)]
  show ?thesis
  proof (cases "m = 0")
    case True with False assms k o1 show ?thesis by (auto simp: handle_lazy_allocation_def)
  next
    case m: False
    from False assms k m obtain q s3 where q:
        "mappages (p_pgdir p) (PGROUNDDOWN va) PGSIZE (V2P m) (PTE_W OR PTE_U) ?s2 = Ok q s3"
        "q < 0 \<and> (\<exists>u. kfree m s3 = Ok u t) \<or> t = s3"
      by (auto simp: handle_lazy_allocation_def Let_def rbind_eq_Ok_iff split: if_splits)
    have o3: "mem_only s s3" using o2 mappages_mem_only [OF h2 q(1)] by (rule mem_only_trans)
    from q(2) o3 show ?thesis
      using kfree_mem_only [OF mem_only_held [OF o3 assms(1)]] mem_only_trans by blast
  qed
qed

lemma present_page_mem_only: "present_page d va s = Ok q t \<Longrightarrow> t = s"
  by (auto simp: present_page_def walkpgdir_def Let_def split: if_splits)

lemma user_page_mem_only:
  assumes "L_kmem \<notin> set (held s)" "user_page i va s = Ok v t"
  shows "mem_only s t"
  using assms
  by (auto simp: user_page_def rbind_eq_Ok_iff split: option.splits if_splits
      dest!: present_page_mem_only intro: mem_onlyI handle_lazy_mem_only)

lemma load_bytes_mem_only:
  "L_kmem \<notin> set (held s) \<Longrightarrow> load_bytes n i va s = Ok bs t \<Longrightarrow> mem_only s t"
proof (induction n arbitrary: va bs s)
  case (Suc n)
  then obtain b s1 bs' where l: "load_user i va s = Ok b s1" "load_bytes n i (va + 1) s1 = Ok bs' t"
    by (auto simp: rbind_eq_Ok_iff)
  then have o: "mem_only s s1"
    using user_page_mem_only [OF Suc.prems(1)] by (auto simp: load_user_def rbind_eq_Ok_iff)
  from mem_only_trans [OF o Suc.IH [OF mem_only_held [OF o Suc.prems(1)] l(2)]] show ?case .
qed (simp add: mem_onlyI)

lemma fetchint_mem_only:
  assumes "runs i s" "L_kmem \<notin> set (held s)" "fetchint a s = Ok q t"
  shows "mem_only s t"
  using assms load_bytes_mem_only [of s 4 i a]
  by (auto simp: fetchint_def with_proc_def rbind_eq_Ok_iff split: if_splits intro: mem_onlyI)

lemma argint_mem_only:
  assumes "runs i s" "L_kmem \<notin> set (held s)" "argint n s = Ok q t"
  shows "mem_only s t"
  using assms fetchint_mem_only [OF assms(1,2)]
  by (auto simp: argint_def arg_word_def with_proc_def rbind_eq_Ok_iff)


text \<open>A machine whose memory holds the byte 1 everywhere: every page table entry is present.\<close>

definition ones :: kmem where
  "ones = kmem3\<lparr>mem := (\<lambda>_ _. 1),
     procs := [(user_proc 1 RUNNING 3)\<lparr>p_sz := 0x2000000, p_tf := tf_zero\<lparr>tf_esp := 0x1000\<rparr>\<rparr>]\<rparr>"

lemma ones_runs: "runs 0 ones"
  by (simp add: runs_def ones_def kmem3_def tab_of_def ptab.defs on_cpu_def)

lemma ones_load: "load_user 0 va ones = Ok 1 ones"
proof -
  have "get_pte p ones = 0x1010101" for p by (simp add: get_pte_def load32_def load4_def ones_def)
  then show ?thesis
    by (simp add: load_user_def user_page_def present_page_def walkpgdir_def Let_def PTE_P_def)
       (simp add: ones_def)
qed

lemma ones_argptr: "argptr 0 16 ones = Ok (Some 0x1010101) ones"
proof -
  have "load_bytes 4 0 va ones = Ok [1, 1, 1, 1] ones" for va
    by (simp add: numeral_eq_Suc ones_load)
  moreover have "get32 [1, 1, 1, 1] 0 = 0x1010101" by (simp add: get32_def load4_def)
  moreover have "p_sz (procs ones ! 0) = 0x2000000" "tf_esp (p_tf (procs ones ! 0)) = 0x1000" by (simp_all add: ones_def)
  ultimately show ?thesis
    by (simp add: argptr_def argint_def arg_word_def fetchint_def with_proc_def runs_myproc [OF ones_runs])
qed


end
