(* ===== verification/Sysproc.thy ===== *)
theory Sysproc
  imports Args
begin

text \<open>
  The process system calls, \<^verbatim>\<open>sysproc.c\<close>. \<^verbatim>\<open>sys_setpriority\<close> fetches its arguments here; its search
  of the process table is \<open>setpriority\<close> of the scheduler's theory.
\<close>

text \<open>An argument that cannot be fetched makes the call return -1.\<close>

definition or_fail ::
  "('s, 'a option) res \<Rightarrow> ('a \<Rightarrow> 's \<Rightarrow> ('s, int) res) \<Rightarrow> ('s, int) res" where
  "or_fail r f = rbind r (\<lambda>q s. case q of None \<Rightarrow> Ok (-1) s | Some a \<Rightarrow> f a s)"

definition sys_fork :: "'a kst_scheme \<Rightarrow> ('a kst_scheme, int) res" where
  "sys_fork s = fork s"

definition sys_exit :: "'a kst_scheme \<Rightarrow> ('a kst_scheme, int) res" where
  "sys_exit s = rbind (exit s) (\<lambda>_ s. Ok 0 s)"

definition sys_wait :: "'a kst_scheme \<Rightarrow> ('a kst_scheme, int) res" where
  "sys_wait s = wait s"

definition sys_kill :: "'a kst_scheme \<Rightarrow> ('a kst_scheme, int) res" where
  "sys_kill s = or_fail (argint 0 s) (\<lambda>pid s. kill pid s)"

definition sys_getpid :: "'a kst_scheme \<Rightarrow> ('a kst_scheme, int) res" where
  "sys_getpid = with_proc (\<lambda>i s. Ok (p_pid (procs s ! i)) s)"

definition sys_sbrk :: "'a kst_scheme \<Rightarrow> ('a kst_scheme, int) res" where
  "sys_sbrk s =
     or_fail (argint 0 s) (\<lambda>n. with_proc (\<lambda>i s.
       let addr = sint (p_sz (procs s ! i)) in
       rbind (growproc n s) (\<lambda>r s. Ok (if r < 0 then -1 else addr) s)))"

text \<open>\<^verbatim>\<open>ticks - ticks0 < n\<close> compares as unsigned words.\<close>

definition sleep_ticks :: "u32 \<Rightarrow> u32 \<Rightarrow> 'a kst_scheme \<Rightarrow> ('a kst_scheme, int) res" where
  "sleep_ticks ticks0 n =
     sleep_loop (\<lambda>s.
       if ticks s - ticks0 < n then
         rbind (myproc_killed s) (\<lambda>k s.
           if k then rbind (release L_tickslock s) (\<lambda>_ s. Ok (Inl (-1)) s)
           else rbind (sleep Ch_ticks (Some L_tickslock) s) (\<lambda>_ s. Ok (Inr ()) s))
       else rbind (release L_tickslock s) (\<lambda>_ s. Ok (Inl 0) s))"

definition sys_sleep :: "'a kst_scheme \<Rightarrow> ('a kst_scheme, int) res" where
  "sys_sleep s =
     or_fail (argint 0 s) (\<lambda>n s.
       rbind (acquire L_tickslock s) (\<lambda>_ s. sleep_ticks (ticks s) (word_of_int n) s))"

definition sys_setpriority :: "'a kst_scheme \<Rightarrow> ('a kst_scheme, int) res" where
  "sys_setpriority s =
     or_fail (argint 0 s) (\<lambda>pid s.
     or_fail (argint 1 s) (\<lambda>prio s. setpriority pid prio s))"

definition sys_uptime :: "'a kst_scheme \<Rightarrow> ('a kst_scheme, int) res" where
  "sys_uptime s =
     rbind (acquire L_tickslock s) (\<lambda>_ s.
       let xticks = ticks s in
       rbind (release L_tickslock s) (\<lambda>_ s. Ok (sint xticks) s))"

end
