(* ===== verification/Sysfile.thy ===== *)
theory Sysfile
  imports Sysproc
begin

text \<open>
  The file-system calls, \<^verbatim>\<open>sysfile.c\<close>. The bytes that a \<^verbatim>\<open>write\<close> copies are read from the user's
  memory before \<^verbatim>\<open>filewrite\<close> is called with them, and the bytes that a \<^verbatim>\<open>read\<close> returns are stored after
  \<^verbatim>\<open>fileread\<close>; the code does both inside those functions.
\<close>

section \<open>File descriptors\<close>

definition O_RDONLY :: u32 where "O_RDONLY = 0"
definition O_WRONLY :: u32 where "O_WRONLY = 1"
definition O_RDWR :: u32 where "O_RDWR = 2"
definition O_CREATE :: u32 where "O_CREATE = 0x200"

definition argfd :: "nat \<Rightarrow> 'a kst_scheme \<Rightarrow> ('a kst_scheme, (nat \<times> nat) option) res" where
  "argfd n s =
     rbind (argint n s) (\<lambda>q s.
       case q of None \<Rightarrow> Ok None s
       | Some fd \<Rightarrow> with_proc (\<lambda>i s.
           if fd < 0 \<or> fd \<ge> int NOFILE then Ok None s
           else Ok (map_option (Pair (nat fd)) (p_ofile (procs s ! i) ! nat fd)) s) s)"

definition set_ofile :: "nat \<Rightarrow> nat \<Rightarrow> nat option \<Rightarrow> 'a ptab_scheme \<Rightarrow> 'a ptab_scheme" where
  "set_ofile i fd q s = upd_proc i (\<lambda>p. p\<lparr>p_ofile := (p_ofile p)[fd := q]\<rparr>) s"

definition fdalloc :: "nat \<Rightarrow> 'a ptab_scheme \<Rightarrow> ('a ptab_scheme, nat option) res" where
  "fdalloc f = with_proc (\<lambda>i s.
     case first_index (\<lambda>x. x = None) (p_ofile (procs s ! i)) of
       None \<Rightarrow> Ok None s
     | Some fd \<Rightarrow> Ok (Some fd) (set_ofile i fd (Some f) s))"

definition sys_dup :: "'a kst_scheme \<Rightarrow> ('a kst_scheme, int) res" where
  "sys_dup s =
     or_fail (argfd 0 s) (\<lambda>(_, f) s.
     or_fail (fdalloc f s) (\<lambda>fd s. rbind (filedup f s) (\<lambda>_ s. Ok (int fd) s)))"

definition sys_read :: "'a kst_scheme \<Rightarrow> ('a kst_scheme, int) res" where
  "sys_read s =
     or_fail (argfd 0 s) (\<lambda>(_, f) s.
     or_fail (argint 2 s) (\<lambda>n s.
     or_fail (argptr 1 n s) (\<lambda>p s.
       rbind (fileread f n s) (\<lambda>(r, bs).
         with_proc (\<lambda>i s. rbind (store_bytes bs i p s) (\<lambda>_ s. Ok r s))))))"

definition sys_write :: "'a kst_scheme \<Rightarrow> ('a kst_scheme, int) res" where
  "sys_write s =
     or_fail (argfd 0 s) (\<lambda>(_, f) s.
     or_fail (argint 2 s) (\<lambda>n s.
     or_fail (argptr 1 n s) (\<lambda>p.
       with_proc (\<lambda>i s.
         rbind (load_bytes (nat n) i p s) (\<lambda>bs s. filewrite f (\<lambda>j. bs ! j) n s)))))"

definition sys_close :: "'a kst_scheme \<Rightarrow> ('a kst_scheme, int) res" where
  "sys_close s =
     or_fail (argfd 0 s) (\<lambda>(fd, f). with_proc (\<lambda>i s.
       rbind (fileclose f (set_ofile i fd None s)) (\<lambda>_ s. Ok 0 s)))"

text \<open>The stores of \<^verbatim>\<open>stati\<close>; \<^verbatim>\<open>struct stat\<close> has padding after \<^verbatim>\<open>type\<close> and \<^verbatim>\<open>nlink\<close>.\<close>

definition STAT_SIZE :: int where "STAT_SIZE = 20"

definition store_stat :: "stat \<Rightarrow> nat \<Rightarrow> u32 \<Rightarrow> 'a kmem_scheme \<Rightarrow> ('a kmem_scheme, unit) res" where
  "store_stat st i p s =
     rbind (store_bytes (put16 0 (st_type st) [0, 0]) i p s) (\<lambda>_ s.
     rbind (store_bytes (put32 0 (st_dev st) [0, 0, 0, 0]) i (p + 4) s) (\<lambda>_ s.
     rbind (store_bytes (put32 0 (st_ino st) [0, 0, 0, 0]) i (p + 8) s) (\<lambda>_ s.
     rbind (store_bytes (put16 0 (st_nlink st) [0, 0]) i (p + 12) s) (\<lambda>_ s.
       store_bytes (put32 0 (st_size st) [0, 0, 0, 0]) i (p + 16) s))))"

definition sys_fstat :: "'a kst_scheme \<Rightarrow> ('a kst_scheme, int) res" where
  "sys_fstat s =
     or_fail (argfd 0 s) (\<lambda>(_, f) s.
     or_fail (argptr 1 STAT_SIZE s) (\<lambda>p s.
     or_fail (filestat f s) (\<lambda>st. with_proc (\<lambda>i s.
       rbind (store_stat st i p s) (\<lambda>_ s. Ok 0 s)))))"

section \<open>Links\<close>

definition fail_op :: "'a logst_scheme \<Rightarrow> ('a logst_scheme, int) res" where
  "fail_op s = rbind (end_op s) (\<lambda>_ s. Ok (-1) s)"

definition name0 :: "u8 list" where
  "name0 = replicate DIRSIZ 0"

definition add_nlink :: "nat \<Rightarrow> u16 \<Rightarrow> 'a fsst_scheme \<Rightarrow> 'a fsst_scheme" where
  "add_nlink ip d s = upd_inode ip (\<lambda>x. x\<lparr>i_nlink := i_nlink x + d\<rparr>) s"

definition link_bad :: "nat \<Rightarrow> 'a kst_scheme \<Rightarrow> ('a kst_scheme, int) res" where
  "link_bad ip s =
     rbind (ilock (Some ip) s) (\<lambda>_ s.
     rbind (iupdate ip (add_nlink ip (-1) s)) (\<lambda>_ s.
     rbind (iunlockput (Some ip) s) (\<lambda>_ s. fail_op s)))"

definition link_new :: "nat \<Rightarrow> u8 list \<Rightarrow> 'a kst_scheme \<Rightarrow> ('a kst_scheme, int) res" where
  "link_new ip new s =
     rbind (nameiparent new name0 s) (\<lambda>(dp, name) s.
       case dp of None \<Rightarrow> link_bad ip s
       | Some dp \<Rightarrow>
         rbind (ilock (Some dp) s) (\<lambda>_ s.
         rbind (if i_dev (inodes s ! dp) \<noteq> i_dev (inodes s ! ip) then Ok (-1) s
                else dirlink dp name (i_inum (inodes s ! ip)) s) (\<lambda>r s.
         rbind (iunlockput (Some dp) s) (\<lambda>_ s.
           if r < 0 then link_bad ip s
           else rbind (iput ip s) (\<lambda>_ s. rbind (end_op s) (\<lambda>_ s. Ok 0 s))))))"

definition sys_link :: "'a kst_scheme \<Rightarrow> ('a kst_scheme, int) res" where
  "sys_link s =
     or_fail (argstr 0 s) (\<lambda>old s.
     or_fail (argstr 1 s) (\<lambda>new s.
       rbind (begin_op s) (\<lambda>_ s.
       rbind (namei old s) (\<lambda>ip s.
         case ip of None \<Rightarrow> fail_op s
         | Some ip \<Rightarrow>
           rbind (ilock (Some ip) s) (\<lambda>_ s.
             if i_type (inodes s ! ip) = T_DIR then rbind (iunlockput (Some ip) s) (\<lambda>_ s. fail_op s)
             else rbind (iupdate ip (add_nlink ip 1 s)) (\<lambda>_ s.
                  rbind (iunlock (Some ip) s) (\<lambda>_ s. link_new ip new s)))))))"

function isdirempty_from :: "nat \<Rightarrow> nat \<Rightarrow> 'a kst_scheme \<Rightarrow> ('a kst_scheme, bool) res" where
  "isdirempty_from off dp s =
     (if off < unat (i_size (inodes s ! dp)) then
        rbind (read_dirent ''isdirempty: readi'' dp off s) (\<lambda>de s.
          if de_inum de \<noteq> 0 then Ok False s else isdirempty_from (off + DIRENT_SIZE) dp s)
      else Ok True s)"
  by pat_completeness auto
termination
proof (relation "measure (\<lambda>(off, dp, s). 2 ^ 32 - off)")
  fix off dp and s :: "'a kst_scheme"
  assume "off < unat (i_size (inodes s ! dp))"
  then have "off < 2 ^ 32" using unsigned_less [of "i_size (inodes s ! dp)", where 'a = nat] by simp
  then show "((off + DIRENT_SIZE, dp, t), off, dp, s) \<in> measure (\<lambda>(off, dp, s). 2 ^ 32 - off)"
    for t :: "'a kst_scheme" by (simp add: DIRENT_SIZE_def)
qed simp

declare isdirempty_from.simps [simp del]

definition isdirempty :: "nat \<Rightarrow> 'a kst_scheme \<Rightarrow> ('a kst_scheme, bool) res" where
  "isdirempty dp s = isdirempty_from (2 * DIRENT_SIZE) dp s"

definition unlink_bad :: "nat \<Rightarrow> 'a kst_scheme \<Rightarrow> ('a kst_scheme, int) res" where
  "unlink_bad dp s = rbind (iunlockput (Some dp) s) (\<lambda>_ s. fail_op s)"

text \<open>From the point where the entry at \<open>off\<close> is known to be the one to clear.\<close>

definition unlink_entry :: "nat \<Rightarrow> nat \<Rightarrow> nat \<Rightarrow> 'a kst_scheme \<Rightarrow> ('a kst_scheme, int) res" where
  "unlink_entry dp ip off s =
     rbind (writei dp (\<lambda>_. 0) (of_nat off) (of_nat DIRENT_SIZE) s) (\<lambda>r s.
       if r \<noteq> int DIRENT_SIZE then Panic ''unlink: writei''
       else rbind (if i_type (inodes s ! ip) = T_DIR then iupdate dp (add_nlink dp (-1) s) else Ok () s) (\<lambda>_ s.
         rbind (iunlockput (Some dp) s) (\<lambda>_ s.
         rbind (iupdate ip (add_nlink ip (-1) s)) (\<lambda>_ s.
         rbind (iunlockput (Some ip) s) (\<lambda>_ s.
         rbind (end_op s) (\<lambda>_ s. Ok 0 s))))))"

definition unlink_name :: "nat \<Rightarrow> u8 list \<Rightarrow> 'a kst_scheme \<Rightarrow> ('a kst_scheme, int) res" where
  "unlink_name dp name s =
     (if namecmp name (asc ''.'') = 0 \<or> namecmp name (asc ''..'') = 0 then unlink_bad dp s
      else rbind (dirlookup dp name s) (\<lambda>q s.
        case q of None \<Rightarrow> unlink_bad dp s
        | Some (ip, off) \<Rightarrow>
          rbind (ilock (Some ip) s) (\<lambda>_ s.
            if sint (i_nlink (inodes s ! ip)) < 1 then Panic ''unlink: nlink < 1''
            else rbind (if i_type (inodes s ! ip) = T_DIR then isdirempty ip s else Ok True s) (\<lambda>e s.
              if \<not> e then rbind (iunlockput (Some ip) s) (\<lambda>_ s. unlink_bad dp s)
              else unlink_entry dp ip off s))))"

definition sys_unlink :: "'a kst_scheme \<Rightarrow> ('a kst_scheme, int) res" where
  "sys_unlink s =
     or_fail (argstr 0 s) (\<lambda>path s.
       rbind (begin_op s) (\<lambda>_ s.
       rbind (nameiparent path name0 s) (\<lambda>(dp, name) s.
         case dp of None \<Rightarrow> fail_op s
         | Some dp \<Rightarrow> rbind (ilock (Some dp) s) (\<lambda>_ s. unlink_name dp name s))))"

section \<open>Creating and opening\<close>

text \<open>\<^verbatim>\<open>||\<close> and \<^verbatim>\<open>panic\<close>: the second link is not tried when the first one fails.\<close>

definition create_dots :: "nat \<Rightarrow> nat \<Rightarrow> 'a kst_scheme \<Rightarrow> ('a kst_scheme, unit) res" where
  "create_dots ip dp s =
     rbind (iupdate dp (add_nlink dp 1 s)) (\<lambda>_ s.
     rbind (dirlink ip (asc ''.'') (i_inum (inodes s ! ip)) s) (\<lambda>r s.
       if r < 0 then Panic ''create dots''
       else rbind (dirlink ip (asc ''..'') (i_inum (inodes s ! dp)) s) (\<lambda>r s.
         if r < 0 then Panic ''create dots'' else Ok () s)))"

definition create_new ::
  "nat \<Rightarrow> u8 list \<Rightarrow> u16 \<Rightarrow> u16 \<Rightarrow> u16 \<Rightarrow> 'a kst_scheme \<Rightarrow> ('a kst_scheme, nat option) res" where
  "create_new dp name type major minor s =
     rbind (ialloc (i_dev (inodes s ! dp)) type s) (\<lambda>ip s.
     rbind (ilock (Some ip) s) (\<lambda>_ s.
     rbind (iupdate ip (upd_inode ip (\<lambda>x. x\<lparr>i_major := major, i_minor := minor, i_nlink := 1\<rparr>) s)) (\<lambda>_ s.
     rbind (if type = T_DIR then create_dots ip dp s else Ok () s) (\<lambda>_ s.
     rbind (dirlink dp name (i_inum (inodes s ! ip)) s) (\<lambda>r s.
       if r < 0 then Panic ''create: dirlink''
       else rbind (iunlockput (Some dp) s) (\<lambda>_ s. Ok (Some ip) s))))))"

definition create ::
  "u8 list \<Rightarrow> u16 \<Rightarrow> u16 \<Rightarrow> u16 \<Rightarrow> 'a kst_scheme \<Rightarrow> ('a kst_scheme, nat option) res" where
  "create path type major minor s =
     rbind (nameiparent path name0 s) (\<lambda>(dp, name) s.
       case dp of None \<Rightarrow> Ok None s
       | Some dp \<Rightarrow>
         rbind (ilock (Some dp) s) (\<lambda>_ s.
         rbind (dirlookup dp name s) (\<lambda>q s.
           case q of
             Some (ip, _) \<Rightarrow>
               rbind (iunlockput (Some dp) s) (\<lambda>_ s.
               rbind (ilock (Some ip) s) (\<lambda>_ s.
                 if type = T_FILE \<and> i_type (inodes s ! ip) = T_FILE then Ok (Some ip) s
                 else rbind (iunlockput (Some ip) s) (\<lambda>_ s. Ok None s)))
           | None \<Rightarrow> create_new dp name type major minor s)))"

text \<open>The inode to open, locked, or the return value -1 with the transaction ended.\<close>

definition open_inode :: "u8 list \<Rightarrow> u32 \<Rightarrow> 'a kst_scheme \<Rightarrow> ('a kst_scheme, nat option) res" where
  "open_inode path omode s =
     (if omode AND O_CREATE \<noteq> 0 then
        rbind (create path T_FILE 0 0 s) (\<lambda>ip s.
          case ip of None \<Rightarrow> rbind (end_op s) (\<lambda>_ s. Ok None s) | Some ip \<Rightarrow> Ok (Some ip) s)
      else rbind (namei path s) (\<lambda>ip s.
        case ip of None \<Rightarrow> rbind (end_op s) (\<lambda>_ s. Ok None s)
        | Some ip \<Rightarrow>
          rbind (ilock (Some ip) s) (\<lambda>_ s.
            if i_type (inodes s ! ip) = T_DIR \<and> omode \<noteq> O_RDONLY then
              rbind (iunlockput (Some ip) s) (\<lambda>_ s. rbind (end_op s) (\<lambda>_ s. Ok None s))
            else Ok (Some ip) s)))"

definition open_fail :: "nat option \<Rightarrow> nat \<Rightarrow> 'a kst_scheme \<Rightarrow> ('a kst_scheme, int) res" where
  "open_fail f ip s =
     rbind (close_opt f s) (\<lambda>_ s. rbind (iunlockput (Some ip) s) (\<lambda>_ s. fail_op s))"

definition sys_open :: "'a kst_scheme \<Rightarrow> ('a kst_scheme, int) res" where
  "sys_open s =
     or_fail (argstr 0 s) (\<lambda>path s.
     or_fail (arg_word 1 s) (\<lambda>omode s.
       rbind (begin_op s) (\<lambda>_ s.
       or_fail (open_inode path omode s) (\<lambda>ip s.
         rbind (filealloc s) (\<lambda>f s.
           case f of None \<Rightarrow> open_fail None ip s
           | Some f \<Rightarrow>
             rbind (fdalloc f s) (\<lambda>fd s.
               case fd of None \<Rightarrow> open_fail (Some f) ip s
               | Some fd \<Rightarrow>
                 rbind (iunlock (Some ip) s) (\<lambda>_ s.
                 rbind (end_op s) (\<lambda>_ s.
                   Ok (int fd) (upd_file f (\<lambda>x. x\<lparr>f_type := FD_INODE, f_ip := Some ip, f_off := 0,
                     f_readable := (omode AND O_WRONLY = 0),
                     f_writable := (omode AND O_WRONLY \<noteq> 0 \<or> omode AND O_RDWR \<noteq> 0)\<rparr>) s)))))))))"

text \<open>The end of \<^verbatim>\<open>sys_mkdir\<close> and \<^verbatim>\<open>sys_mknod\<close>; here a failed fetch ends the transaction too.\<close>

definition create_end :: "nat option \<Rightarrow> 'a kst_scheme \<Rightarrow> ('a kst_scheme, int) res" where
  "create_end ip s =
     (case ip of None \<Rightarrow> fail_op s
      | Some _ \<Rightarrow> rbind (iunlockput ip s) (\<lambda>_ s. rbind (end_op s) (\<lambda>_ s. Ok 0 s)))"

definition or_fail_op ::
  "('a kst_scheme, 'b option) res \<Rightarrow> ('b \<Rightarrow> 'a kst_scheme \<Rightarrow> ('a kst_scheme, int) res) \<Rightarrow> ('a kst_scheme, int) res" where
  "or_fail_op r f = rbind r (\<lambda>q s. case q of None \<Rightarrow> fail_op s | Some a \<Rightarrow> f a s)"

definition sys_mkdir :: "'a kst_scheme \<Rightarrow> ('a kst_scheme, int) res" where
  "sys_mkdir s =
     rbind (begin_op s) (\<lambda>_ s.
     or_fail_op (argstr 0 s) (\<lambda>path s. rbind (create path T_DIR 0 0 s) create_end))"

definition sys_mknod :: "'a kst_scheme \<Rightarrow> ('a kst_scheme, int) res" where
  "sys_mknod s =
     rbind (begin_op s) (\<lambda>_ s.
     or_fail_op (argstr 0 s) (\<lambda>path s.
     or_fail_op (argint 1 s) (\<lambda>major s.
     or_fail_op (argint 2 s) (\<lambda>minor s.
       rbind (create path T_DEV (word_of_int major) (word_of_int minor) s) create_end))))"

definition sys_chdir :: "'a kst_scheme \<Rightarrow> ('a kst_scheme, int) res" where
  "sys_chdir = with_proc (\<lambda>i s.
     rbind (begin_op s) (\<lambda>_ s.
     or_fail_op (argstr 0 s) (\<lambda>path s.
     or_fail_op (namei path s) (\<lambda>ip s.
       rbind (ilock (Some ip) s) (\<lambda>_ s.
         if i_type (inodes s ! ip) \<noteq> T_DIR then rbind (iunlockput (Some ip) s) (\<lambda>_ s. fail_op s)
         else
           rbind (iunlock (Some ip) s) (\<lambda>_ s.
           rbind (case p_cwd (procs s ! i) of None \<Rightarrow> Panic ''nullptr'' | Some wd \<Rightarrow> iput wd s) (\<lambda>_ s.
           rbind (end_op s) (\<lambda>_ s. Ok 0 (upd_proc i (\<lambda>p. p\<lparr>p_cwd := Some ip\<rparr>) s)))))))))"

section \<open>exec and pipe\<close>

text \<open>The loop over \<^verbatim>\<open>argv\<close>; its first argument is what is left of the array of \<^verbatim>\<open>MAXARG\<close> pointers.\<close>

primrec exec_argv :: "nat \<Rightarrow> u32 \<Rightarrow> 'a kst_scheme \<Rightarrow> ('a kst_scheme, u8 list list option) res" where
  "exec_argv 0 uargv s = Ok None s"
| "exec_argv (Suc n) uargv s =
     rbind (fetchint uargv s) (\<lambda>q s.
       case q of None \<Rightarrow> Ok None s
       | Some uarg \<Rightarrow>
         if uarg = 0 then Ok (Some []) s
         else rbind (fetchstr uarg s) (\<lambda>q s.
           case q of None \<Rightarrow> Ok None s
           | Some a \<Rightarrow> rbind (exec_argv n (uargv + 4) s) (\<lambda>q s. Ok (map_option (Cons a) q) s)))"

definition sys_exec :: "'a kst_scheme \<Rightarrow> ('a kst_scheme, int) res" where
  "sys_exec s =
     or_fail (argstr 0 s) (\<lambda>path s.
     or_fail (arg_word 1 s) (\<lambda>uargv s.
     or_fail (exec_argv MAXARG uargv s) (\<lambda>argv s. exec path argv s)))"

definition pipe_fail :: "nat option \<Rightarrow> nat \<Rightarrow> nat \<Rightarrow> 'a kst_scheme \<Rightarrow> ('a kst_scheme, int) res" where
  "pipe_fail fd0 fr fw = with_proc (\<lambda>i s.
     let s = (case fd0 of None \<Rightarrow> s | Some fd \<Rightarrow> set_ofile i fd None s) in
     rbind (fileclose fr s) (\<lambda>_ s. rbind (fileclose fw s) (\<lambda>_ s. Ok (-1) s)))"

definition sys_pipe :: "'a kst_scheme \<Rightarrow> ('a kst_scheme, int) res" where
  "sys_pipe s =
     or_fail (argptr 0 8 s) (\<lambda>fd s.
     or_fail (pipealloc s) (\<lambda>(fr, fw) s.
       rbind (fdalloc fr s) (\<lambda>q s.
         case q of None \<Rightarrow> pipe_fail None fr fw s
         | Some fd0 \<Rightarrow>
           rbind (fdalloc fw s) (\<lambda>q s.
             case q of None \<Rightarrow> pipe_fail (Some fd0) fr fw s
             | Some fd1 \<Rightarrow> with_proc (\<lambda>i s.
                 rbind (store_bytes (words_bytes [of_nat fd0, of_nat fd1]) i fd s) (\<lambda>_ s. Ok 0 s)) s))))"

end
