(* ===== verification/Syscall.thy ===== *)
theory Syscall
  imports Sysfile
begin

text \<open>
  The system call table and the dispatcher, the second half of \<^verbatim>\<open>syscall.c\<close>. The entry 0 of the
  array has no designated initialiser and is a null pointer.
\<close>

definition syscalls :: "('a kst_scheme \<Rightarrow> ('a kst_scheme, int) res) option list" where
  "syscalls = None # map Some
     [sys_fork, sys_exit, sys_wait, sys_pipe, sys_read, sys_kill, sys_exec, sys_fstat, sys_chdir,
      sys_dup, sys_getpid, sys_sbrk, sys_sleep, sys_uptime, sys_open, sys_write, sys_mknod,
      sys_unlink, sys_link, sys_mkdir, sys_close, sys_setpriority]"

definition set_eax :: "nat \<Rightarrow> int \<Rightarrow> 'a ptab_scheme \<Rightarrow> 'a ptab_scheme" where
  "set_eax i v s = upd_proc i (\<lambda>p. p\<lparr>p_tf := (p_tf p)\<lparr>tf_eax := word_of_int v\<rparr>\<rparr>) s"

definition c_string :: "u8 list \<Rightarrow> u8 list" where
  "c_string xs = takeWhile (\<lambda>c. c \<noteq> 0) xs"

definition syscall :: "'a kst_scheme \<Rightarrow> ('a kst_scheme, unit) res" where
  "syscall = with_proc (\<lambda>i s.
     let num = sint (tf_eax (p_tf (procs s ! i))) in
     case (if num > 0 \<and> num < int (length (syscalls :: ('a kst_scheme \<Rightarrow> _) option list))
           then syscalls ! nat num else None) of
       Some f \<Rightarrow> rbind (f s) (\<lambda>r s. Ok () (set_eax i r s))
     | None \<Rightarrow>
         let p = procs s ! i in
         rbind (cprintf (''%d %s: unknown sys call %d'' @ [CHR 0x0A])
                  [FInt (word_of_int (p_pid p)), FStr (Some (c_string (p_name p))), FInt (word_of_int num)] s) (\<lambda>_ s.
           Ok () (set_eax i (-1) s)))"

end
