(* ===== verification/Trap.thy ===== *)
theory Trap
  imports Syscall
begin

text \<open>
  The trap handler \<^verbatim>\<open>trap\<close> of \<^verbatim>\<open>trap.c\<close>. What the hardware supplies is in \<open>trapenv\<close>: the
  faulting address in \<^verbatim>\<open>%cr2\<close>, what the keyboard and the serial port read, and, for a process
  listing, the program counters found on the kernel stacks. \<^verbatim>\<open>lapiceoi()\<close> acknowledges the
  interrupt to the local APIC and changes nothing that is modelled.
\<close>

record trapenv =
  te_cr2 :: u32
  te_kbd :: "(u8 \<times> u8) list"
  te_uart :: "(u8 \<times> u8) list"
  te_pcs :: "nat \<Rightarrow> u32 list"

definition T_PGFLT :: u32 where "T_PGFLT = 14"
definition T_SYSCALL :: u32 where "T_SYSCALL = 64"
definition T_IRQ0 :: u32 where "T_IRQ0 = 32"
definition IRQ_TIMER :: u32 where "IRQ_TIMER = 0"
definition IRQ_KBD :: u32 where "IRQ_KBD = 1"
definition IRQ_COM1 :: u32 where "IRQ_COM1 = 4"
definition IRQ_IDE :: u32 where "IRQ_IDE = 14"
definition IRQ_SPURIOUS :: u32 where "IRQ_SPURIOUS = 31"

definition cpuid :: "'a ptab_scheme \<Rightarrow> ('a ptab_scheme, nat) res" where
  "cpuid s = mycpu s"

text \<open>\<^verbatim>\<open>if(myproc()->killed) exit();\<close>\<close>

definition exit_if_killed :: "'a ftst_scheme \<Rightarrow> ('a ftst_scheme, unit) res" where
  "exit_if_killed s = rbind (myproc_killed s) (\<lambda>k s. if k then exit s else Ok () s)"

definition trap_syscall :: "trapframe \<Rightarrow> 'a kst_scheme \<Rightarrow> ('a kst_scheme, unit) res" where
  "trap_syscall tf s =
     rbind (exit_if_killed s) (\<lambda>_.
     with_proc (\<lambda>i s.
       rbind (syscall (upd_proc i (\<lambda>p. p\<lparr>p_tf := tf\<rparr>) s)) (\<lambda>_ s. exit_if_killed s)))"

definition trap_timer :: "'a kst_scheme \<Rightarrow> ('a kst_scheme, unit) res" where
  "trap_timer s =
     rbind (cpuid s) (\<lambda>c s.
       if c = 0 then
         rbind (acquire L_tickslock s) (\<lambda>_ s.
         rbind (wakeup (Some Ch_ticks) (s\<lparr>ticks := ticks s + 1\<rparr>)) (\<lambda>_ s.
           release L_tickslock s))
       else Ok () s)"

definition trap_pgflt :: "u32 \<Rightarrow> 'a kst_scheme \<Rightarrow> ('a kst_scheme, unit) res" where
  "trap_pgflt faultaddr s =
     rbind (myproc s) (\<lambda>p s.
       case p of
         None \<Rightarrow> rbind (cprintf (''unexpected page fault in kernel at 0x%x'' @ [CHR 0x0A]) [FInt faultaddr] s) (\<lambda>_ _.
                   Panic ''trap'')
       | Some i \<Rightarrow>
           rbind (handle_lazy_allocation (procs s ! i) faultaddr s) (\<lambda>r s.
             if r = 0 then Ok () s
             else rbind (cprintf (''pid %d: page fault at 0x%x - invalid memory access'' @ [CHR 0x0A])
                           [FInt (word_of_int (p_pid (procs s ! i))), FInt faultaddr] s) (\<lambda>_ s.
               Ok () (upd_proc i (\<lambda>p. p\<lparr>p_killed := True\<rparr>) s))))"

definition from_user :: "trapframe \<Rightarrow> bool" where
  "from_user tf \<longleftrightarrow> tf_cs tf AND 3 = DPL_USER"

definition trap_default :: "trapenv \<Rightarrow> trapframe \<Rightarrow> 'a kst_scheme \<Rightarrow> ('a kst_scheme, unit) res" where
  "trap_default e tf s =
     rbind (myproc s) (\<lambda>p s.
     rbind (cpuid s) (\<lambda>c s.
       case (if tf_cs tf AND 3 = 0 then None else p) of
         None \<Rightarrow>
           rbind (cprintf (''unexpected trap %d from cpu %d eip %x (cr2=0x%x)'' @ [CHR 0x0A])
                    [FInt (tf_trapno tf), FInt (of_nat c), FInt (tf_eip tf), FInt (te_cr2 e)] s) (\<lambda>_ _.
             Panic ''trap'')
       | Some i \<Rightarrow>
           rbind (cprintf (''pid %d %s: trap %d err %d on cpu %d eip 0x%x addr 0x%x--kill proc'' @ [CHR 0x0A])
                    [FInt (word_of_int (p_pid (procs s ! i))), FStr (Some (c_string (p_name (procs s ! i)))),
                     FInt (tf_trapno tf), FInt (tf_err tf), FInt (of_nat c), FInt (tf_eip tf), FInt (te_cr2 e)] s) (\<lambda>_ s.
             Ok () (upd_proc i (\<lambda>p. p\<lparr>p_killed := True\<rparr>) s))))"

text \<open>The \<^verbatim>\<open>switch\<close> on the trap number.\<close>

definition trap_switch :: "trapenv \<Rightarrow> trapframe \<Rightarrow> 'a kst_scheme \<Rightarrow> ('a kst_scheme, unit) res" where
  "trap_switch e tf s =
     (let n = tf_trapno tf in
      if n = T_IRQ0 + IRQ_TIMER then trap_timer s
      else if n = T_IRQ0 + IRQ_IDE then ideintr s
      else if n = T_IRQ0 + IRQ_IDE + 1 then Ok () s
      else if n = T_IRQ0 + IRQ_KBD then kbdintr (te_kbd e) (te_pcs e) s
      else if n = T_IRQ0 + IRQ_COM1 then uartintr (te_uart e) (te_pcs e) s
      else if n = T_IRQ0 + 7 \<or> n = T_IRQ0 + IRQ_SPURIOUS then
        rbind (cpuid s) (\<lambda>c s.
          cprintf (''cpu%d: spurious interrupt at %x:%x'' @ [CHR 0x0A])
            [FInt (of_nat c), FInt (ucast (tf_cs tf)), FInt (tf_eip tf)] s)
      else if n = T_PGFLT then trap_pgflt (te_cr2 e) s
      else trap_default e tf s)"

text \<open>\<^verbatim>\<open>if(myproc() && myproc()->killed && (tf->cs&3) == DPL_USER) exit();\<close>\<close>

definition trap_kill :: "trapframe \<Rightarrow> 'a ftst_scheme \<Rightarrow> ('a ftst_scheme, unit) res" where
  "trap_kill tf s =
     rbind (myproc s) (\<lambda>p s.
       case p of None \<Rightarrow> Ok () s
       | Some i \<Rightarrow> if p_killed (procs s ! i) \<and> from_user tf then exit s else Ok () s)"

definition trap_yield :: "trapframe \<Rightarrow> 'a ptab_scheme \<Rightarrow> ('a ptab_scheme, unit) res" where
  "trap_yield tf s =
     rbind (myproc s) (\<lambda>p s.
       case p of None \<Rightarrow> Ok () s
       | Some i \<Rightarrow>
           if p_state (procs s ! i) = RUNNING \<and> tf_trapno tf = T_IRQ0 + IRQ_TIMER then yield s else Ok () s)"

definition trap :: "trapenv \<Rightarrow> trapframe \<Rightarrow> 'a kst_scheme \<Rightarrow> ('a kst_scheme, unit) res" where
  "trap e tf s =
     (if tf_trapno tf = T_SYSCALL then trap_syscall tf s
      else
        rbind (trap_switch e tf s) (\<lambda>_ s.
        rbind (trap_kill tf s) (\<lambda>_ s.
        rbind (trap_yield tf s) (\<lambda>_ s. trap_kill tf s))))"

end
