(* ===== verification/Grep.thy ===== *)
theory Grep
  imports Console
begin

text \<open>
  \<^verbatim>\<open>grep.c\<close>: the regular expression matcher and the function \<^verbatim>\<open>grep\<close>. A C string is the list of the
  bytes before its terminator, so a test for \<^verbatim>\<open>'\0'\<close> is a test for the end of the list. The matcher
  is compared with the language that a pattern denotes, and \<^verbatim>\<open>grep\<close> with the filter on the lines of
  its input.
\<close>

section \<open>The matcher\<close>

abbreviation "c_star \<equiv> (0x2A :: u8)"
abbreviation "c_dot \<equiv> (0x2E :: u8)"
abbreviation "c_dollar \<equiv> (0x24 :: u8)"
abbreviation "c_caret \<equiv> (0x5E :: u8)"
abbreviation "c_nl \<equiv> (0x0A :: u8)"

function (sequential) matchhere :: "u8 list \<Rightarrow> u8 list \<Rightarrow> bool"
  and matchstar :: "u8 \<Rightarrow> u8 list \<Rightarrow> u8 list \<Rightarrow> bool" where
  "matchhere [] tx = True"
| "matchhere (c # re) tx =
     (if re \<noteq> [] \<and> hd re = c_star then matchstar c (tl re) tx
      else if c = c_dollar \<and> re = [] then tx = []
      else if tx \<noteq> [] \<and> (c = c_dot \<or> c = hd tx) then matchhere re (tl tx)
      else False)"
| "matchstar c re tx =
     (if matchhere re tx then True
      else if tx \<noteq> [] \<and> (hd tx = c \<or> c = c_dot) then matchstar c re (tl tx)
      else False)"
  by pat_completeness auto
termination
  by (relation "measure (\<lambda>x. case x of Inl (re, t) \<Rightarrow> 2 * (length re + length t)
                               | Inr (c, re, t) \<Rightarrow> 2 * (length re + length t) + 1)")
     (auto simp: neq_Nil_conv)

declare matchhere.simps [simp del] matchstar.simps [simp del]

fun match_from :: "u8 list \<Rightarrow> u8 list \<Rightarrow> bool" where
  "match_from re [] = matchhere re []"
| "match_from re (x # tx) = (if matchhere re (x # tx) then True else match_from re tx)"

definition match :: "u8 list \<Rightarrow> u8 list \<Rightarrow> bool" where
  "match re tx =
     (if re \<noteq> [] \<and> hd re = c_caret then matchhere (tl re) tx else match_from re tx)"

section \<open>The language of a pattern\<close>

text \<open>
  The items of a pattern: a character and whether it is starred. A \<^verbatim>\<open>$\<close> that ends the pattern is
  not an item; it anchors the match at the end of the text.
\<close>

fun items :: "u8 list \<Rightarrow> (u8 \<times> bool) list" where
  "items [] = []"
| "items [c] = (if c = c_dollar then [] else [(c, False)])"
| "items (c # d # re) = (if d = c_star then (c, True) # items re else (c, False) # items (d # re))"

fun anchored :: "u8 list \<Rightarrow> bool" where
  "anchored [] = False"
| "anchored [c] = (c = c_dollar)"
| "anchored (c # d # re) = (if d = c_star then anchored re else anchored (d # re))"

definition fits :: "u8 \<Rightarrow> u8 \<Rightarrow> bool" where
  "fits c x \<longleftrightarrow> c = c_dot \<or> c = x"

fun lang :: "(u8 \<times> bool) list \<Rightarrow> u8 list set" where
  "lang [] = {[]}"
| "lang ((c, False) # is) = {x # w | x w. fits c x \<and> w \<in> lang is}"
| "lang ((c, True) # is) = {u @ w | u w. list_all (fits c) u \<and> w \<in> lang is}"

text \<open>\<open>denotes re tx\<close>: a prefix of the text is in the language, all of it when the pattern is anchored.\<close>

definition denotes :: "u8 list \<Rightarrow> u8 list \<Rightarrow> bool" where
  "denotes re tx \<longleftrightarrow> (\<exists>w post. tx = w @ post \<and> w \<in> lang (items re) \<and> (anchored re \<longrightarrow> post = []))"

lemma denotes_star:
  "denotes (c # c_star # re) tx \<longleftrightarrow> (\<exists>u t. tx = u @ t \<and> list_all (fits c) u \<and> denotes re t)"
  (is "?L \<longleftrightarrow> ?R")
proof
  assume ?L
  then obtain v post where v: "tx = v @ post" "v \<in> lang ((c, True) # items re)" "anchored re \<longrightarrow> post = []"
    unfolding denotes_def by auto
  then obtain u w where "v = u @ w" "list_all (fits c) u" "w \<in> lang (items re)" by auto
  with v show ?R unfolding denotes_def
    by (intro exI [of _ u] exI [of _ "w @ post"] conjI exI [of _ w] exI [of _ post]) simp_all
next
  assume ?R
  then obtain u w post where "tx = u @ w @ post" "list_all (fits c) u" "w \<in> lang (items re)"
    "anchored re \<longrightarrow> post = []" unfolding denotes_def by blast
  then show ?L unfolding denotes_def
    by (intro exI [of _ "u @ w"] exI [of _ post] conjI) (simp_all, blast)
qed

lemma denotes_char:
  assumes "re = [] \<or> hd re \<noteq> c_star" "\<not> (c = c_dollar \<and> re = [])"
  shows "denotes (c # re) tx \<longleftrightarrow> (\<exists>x t. tx = x # t \<and> fits c x \<and> denotes re t)"
proof -
  have l: "lang (items (c # re)) = {x # w | x w. fits c x \<and> w \<in> lang (items re)}"
    "anchored (c # re) = anchored re"
    using assms by (cases re; simp)+
  show ?thesis
  proof
    assume "denotes (c # re) tx"
    then obtain v post where "tx = v @ post" "v \<in> lang (items (c # re))" "anchored re \<longrightarrow> post = []"
      unfolding denotes_def l by blast
    then obtain x w where "tx = x # (w @ post)" "fits c x" "w \<in> lang (items re)" unfolding l by force
    with \<open>anchored re \<longrightarrow> post = []\<close> show "\<exists>x t. tx = x # t \<and> fits c x \<and> denotes re t"
      unfolding denotes_def by blast
  next
    assume "\<exists>x t. tx = x # t \<and> fits c x \<and> denotes re t"
    then obtain x w post where "tx = (x # w) @ post" "fits c x" "w \<in> lang (items re)"
      "anchored re \<longrightarrow> post = []" unfolding denotes_def by auto
    then show "denotes (c # re) tx" unfolding denotes_def l by blast
  qed
qed

lemma denotes_dollar: "denotes [c_dollar] tx \<longleftrightarrow> tx = []"
  by (auto simp: denotes_def)

lemma denotes_Nil: "denotes [] tx"
  by (simp add: denotes_def)

text \<open>The loop of \<^verbatim>\<open>matchstar\<close> tries every number of repetitions, the smallest first.\<close>

lemma star_step:
  "(\<exists>u t. tx = u @ t \<and> list_all (fits c) u \<and> P t) \<longleftrightarrow>
     P tx \<or> (tx \<noteq> [] \<and> fits c (hd tx) \<and> (\<exists>u t. tl tx = u @ t \<and> list_all (fits c) u \<and> P t))"
  (is "?L \<longleftrightarrow> ?R")
proof
  assume ?L
  then obtain u t where "tx = u @ t" "list_all (fits c) u" "P t" by blast
  then show ?R by (cases u) auto
next
  assume ?R
  then show ?L
  proof
    assume "P tx" then show ?L by (intro exI [of _ "[]"] exI [of _ tx]) simp
  next
    assume "tx \<noteq> [] \<and> fits c (hd tx) \<and> (\<exists>u t. tl tx = u @ t \<and> list_all (fits c) u \<and> P t)"
    then obtain u t where "tx = (hd tx # u) @ t" "list_all (fits c) (hd tx # u)" "P t"
      by (cases tx) auto
    then show ?L by blast
  qed
qed

lemma matchhere_denotes:
  "matchhere re tx \<longleftrightarrow> denotes re tx"
  "matchstar c re tx \<longleftrightarrow> (\<exists>u t. tx = u @ t \<and> list_all (fits c) u \<and> denotes re t)"
proof (induction re tx and c re tx rule: matchhere_matchstar.induct)
  case (1 tx) then show ?case by (simp add: denotes_Nil matchhere.simps)
next
  case (2 c re tx)
  show ?case
  proof (cases "re \<noteq> [] \<and> hd re = c_star")
    case True
    then obtain re' where re: "re = c_star # re'" by (cases re) auto
    with 2(1) show ?thesis by (simp add: matchhere.simps denotes_star)
  next
    case False
    show ?thesis
    proof (cases "c = c_dollar \<and> re = []")
      case True then show ?thesis by (simp add: matchhere.simps denotes_dollar)
    next
      case nd: False
      have "matchhere (c # re) tx \<longleftrightarrow> tx \<noteq> [] \<and> fits c (hd tx) \<and> denotes re (tl tx)"
        using False nd 2(2) by (auto simp: matchhere.simps fits_def)
      also have "\<dots> \<longleftrightarrow> denotes (c # re) tx"
        using False nd by (subst denotes_char) (auto simp: neq_Nil_conv)
      finally show ?thesis .
    qed
  qed
next
  case (3 c re tx)
  have h: "matchhere re tx \<longleftrightarrow> denotes re tx" by (rule 3(1))
  have l: "matchstar c re (tl tx) \<longleftrightarrow> (\<exists>u t. tl tx = u @ t \<and> list_all (fits c) u \<and> denotes re t)"
    if "\<not> denotes re tx" "tx \<noteq> []" "fits c (hd tx)"
  proof -
    from that(3) have "hd tx = c \<or> c = c_dot" by (auto simp: fits_def)
    with that(1,2) h show ?thesis by (intro 3(2)) simp_all
  qed
  have "matchstar c re tx \<longleftrightarrow> denotes re tx \<or> (tx \<noteq> [] \<and> fits c (hd tx) \<and> matchstar c re (tl tx))"
    by (auto simp: matchstar.simps [of c re tx] h fits_def)
  also have "\<dots> \<longleftrightarrow> (\<exists>u t. tx = u @ t \<and> list_all (fits c) u \<and> denotes re t)"
    using l by (subst star_step) blast
  finally show ?case .
qed

lemma match_from_iff: "match_from re tx \<longleftrightarrow> (\<exists>pre t. tx = pre @ t \<and> denotes re t)"
proof (induction tx)
  case Nil then show ?case by (simp add: matchhere_denotes)
next
  case (Cons x tx)
  have "(\<exists>pre t. x # tx = pre @ t \<and> denotes re t) \<longleftrightarrow>
      denotes re (x # tx) \<or> (\<exists>pre t. tx = pre @ t \<and> denotes re t)"
    by (auto simp: Cons_eq_append_conv)
  with Cons show ?case by (simp add: matchhere_denotes)
qed

text \<open>
  C35. \<^verbatim>\<open>match\<close> decides exactly whether the text contains the pattern: some substring of the text is
  in the language of the pattern's items (characters, dots and stars), at the start of the text when
  the pattern begins with \<^verbatim>\<open>^\<close> and up to its end when the pattern ends with \<^verbatim>\<open>$\<close>.
\<close>

theorem grep_match_correct:
  "match re tx \<longleftrightarrow>
     (\<exists>pre w post. tx = pre @ w @ post
        \<and> w \<in> lang (items (if re \<noteq> [] \<and> hd re = c_caret then tl re else re))
        \<and> (re \<noteq> [] \<and> hd re = c_caret \<longrightarrow> pre = [])
        \<and> (anchored (if re \<noteq> [] \<and> hd re = c_caret then tl re else re) \<longrightarrow> post = []))"
proof (cases "re \<noteq> [] \<and> hd re = c_caret")
  case True
  then obtain r where "re = c_caret # r" by (cases re) auto
  then show ?thesis by (simp add: match_def matchhere_denotes denotes_def)
next
  case False
  then have "match re tx \<longleftrightarrow> (\<exists>pre t. tx = pre @ t \<and> denotes re t)"
    by (simp only: match_def match_from_iff if_False)
  then show ?thesis unfolding if_not_P [OF False] denotes_def using False by blast
qed

theorem grep_match_correct_witness:
  "match (asc ''^ab*c$'') (asc ''abbc'') \<and> (\<exists>pre w post. asc ''abbc'' = pre @ w @ post
     \<and> w \<in> lang (items (asc ''ab*c$'')) \<and> pre = [] \<and> post = [])"
proof -
  have "match (asc ''^ab*c$'') (asc ''abbc'')" by (simp add: match_def asc_def matchhere.simps matchstar.simps)
  moreover have "anchored (asc ''ab*c$'')" by (simp add: asc_def)
  ultimately show ?thesis
    using grep_match_correct [of "asc ''^ab*c$''" "asc ''abbc''"] by (simp add: asc_def)
qed

section \<open>The lines of the input\<close>

text \<open>
  The loop over the newlines of the buffer, for the bytes from \<^verbatim>\<open>p\<close> to \<^verbatim>\<open>buf+m\<close>: \<^verbatim>\<open>strchr\<close> stops at
  a null byte. The result is what is written and the bytes after the last newline.
\<close>

function grep_lines :: "u8 list \<Rightarrow> u8 list \<Rightarrow> u8 list list \<times> u8 list" where
  "grep_lines pat xs =
     (let p = takeWhile (\<lambda>c. c \<noteq> c_nl \<and> c \<noteq> 0) xs; rest = drop (length p) xs in
      if rest = [] \<or> hd rest = 0 then ([], xs)
      else let (ws, r) = grep_lines pat (tl rest) in
        (if match pat p then (p @ [c_nl]) # ws else ws, r))"
  by pat_completeness auto
termination by (relation "measure (\<lambda>(pat, xs). length xs)") (auto simp: neq_Nil_conv)

declare grep_lines.simps [simp del]

text \<open>
  The outer loop. \<open>chunks\<close> are what the successive calls of \<^verbatim>\<open>read\<close> return until one returns no
  bytes, and \<open>buf\<close> is the contents of the buffer up to \<^verbatim>\<open>m\<close>; a call asks for no more bytes than fit.
\<close>

fun grep_chunks :: "u8 list \<Rightarrow> u8 list \<Rightarrow> u8 list list \<Rightarrow> u8 list list" where
  "grep_chunks pat buf [] = []"
| "grep_chunks pat buf (c # chunks) =
     (let xs = buf @ c; (ws, p) = grep_lines pat xs
      in ws @ grep_chunks pat (if p = xs then [] else p) chunks)"

definition grep :: "u8 list \<Rightarrow> u8 list list \<Rightarrow> u8 list list" where
  "grep pat chunks = grep_chunks pat [] chunks"

text \<open>The complete lines of a byte sequence, without their newlines, and what follows the last newline.\<close>

fun lines :: "u8 list \<Rightarrow> u8 list list" where
  "lines [] = []"
| "lines (x # xs) =
     (if x = c_nl then [] # lines xs
      else if c_nl \<in> set xs then (x # hd (lines xs)) # tl (lines xs) else [])"

fun unfinished :: "u8 list \<Rightarrow> u8 list" where
  "unfinished [] = []"
| "unfinished (x # xs) = (if c_nl \<in> set (x # xs) then unfinished xs else x # xs)"

lemma lines_Nil_iff: "lines xs = [] \<longleftrightarrow> c_nl \<notin> set xs"
  by (induction xs) auto

lemma lines_split: "c_nl \<notin> set p \<Longrightarrow> lines (p @ c_nl # xs) = p # lines xs"
  by (induction p) auto

lemma unfinished_id: "c_nl \<notin> set xs \<Longrightarrow> unfinished xs = xs"
  by (cases xs) auto

lemma unfinished_split: "unfinished (p @ c_nl # xs) = unfinished xs"
  by (induction p) auto

lemma unfinished_no_nl: "c_nl \<notin> set (unfinished xs)"
  by (induction xs) auto

lemma set_unfinished: "set (unfinished xs) \<subseteq> set xs"
  by (induction xs) auto

lemma lines_append: "lines (xs @ ys) = lines xs @ lines (unfinished xs @ ys)"
proof (induction xs)
  case (Cons x xs)
  show ?case
  proof (cases "x = c_nl \<or> c_nl \<in> set xs")
    case True
    moreover from this Cons have "lines xs \<noteq> []" if "x \<noteq> c_nl" using that by (simp add: lines_Nil_iff)
    ultimately show ?thesis using Cons by (auto simp: hd_append)
  next
    case False then show ?thesis by auto
  qed
qed simp

definition selected :: "u8 list \<Rightarrow> u8 list \<Rightarrow> u8 list list" where
  "selected pat xs = map (\<lambda>l. l @ [c_nl]) (filter (match pat) (lines xs))"

lemma takeWhile_plain:
  assumes "c_nl \<notin> set p" "0 \<notin> set p"
  shows "takeWhile (\<lambda>c. c \<noteq> c_nl \<and> c \<noteq> 0) p = p"
    "takeWhile (\<lambda>c. c \<noteq> c_nl \<and> c \<noteq> 0) (p @ c_nl # r) = p"
proof -
  have "\<forall>c\<in>set p. c \<noteq> c_nl \<and> c \<noteq> 0" using assms by auto
  then show "takeWhile (\<lambda>c. c \<noteq> c_nl \<and> c \<noteq> 0) p = p"
    "takeWhile (\<lambda>c. c \<noteq> c_nl \<and> c \<noteq> 0) (p @ c_nl # r) = p" by (simp_all add: takeWhile_append2)
qed

lemma grep_lines_eq:
  "0 \<notin> set xs \<Longrightarrow> grep_lines pat xs = (selected pat xs, unfinished xs)"
proof (induction "length xs" arbitrary: xs rule: less_induct)
  case less
  show ?case
  proof (cases "c_nl \<in> set xs")
    case False
    with less.prems show ?thesis unfolding grep_lines.simps [of pat xs]
      by (simp add: takeWhile_plain selected_def unfinished_id lines_Nil_iff [THEN iffD2])
  next
    case True
    then obtain p r where xs: "xs = p @ c_nl # r" and p: "c_nl \<notin> set p" by (auto dest: split_list_first)
    with less have "grep_lines pat r = (selected pat r, unfinished r)" "0 \<notin> set p" by auto
    with p show ?thesis unfolding grep_lines.simps [of pat xs]
      by (simp add: xs takeWhile_plain selected_def lines_split unfinished_split)
  qed
qed

lemma grep_chunks_eq:
  assumes "\<forall>c\<in>set chunks. c_nl \<in> set c \<and> 0 \<notin> set c" "0 \<notin> set buf" "c_nl \<notin> set buf"
  shows "grep_chunks pat buf chunks = selected pat (buf @ concat chunks)"
  using assms
proof (induction chunks arbitrary: buf)
  case Nil then show ?case by (simp add: selected_def lines_Nil_iff [THEN iffD2])
next
  case (Cons c chunks)
  define xs where "xs = buf @ c"
  have z: "0 \<notin> set xs" and n: "c_nl \<in> set xs" using Cons.prems by (auto simp: xs_def)
  have u: "unfinished xs \<noteq> xs" using n unfinished_no_nl [of xs] by metis
  have "grep_chunks pat (unfinished xs) chunks = selected pat (unfinished xs @ concat chunks)"
    using Cons.prems z set_unfinished [of xs] unfinished_no_nl by (intro Cons.IH) auto
  then have "grep_chunks pat buf (c # chunks) = selected pat xs @ selected pat (unfinished xs @ concat chunks)"
    using u by (simp add: Let_def grep_lines_eq [OF z] flip: xs_def)
  also have "\<dots> = selected pat (xs @ concat chunks)"
    by (simp add: selected_def lines_append [of xs])
  finally show ?case by (simp add: xs_def)
qed



end
