(* ===== verification/User.thy ===== *)
theory User
  imports Console
begin

text \<open>
  User programs and their library. A program is what it does next: it returns, exits, or makes a
  system call (the stubs of \<^verbatim>\<open>usys.S\<close>, declared in \<^verbatim>\<open>user.h\<close>) and goes on with the integer the call returns and
  the bytes it stored in the program's memory. A program need not end, so programs are a codatatype;
  \<open>Diverge\<close> is a loop that makes no system call. A C string is the list of the bytes before its
  terminator. This theory has the functions of \<^verbatim>\<open>ulib.c\<close> and \<^verbatim>\<open>printf.c\<close>.
\<close>

section \<open>Programs\<close>

datatype sysreq =
    S_fork | S_wait | S_pipe | S_write int "u8 list" | S_read int int | S_close int
  | S_setpriority int int | S_kill int | S_exec "u8 list" "u8 list list" | S_open "u8 list" u32
  | S_mknod "u8 list" int int | S_unlink "u8 list" | S_fstat int | S_link "u8 list" "u8 list"
  | S_mkdir "u8 list" | S_chdir "u8 list" | S_dup int | S_getpid | S_sbrk int | S_sleep int | S_uptime

codatatype 'a prog = Ret 'a | Exit | Diverge | Sys sysreq "int \<times> u8 list \<Rightarrow> 'a prog"

primcorec pbind :: "'a prog \<Rightarrow> ('a \<Rightarrow> 'b prog) \<Rightarrow> 'b prog" where
  "pbind p f =
     (case p of Ret a \<Rightarrow> f a | Exit \<Rightarrow> Exit | Diverge \<Rightarrow> Diverge | Sys r k \<Rightarrow> Sys r (\<lambda>v. pbind (k v) f))"

lemma pbind_simps [simp]:
  "pbind (Ret a) f = f a"
  "pbind Exit f = Exit"
  "pbind Diverge f = Diverge"
  "pbind (Sys r k) f = Sys r (\<lambda>v. pbind (k v) f)"
  by (subst pbind.code; simp)+

text \<open>The return value of a system call, and a call whose result is not used.\<close>

definition sys :: "sysreq \<Rightarrow> int prog" where
  "sys r = Sys r (\<lambda>v. Ret (fst v))"

definition do_sys :: "sysreq \<Rightarrow> unit prog" where
  "do_sys r = Sys r (\<lambda>v. Ret ())"

text \<open>A loop with the state \<open>st\<close>: the body returns \<open>Inl a\<close> to leave it and \<open>Inr st'\<close> to go round.\<close>

primcorec ploop_from :: "('s \<Rightarrow> ('a + 's) prog) \<Rightarrow> ('a + 's) prog \<Rightarrow> 'a prog" where
  "ploop_from b p =
     (case p of
        Exit \<Rightarrow> Exit | Diverge \<Rightarrow> Diverge
      | Sys r k \<Rightarrow> Sys r (\<lambda>v. ploop_from b (k v))
      | Ret x \<Rightarrow>
         (case x of Inl a \<Rightarrow> Ret a
          | Inr st \<Rightarrow>
             (case b st of
                Exit \<Rightarrow> Exit | Diverge \<Rightarrow> Diverge
              | Sys r k \<Rightarrow> Sys r (\<lambda>v. ploop_from b (k v))
              | Ret y \<Rightarrow> (case y of Inl a \<Rightarrow> Ret a | Inr _ \<Rightarrow> Diverge))))"

definition ploop :: "('s \<Rightarrow> ('a + 's) prog) \<Rightarrow> 's \<Rightarrow> 'a prog" where
  "ploop b st = ploop_from b (Ret (Inr st))"

lemma ploop_from_simps [simp]:
  "ploop_from b (Ret (Inl a)) = Ret a"
  "ploop_from b (Ret (Inr st)) = ploop b st"
  "ploop_from b Exit = Exit"
  "ploop_from b Diverge = Diverge"
  "ploop_from b (Sys r k) = Sys r (\<lambda>v. ploop_from b (k v))"
  by (simp_all add: ploop_def) (subst ploop_from.code; simp)+

lemma ploop_unfold:
  "ploop b st =
     (case b st of
        Exit \<Rightarrow> Exit | Diverge \<Rightarrow> Diverge
      | Sys r k \<Rightarrow> Sys r (\<lambda>v. ploop_from b (k v))
      | Ret y \<Rightarrow> (case y of Inl a \<Rightarrow> Ret a | Inr _ \<Rightarrow> Diverge))"
  unfolding ploop_def by (subst ploop_from.code) simp

lemma ploop_Sys: "b st = Sys r k \<Longrightarrow> ploop b st = Sys r (\<lambda>v. ploop_from b (k v))"
  by (simp add: ploop_unfold)

text \<open>\<open>for(x in xs) f x\<close>\<close>

primrec pseq :: "('a \<Rightarrow> unit prog) \<Rightarrow> 'a list \<Rightarrow> unit prog" where
  "pseq f [] = Ret ()"
| "pseq f (x # xs) = pbind (f x) (\<lambda>_. pseq f xs)"

text \<open>
  A run of a program in a world \<open>w\<close> that answers its system calls by \<open>h\<close>: \<open>run h p w r w'\<close> ends in
  \<open>w'\<close> with the value \<open>Some a\<close> returned, or with \<^const>\<open>None\<close> when the program exits.
\<close>

inductive run :: "(sysreq \<Rightarrow> 'w \<Rightarrow> (int \<times> u8 list) \<times> 'w) \<Rightarrow> 'a prog \<Rightarrow> 'w \<Rightarrow> 'a option \<Rightarrow> 'w \<Rightarrow> bool" for h where
  run_Ret: "run h (Ret a) w (Some a) w"
| run_Exit: "run h Exit w None w"
| run_Sys: "h r w = (v, w') \<Longrightarrow> run h (k v) w' a w'' \<Longrightarrow> run h (Sys r k) w a w''"

inductive_simps run_simps [simp]:
  "run h (Ret a) w r w'"
  "run h Exit w r w'"
  "run h Diverge w r w'"
  "run h (Sys q k) w r w'"

lemma run_bind:
  assumes "run h p w (Some a) w'" "run h (f a) w' r w''"
  shows "run h (pbind p f) w r w''"
  using assms by (induction p w "Some a" w' rule: run.induct) (simp_all del: run_simps add: run_Sys)

lemma run_bind_Exit:
  fixes p :: "'a prog"
  assumes "run h p w None w'"
  shows "run h (pbind p f) w None w'"
  using assms by (induction p w "None :: 'a option" w' rule: run.induct)
    (simp_all del: run_simps add: run_Sys run_Exit)

lemma run_det: "run h p w r w' \<Longrightarrow> run h p w r' w'' \<Longrightarrow> r' = r \<and> w'' = w'"
proof (induction arbitrary: r' w'' rule: run.induct)
  case (run_Sys q w v w1 k a w2)
  from run_Sys.prems obtain v' w1' where "h q w = (v', w1')" "run h (k v') w1' r' w''" by auto
  with run_Sys show ?case by simp
qed auto

lemma run_ploop_from:
  fixes p :: "('a + 's) prog"
  assumes "run h p w (Some x) w'" "run h (ploop_from b (Ret x)) w' r w''"
  shows "run h (ploop_from b p) w r w''"
  using assms by (induction p w "Some x" w' rule: run.induct) (simp_all del: run_simps add: run_Sys)

lemma run_ploop_step:
  fixes q :: "'s \<Rightarrow> sysreq"
  assumes "h (q st) w = (v, w1)" "run h (k st v) w1 (Some x) w2"
    and "run h (ploop_from (\<lambda>st. Sys (q st) (k st)) (Ret x)) w2 r w3"
  shows "run h (ploop (\<lambda>st. Sys (q st) (k st)) st) w r w3"
proof -
  let ?b = "\<lambda>st. Sys (q st) (k st)"
  have "run h (Sys (q st) (\<lambda>v. ploop_from ?b (k st v))) w r w3"
    using assms(1) run_ploop_from [OF assms(2,3)] by (rule run_Sys)
  then show ?thesis by (simp only: ploop_Sys [of ?b st, OF refl])
qed

lemma run_pseq:
  assumes "\<And>x w. run h (f x) w (Some ()) (g x w)"
  shows "run h (pseq f xs) w (Some ()) (fold g xs w)"
  by (induction xs arbitrary: w) (auto intro: run_bind assms)

section \<open>Library\<close>

fun u_strcmp :: "u8 list \<Rightarrow> u8 list \<Rightarrow> int" where
  "u_strcmp (p # ps) (q # qs) = (if p = q then u_strcmp ps qs else uint p - uint q)"
| "u_strcmp (p # ps) [] = uint p"
| "u_strcmp [] (q # qs) = - uint q"
| "u_strcmp [] [] = 0"

text \<open>\<^verbatim>\<open>strchr\<close>: the tail of the string that starts with the character.\<close>

fun strchr :: "u8 list \<Rightarrow> u8 \<Rightarrow> u8 list option" where
  "strchr [] c = None"
| "strchr (x # s) c = (if x = c then Some (x # s) else strchr s c)"

text \<open>
  \<^verbatim>\<open>atoi\<close>, in C's 32-bit \<^verbatim>\<open>int\<close>; where the addition overflows the C code is undefined, and the model
  wraps around.
\<close>

fun atoi_from :: "u32 \<Rightarrow> u8 list \<Rightarrow> u32" where
  "atoi_from n [] = n"
| "atoi_from n (c # s) =
     (if 0x30 \<le> c \<and> c \<le> 0x39 then atoi_from (n * 10 + ucast c - 0x30) s else n)"

definition atoi :: "u8 list \<Rightarrow> u32" where
  "atoi s = atoi_from 0 s"

text \<open>
  \<^verbatim>\<open>gets(buf, max)\<close>: the bytes stored before the terminator. The number \<open>n\<close> is what is left of
  \<^verbatim>\<open>max - 1\<close>.
\<close>

primrec gets_from :: "nat \<Rightarrow> u8 list prog" where
  "gets_from 0 = Ret []"
| "gets_from (Suc n) =
     Sys (S_read 0 1) (\<lambda>(cc, bs).
       if cc < 1 then Ret []
       else let c = hd bs in
         if c = 0x0A \<or> c = 0x0D then Ret [c]
         else pbind (gets_from n) (\<lambda>cs. Ret (c # cs)))"

definition gets :: "nat \<Rightarrow> u8 list prog" where
  "gets m = gets_from (m - 1)"

definition u_stat :: "u8 list \<Rightarrow> (int \<times> u8 list) prog" where
  "u_stat n =
     pbind (sys (S_open n 0)) (\<lambda>fd.
       if fd < 0 then Ret (-1, [])
       else Sys (S_fstat fd) (\<lambda>r. pbind (do_sys (S_close fd)) (\<lambda>_. Ret r)))"

section \<open>printf\<close>

definition u_digits :: "u8 list" where
  "u_digits = asc ''0123456789ABCDEF''"

function u_printint_buf :: "nat \<Rightarrow> nat \<Rightarrow> u8 list" where
  "u_printint_buf x base =
     (if base < 2 then []
      else u_digits ! (x mod base) # (if x div base \<noteq> 0 then u_printint_buf (x div base) base else []))"
  by pat_completeness auto
termination
  by (relation "measure fst") (auto simp: div_greater_zero_iff intro!: div_less_dividend)

declare u_printint_buf.simps [simp del]

definition u_printint :: "u32 \<Rightarrow> nat \<Rightarrow> bool \<Rightarrow> u8 list" where
  "u_printint xx base sg =
     (let neg = sg \<and> sint xx < 0; x = (if neg then - xx else xx);
          buf = u_printint_buf (unat x) base @ (if neg then asc ''-'' else [])
      in rev buf)"

text \<open>
  The characters that \<^verbatim>\<open>printf\<close> writes; \<open>pct\<close> is \<^verbatim>\<open>state == '%'\<close>. An argument that is missing, or not of
  the kind that the directive reads, is undefined in C and \<^const>\<open>None\<close> here.
\<close>

fun printf_bytes :: "bool \<Rightarrow> u8 list \<Rightarrow> fmtarg list \<Rightarrow> u8 list option" where
  "printf_bytes pct [] args = Some []"
| "printf_bytes False (c # fmt) args =
     (if c = 0x25 then printf_bytes True fmt args else map_option (Cons c) (printf_bytes False fmt args))"
| "printf_bytes True (c # fmt) args =
     (if c = of_char CHR ''d'' then
        (case args of FInt x # args \<Rightarrow> map_option (append (u_printint x 10 True)) (printf_bytes False fmt args) | _ \<Rightarrow> None)
      else if c = of_char CHR ''x'' \<or> c = of_char CHR ''p'' then
        (case args of FInt x # args \<Rightarrow> map_option (append (u_printint x 16 False)) (printf_bytes False fmt args) | _ \<Rightarrow> None)
      else if c = of_char CHR ''s'' then
        (case args of
           FStr x # args \<Rightarrow> map_option (append (case x of None \<Rightarrow> asc ''(null)'' | Some t \<Rightarrow> t)) (printf_bytes False fmt args)
         | _ \<Rightarrow> None)
      else if c = of_char CHR ''c'' then
        (case args of FInt x # args \<Rightarrow> map_option (Cons (ucast x)) (printf_bytes False fmt args) | _ \<Rightarrow> None)
      else if c = 0x25 then map_option (Cons c) (printf_bytes False fmt args)
      else map_option (\<lambda>t. 0x25 # c # t) (printf_bytes False fmt args))"

definition u_putc :: "int \<Rightarrow> u8 \<Rightarrow> unit prog" where
  "u_putc fd c = do_sys (S_write fd [c])"

definition printf :: "int \<Rightarrow> string \<Rightarrow> fmtarg list \<Rightarrow> unit prog" where
  "printf fd fmt args =
     (case printf_bytes False (asc fmt) args of None \<Rightarrow> Diverge | Some cs \<Rightarrow> pseq (u_putc fd) cs)"

abbreviation nl :: string where "nl \<equiv> [CHR 0x0A]"

abbreviation str :: "u8 list \<Rightarrow> fmtarg" where "str s \<equiv> FStr (Some s)"

section \<open>Decimal numbers\<close>

definition is_digit :: "u8 \<Rightarrow> bool" where
  "is_digit c \<longleftrightarrow> 0x30 \<le> c \<and> c \<le> 0x39"

lemma atoi_from_snoc:
  "list_all is_digit xs \<Longrightarrow> is_digit d \<Longrightarrow> atoi_from n (xs @ [d]) = atoi_from n xs * 10 + (ucast d - 0x30)"
  by (induction xs arbitrary: n) (auto simp: is_digit_def)

lemma u_digits_eq:
  "u_digits = [0x30, 0x31, 0x32, 0x33, 0x34, 0x35, 0x36, 0x37, 0x38, 0x39, 0x41, 0x42, 0x43, 0x44, 0x45, 0x46]"
  by (simp add: u_digits_def asc_def)

lemma digit_value:
  assumes "i < 10"
  shows "is_digit (u_digits ! i)" "ucast (u_digits ! i) - 0x30 = (of_nat i :: u32)"
proof -
  from assms have "i = 0 \<or> i = 1 \<or> i = 2 \<or> i = 3 \<or> i = 4 \<or> i = 5 \<or> i = 6 \<or> i = 7 \<or> i = 8 \<or> i = 9" by arith
  then show "is_digit (u_digits ! i)" "ucast (u_digits ! i) - 0x30 = (of_nat i :: u32)"
    unfolding u_digits_eq is_digit_def by (elim disjE; simp)+
qed

lemma printint_buf_digits: "list_all is_digit (rev (u_printint_buf n 10))"
  by (induction n "10 :: nat" rule: u_printint_buf.induct)
     (subst u_printint_buf.simps, simp add: digit_value)

lemma atoi_printint_buf: "atoi (rev (u_printint_buf n 10)) = of_nat n"
proof (induction n rule: less_induct)
  case (less n)
  show ?case
  proof (cases "n div 10 = 0")
    case True
    then have "n mod 10 = n" by simp
    with True show ?thesis unfolding u_printint_buf.simps [of n] atoi_def
      using digit_value [of n] atoi_from_snoc [of "[]" "u_digits ! n" 0] by simp
  next
    case False
    then have "atoi (rev (u_printint_buf (n div 10) 10)) = of_nat (n div 10)" by (intro less) simp
    then have "atoi (rev (u_printint_buf n 10)) = of_nat (n div 10) * 10 + (of_nat (n mod 10) :: u32)"
      unfolding u_printint_buf.simps [of n] atoi_def
      using False digit_value [of "n mod 10"] printint_buf_digits
      by (simp add: atoi_from_snoc)
    also have "\<dots> = of_nat (n div 10 * 10 + n mod 10)" by (simp only: of_nat_add of_nat_mult of_nat_numeral)
    finally show ?thesis by simp
  qed
qed

text \<open>
  C40. A number that \<^verbatim>\<open>printf\<close> prints with \<^verbatim>\<open>%d\<close> is read back by \<^verbatim>\<open>atoi\<close>: for every non-negative
  \<^verbatim>\<open>int\<close> the digits that \<^verbatim>\<open>printint\<close> writes convert to that number again.
\<close>

theorem atoi_printint:
  assumes "0 \<le> sint x"
  shows "atoi (u_printint x 10 True) = x"
  using assms atoi_printint_buf [of "unat x"] by (simp add: u_printint_def)

theorem atoi_printint_witness: "atoi (u_printint 2147483647 10 True) = 2147483647"
  by (rule atoi_printint) (simp add: sint_uint signed_take_bit_eq_if_positive bit_simps)

end
