(* ===== verification/Coreutils.thy ===== *)
theory Coreutils
  imports Grep User
begin

text \<open>
  The user programs \<^verbatim>\<open>cat\<close>, \<^verbatim>\<open>echo\<close>, \<^verbatim>\<open>grep\<close>, \<^verbatim>\<open>init\<close>, \<^verbatim>\<open>kill\<close>, \<^verbatim>\<open>ln\<close>, \<^verbatim>\<open>ls\<close>, \<^verbatim>\<open>mkdir\<close>,
  \<^verbatim>\<open>rm\<close>, \<^verbatim>\<open>wc\<close> and \<^verbatim>\<open>zombie\<close>. \<^verbatim>\<open>argv\<close> is the list of the arguments with the program's name first. The lemmas run
  the filters in a world that delivers a sequence of reads and collects what is written.
\<close>

section \<open>Filters\<close>

text \<open>\<^verbatim>\<open>printf(fd, ...); exit();\<close>\<close>

definition die :: "int \<Rightarrow> string \<Rightarrow> fmtarg list \<Rightarrow> 'a prog" where
  "die fd fmt args = pbind (printf fd fmt args) (\<lambda>_. Exit)"

definition cat :: "int \<Rightarrow> unit prog" where
  "cat fd = ploop (\<lambda>_.
     Sys (S_read fd 512) (\<lambda>(n, buf).
       if n > 0 then
         pbind (sys (S_write 1 buf)) (\<lambda>m.
           if m \<noteq> n then die 1 (''cat: write error'' @ nl) [] else Ret (Inr ()))
       else if n < 0 then die 1 (''cat: read error'' @ nl) []
       else Ret (Inl ()))) ()"

text \<open>The loop over the file arguments of \<^verbatim>\<open>cat\<close>, \<^verbatim>\<open>wc\<close> and \<^verbatim>\<open>grep\<close>.\<close>

definition on_files :: "string \<Rightarrow> (int \<Rightarrow> u8 list \<Rightarrow> unit prog) \<Rightarrow> u8 list list \<Rightarrow> unit prog" where
  "on_files name f = pseq (\<lambda>a.
     pbind (sys (S_open a 0)) (\<lambda>fd.
       if fd < 0 then die 1 (name @ '': cannot open %s'' @ nl) [str a]
       else pbind (f fd a) (\<lambda>_. do_sys (S_close fd))))"

definition cat_main :: "u8 list list \<Rightarrow> unit prog" where
  "cat_main argv =
     (if length argv \<le> 1 then pbind (cat 0) (\<lambda>_. Exit)
      else pbind (on_files ''cat'' (\<lambda>fd _. cat fd) (tl argv)) (\<lambda>_. Exit))"

record wcst =
  wc_l :: int
  wc_w :: int
  wc_c :: int
  wc_inword :: bool

definition wc_space :: "u8 list" where
  "wc_space = asc '' '' @ [13, 9, 10, 11]"

definition wc_char :: "u8 \<Rightarrow> wcst \<Rightarrow> wcst" where
  "wc_char b st =
     (let st = st\<lparr>wc_c := wc_c st + 1\<rparr>;
          st = (if b = 10 then st\<lparr>wc_l := wc_l st + 1\<rparr> else st) in
      if strchr wc_space b \<noteq> None then st\<lparr>wc_inword := False\<rparr>
      else if \<not> wc_inword st then st\<lparr>wc_w := wc_w st + 1, wc_inword := True\<rparr>
      else st)"

definition wc_zero :: wcst where
  "wc_zero = \<lparr>wc_l = 0, wc_w = 0, wc_c = 0, wc_inword = False\<rparr>"

definition wc_print :: "u8 list \<Rightarrow> wcst \<Rightarrow> unit prog" where
  "wc_print name st = printf 1 (''%d %d %d %s'' @ nl)
     [FInt (of_int (wc_l st)), FInt (of_int (wc_w st)), FInt (of_int (wc_c st)), str name]"

definition wc :: "int \<Rightarrow> u8 list \<Rightarrow> unit prog" where
  "wc fd name = pbind (ploop (\<lambda>st.
     Sys (S_read fd 512) (\<lambda>(n, buf).
       if n > 0 then Ret (Inr (fold wc_char buf st))
       else if n < 0 then die 1 (''wc: read error'' @ nl) []
       else Ret (Inl st))) wc_zero) (wc_print name)"

definition wc_main :: "u8 list list \<Rightarrow> unit prog" where
  "wc_main argv =
     (if length argv \<le> 1 then pbind (wc 0 []) (\<lambda>_. Exit)
      else pbind (on_files ''wc'' wc (tl argv)) (\<lambda>_. Exit))"

text \<open>\<^verbatim>\<open>grep\<close> as a program: the buffer holds \<open>buf\<close>, and a read asks for the room that is left in its 1024 bytes.\<close>

definition grep_prog :: "u8 list \<Rightarrow> int \<Rightarrow> unit prog" where
  "grep_prog pat fd = ploop (\<lambda>buf.
     Sys (S_read fd (1024 - int (length buf) - 1)) (\<lambda>(n, c).
       if n > 0 then
         let xs = buf @ c; (ws, p) = grep_lines pat xs in
         pbind (pseq (\<lambda>w. do_sys (S_write 1 w)) ws) (\<lambda>_. Ret (Inr (if p = xs then [] else p)))
       else Ret (Inl ()))) []"

definition grep_main :: "u8 list list \<Rightarrow> unit prog" where
  "grep_main argv =
     (if length argv \<le> 1 then die 2 (''usage: grep pattern [file ...]'' @ nl) []
      else let pattern = argv ! 1 in
        if length argv \<le> 2 then pbind (grep_prog pattern 0) (\<lambda>_. Exit)
        else pbind (on_files ''grep'' (\<lambda>fd _. grep_prog pattern fd) (drop 2 argv)) (\<lambda>_. Exit))"

section \<open>Small commands\<close>

fun echo_args :: "u8 list list \<Rightarrow> unit prog" where
  "echo_args [] = Ret ()"
| "echo_args (a # as) =
     pbind (printf 1 ''%s%s'' [str a, str (asc (if as \<noteq> [] then '' '' else nl))]) (\<lambda>_. echo_args as)"

definition echo_main :: "u8 list list \<Rightarrow> unit prog" where
  "echo_main argv = pbind (echo_args (tl argv)) (\<lambda>_. Exit)"

definition kill_main :: "u8 list list \<Rightarrow> unit prog" where
  "kill_main argv =
     (if length argv < 2 then die 2 (''usage: kill pid...'' @ nl) []
      else pbind (pseq (\<lambda>a. do_sys (S_kill (sint (atoi a)))) (tl argv)) (\<lambda>_. Exit))"

definition ln_main :: "u8 list list \<Rightarrow> unit prog" where
  "ln_main argv =
     (if length argv \<noteq> 3 then die 2 (''Usage: ln old new'' @ nl) []
      else pbind (sys (S_link (argv ! 1) (argv ! 2))) (\<lambda>r.
        if r < 0 then die 2 (''link %s %s: failed'' @ nl) [str (argv ! 1), str (argv ! 2)] else Exit))"

text \<open>The loop of \<^verbatim>\<open>mkdir\<close> and \<^verbatim>\<open>rm\<close>, left by \<^verbatim>\<open>break\<close> after the first failure.\<close>

primrec until_failure :: "(u8 list \<Rightarrow> sysreq) \<Rightarrow> string \<Rightarrow> u8 list list \<Rightarrow> unit prog" where
  "until_failure f msg [] = Ret ()"
| "until_failure f msg (a # as) =
     pbind (sys (f a)) (\<lambda>r. if r < 0 then printf 2 msg [str a] else until_failure f msg as)"

definition mkdir_main :: "u8 list list \<Rightarrow> unit prog" where
  "mkdir_main argv =
     (if length argv < 2 then die 2 (''Usage: mkdir files...'' @ nl) []
      else pbind (until_failure S_mkdir (''mkdir: %s failed to create'' @ nl) (tl argv)) (\<lambda>_. Exit))"

definition rm_main :: "u8 list list \<Rightarrow> unit prog" where
  "rm_main argv =
     (if length argv < 2 then die 2 (''Usage: rm files...'' @ nl) []
      else pbind (until_failure S_unlink (''rm: %s failed to delete'' @ nl) (tl argv)) (\<lambda>_. Exit))"

definition zombie_main :: "unit prog" where
  "zombie_main = pbind (sys S_fork) (\<lambda>pid.
     pbind (if pid > 0 then do_sys (S_sleep 5) else Ret ()) (\<lambda>_. Exit))"

section \<open>init\<close>

definition init_open :: "unit prog" where
  "init_open =
     pbind (sys (S_open (asc ''console'') 2)) (\<lambda>fd.
     pbind (if fd < 0 then
              pbind (do_sys (S_mknod (asc ''console'') 1 1)) (\<lambda>_. do_sys (S_open (asc ''console'') 2))
            else Ret ()) (\<lambda>_.
     pbind (do_sys (S_dup 0)) (\<lambda>_. do_sys (S_dup 0))))"

text \<open>\<^verbatim>\<open>while((wpid=wait()) >= 0 && wpid != pid)\<close>\<close>

definition init_wait :: "int \<Rightarrow> unit prog" where
  "init_wait pid = ploop (\<lambda>_.
     pbind (sys S_wait) (\<lambda>wpid.
       if wpid \<ge> 0 \<and> wpid \<noteq> pid then pbind (printf 1 (''zombie!'' @ nl) []) (\<lambda>_. Ret (Inr ()))
       else Ret (Inl ()))) ()"

definition init_main :: "unit prog" where
  "init_main =
     pbind init_open (\<lambda>_.
     ploop (\<lambda>_.
       pbind (printf 1 (''init: starting sh'' @ nl) []) (\<lambda>_.
       pbind (sys S_fork) (\<lambda>pid.
         if pid < 0 then die 1 (''init: fork failed'' @ nl) []
         else if pid = 0 then
           pbind (do_sys (S_exec (asc ''sh'') [asc ''sh''])) (\<lambda>_. die 1 (''init: exec sh failed'' @ nl) [])
         else pbind (init_wait pid) (\<lambda>_. Ret (Inr ()))))) ())"

section \<open>ls\<close>

definition fmtname :: "u8 list \<Rightarrow> u8 list" where
  "fmtname path =
     (let p = rev (takeWhile (\<lambda>c. c \<noteq> 0x2F) (rev path)) in
      if length p \<ge> DIRSIZ then p else p @ replicate (DIRSIZ - length p) 0x20)"

text \<open>\<open>st\<close> is the memory of a \<^verbatim>\<open>struct stat\<close>.\<close>

definition ls_line :: "u8 list \<Rightarrow> u8 list \<Rightarrow> unit prog" where
  "ls_line path st = printf 1 (''%s %d %d %d'' @ nl)
     [str (fmtname path), FInt (scast (get16 st 0)), FInt (get32 st 8), FInt (get32 st 16)]"

definition ls_entries :: "u8 list \<Rightarrow> int \<Rightarrow> unit prog" where
  "ls_entries path fd = ploop (\<lambda>_.
     Sys (S_read fd (int DIRENT_SIZE)) (\<lambda>(n, bs).
       if n \<noteq> int DIRENT_SIZE then Ret (Inl ())
       else let de = get_dirent bs; buf = path @ asc ''/'' @ takeWhile (\<lambda>c. c \<noteq> 0) (de_name de) in
         if de_inum de = 0 then Ret (Inr ())
         else pbind (u_stat buf) (\<lambda>(r, st).
           pbind (if r < 0 then printf 1 (''ls: cannot stat %s'' @ nl) [str buf] else ls_line buf st) (\<lambda>_.
             Ret (Inr ()))))) ()"

definition ls :: "u8 list \<Rightarrow> unit prog" where
  "ls path =
     pbind (sys (S_open path 0)) (\<lambda>fd.
       if fd < 0 then printf 2 (''ls: cannot open %s'' @ nl) [str path]
       else Sys (S_fstat fd) (\<lambda>(r, st).
         if r < 0 then pbind (printf 2 (''ls: cannot stat %s'' @ nl) [str path]) (\<lambda>_. do_sys (S_close fd))
         else pbind
           (if get16 st 0 = T_FILE then ls_line path st
            else if get16 st 0 = T_DIR then
              (if length path + 1 + DIRSIZ + 1 > 512 then printf 1 (''ls: path too long'' @ nl) []
               else ls_entries path fd)
            else Ret ()) (\<lambda>_. do_sys (S_close fd))))"

definition ls_main :: "u8 list list \<Rightarrow> unit prog" where
  "ls_main argv =
     (if length argv < 2 then pbind (ls (asc ''.'')) (\<lambda>_. Exit)
      else pbind (pseq ls (tl argv)) (\<lambda>_. Exit))"

section \<open>Filters on a stream\<close>

text \<open>
  A world for the filters: what the other end of the input makes available at a time, of which a
  read takes at most what it asks for, and what has been written. When nothing is left a read returns 0.
\<close>

record sworld =
  sw_in :: "u8 list list"
  sw_out :: "u8 list list"

fun stream_read :: "nat \<Rightarrow> u8 list list \<Rightarrow> u8 list \<times> u8 list list" where
  "stream_read n [] = ([], [])"
| "stream_read n (c # cs) = (take n c, if length c \<le> n then cs else drop n c # cs)"

fun stream_io :: "sysreq \<Rightarrow> sworld \<Rightarrow> (int \<times> u8 list) \<times> sworld" where
  "stream_io (S_read fd n) w =
     (let (c, cs) = stream_read (nat n) (sw_in w) in ((int (length c), c), w\<lparr>sw_in := cs\<rparr>))"
| "stream_io (S_write fd bs) w = ((int (length bs), []), w\<lparr>sw_out := sw_out w @ [bs]\<rparr>)"
| "stream_io _ w = ((0, []), w)"

text \<open>What has been written, as one byte sequence.\<close>

definition written :: "sworld \<Rightarrow> u8 list" where
  "written w = concat (sw_out w)"

definition some_in :: "sworld \<Rightarrow> bool" where
  "some_in w \<longleftrightarrow> [] \<notin> set (sw_in w)"

lemma stream_read_cases:
  assumes "[] \<notin> set cs" "0 < n"
  shows "fst (stream_read n cs) = [] \<longleftrightarrow> cs = []"
    "concat cs = fst (stream_read n cs) @ concat (snd (stream_read n cs))"
    "[] \<notin> set (snd (stream_read n cs))"
  using assms by (cases cs; auto)+

text \<open>The pieces that successive reads of \<open>n\<close> bytes return.\<close>

function deliver :: "nat \<Rightarrow> u8 list list \<Rightarrow> u8 list list" where
  "deliver n cs =
     (if cs = [] \<or> n = 0 then []
      else fst (stream_read n cs) # deliver n (snd (stream_read n cs)))"
  by pat_completeness auto
termination
  by (relation "measure (\<lambda>(n, cs). sum_list (map (\<lambda>c. length c + 1) cs))") (auto simp: neq_Nil_conv)

declare deliver.simps [simp del]

lemma deliver_pieces:
  "0 < n \<Longrightarrow> [] \<notin> set cs \<Longrightarrow> concat (deliver n cs) = concat cs \<and> [] \<notin> set (deliver n cs)"
proof (induction n cs rule: deliver.induct)
  case (1 n cs)
  show ?case
  proof (cases "cs = []")
    case True then show ?thesis by (simp add: deliver.simps)
  next
    case False
    note p = stream_read_cases [OF "1.prems"(2,1)]
    with False "1.prems" have "concat (deliver n (snd (stream_read n cs))) = concat (snd (stream_read n cs))
      \<and> [] \<notin> set (deliver n (snd (stream_read n cs)))" by (intro "1.IH") auto
    with p False "1.prems" show ?thesis by (subst (1 2) deliver.simps) auto
  qed
qed

text \<open>
  A filter loops over a read and a body that takes the state \<open>st\<close> to \<open>f st c\<close> and writes \<open>g st c\<close> for
  the bytes \<open>c\<close> that were read.
\<close>

primrec outs :: "('s \<Rightarrow> u8 list \<Rightarrow> 's) \<Rightarrow> ('s \<Rightarrow> u8 list \<Rightarrow> u8 list list) \<Rightarrow> 's \<Rightarrow> u8 list list \<Rightarrow> u8 list list" where
  "outs f g st [] = []"
| "outs f g st (c # cs) = g st c @ outs f g (f st c) cs"

lemma run_filter:
  fixes b :: "'s \<Rightarrow> int \<times> u8 list \<Rightarrow> ('a + 's) prog"
  assumes body: "\<And>st c w. c \<noteq> [] \<Longrightarrow>
      run stream_io (b st (int (length c), c)) w (Some (Inr (f st c))) (w\<lparr>sw_out := sw_out w @ g st c\<rparr>)"
    and stop: "\<And>st. b st (0, []) = Ret (Inl (h st))"
    and n: "0 < n"
  shows "[] \<notin> set (sw_in w) \<Longrightarrow>
    run stream_io (ploop (\<lambda>st. Sys (S_read fd (int n)) (b st)) st) w
      (Some (h (foldl f st (deliver n (sw_in w)))))
      (w\<lparr>sw_in := [], sw_out := sw_out w @ outs f g st (deliver n (sw_in w))\<rparr>)"
proof (induction "sum_list (map (\<lambda>c. length c + 1) (sw_in w))" arbitrary: st w rule: less_induct)
  case less
  let ?c = "fst (stream_read n (sw_in w))" and ?cs = "snd (stream_read n (sw_in w))"
  have io: "stream_io (S_read fd (int n)) w = ((int (length ?c), ?c), w\<lparr>sw_in := ?cs\<rparr>)"
    by (simp add: split_beta)
  note step = run_ploop_step [where h = stream_io and q = "\<lambda>_. S_read fd (int n)" and k = b and w = w, OF io]
  note p = stream_read_cases [OF less.prems n]
  show ?case
  proof (cases "sw_in w = []")
    case True
    then have "stream_read n (sw_in w) = ([], [])" by simp
    with True stop show ?thesis
      by (intro step [where x = "Inl (h st)"])
         (simp_all add: deliver.simps)
  next
    case False
    let ?w = "w\<lparr>sw_in := ?cs, sw_out := sw_out w @ g st ?c\<rparr>"
    have "run stream_io (b st (int (length ?c), ?c)) (w\<lparr>sw_in := ?cs\<rparr>) (Some (Inr (f st ?c))) ?w"
      using body [of ?c st "w\<lparr>sw_in := ?cs\<rparr>"] p(1) False by simp
    moreover have "sum_list (map (\<lambda>c. length c + 1) ?cs) < sum_list (map (\<lambda>c. length c + 1) (sw_in w))"
      using False n by (cases "sw_in w") auto
    from less.hyps [of ?w, OF _ , of "f st ?c"] this p(3)
    have "run stream_io (ploop (\<lambda>st. Sys (S_read fd (int n)) (b st)) (f st ?c)) ?w
      (Some (h (foldl f (f st ?c) (deliver n ?cs))))
      (w\<lparr>sw_in := [], sw_out := sw_out w @ g st ?c @ outs f g (f st ?c) (deliver n ?cs)\<rparr>)" by simp
    ultimately have "run stream_io (ploop (\<lambda>st. Sys (S_read fd (int n)) (b st)) st) w
      (Some (h (foldl f (f st ?c) (deliver n ?cs))))
      (w\<lparr>sw_in := [], sw_out := sw_out w @ g st ?c @ outs f g (f st ?c) (deliver n ?cs)\<rparr>)"
      by (intro step [where x = "Inr (f st ?c)"]) (simp_all only: ploop_from_simps)
    with False n show ?thesis by (simp add: deliver.simps [of n "sw_in w"])
  qed
qed

lemma run_cat:
  assumes "[] \<notin> set (sw_in w)"
  shows "run stream_io (cat fd) w (Some ()) (w\<lparr>sw_in := [], sw_out := sw_out w @ deliver 512 (sw_in w)\<rparr>)"
proof -
  have o: "outs (\<lambda>_ _. ()) (\<lambda>_ c. [c]) () cs = cs" for cs by (induction cs) auto
  have "run stream_io (cat fd) w (Some (foldl (\<lambda>_ _. ()) () (deliver 512 (sw_in w))))
    (w\<lparr>sw_in := [], sw_out := sw_out w @ outs (\<lambda>_ _. ()) (\<lambda>_ c. [c]) () (deliver 512 (sw_in w))\<rparr>)"
    unfolding cat_def using assms
    by (intro run_filter [where n = 512 and h = "\<lambda>x. x", unfolded of_nat_numeral]) (auto simp: sys_def)
  then show ?thesis by (simp add: o)
qed

text \<open>
  \<^verbatim>\<open>cat\<close> copies its input: when the reads succeed it returns, has consumed the whole input, and has written exactly
  the bytes of the input in order, however the input arrives.
\<close>

theorem cat_copies:
  assumes "[] \<notin> set (sw_in w)"
  shows "\<exists>w'. run stream_io (cat fd) w (Some ()) w' \<and> sw_in w' = [] \<and> written w' = written w @ concat (sw_in w)"
  using run_cat [OF assms] deliver_pieces [of 512, OF _ assms] by (fastforce simp: written_def)

theorem cat_copies_witness:
  "\<exists>w'. run stream_io (cat 0) \<lparr>sw_in = [[1, 2], [3]], sw_out = []\<rparr> (Some ()) w' \<and> sw_in w' = []
     \<and> written w' = [1, 2, 3]"
  using cat_copies [of "\<lparr>sw_in = [[1, 2], [3]], sw_out = []\<rparr>" 0] by (simp add: written_def)

section \<open>Counting\<close>

definition space :: "u8 \<Rightarrow> bool" where
  "space b \<longleftrightarrow> b \<in> set wc_space"

text \<open>The positions where a word begins.\<close>

definition word_starts :: "u8 list \<Rightarrow> nat set" where
  "word_starts xs = {i. i < length xs \<and> \<not> space (xs ! i) \<and> (i = 0 \<or> space (xs ! (i - 1)))}"

lemma strchr_None: "strchr s c = None \<longleftrightarrow> c \<notin> set s"
  by (induction s) auto

lemma word_starts_snoc:
  "word_starts (xs @ [x]) =
     word_starts xs \<union> (if \<not> space x \<and> (xs = [] \<or> space (last xs)) then {length xs} else {})"
  by (cases "xs = []") (auto simp: word_starts_def nth_append last_conv_nth less_Suc_eq)

lemma finite_word_starts [simp]: "finite (word_starts xs)"
  by (rule finite_subset [of _ "{..<length xs}"]) (auto simp: word_starts_def)

lemma length_not_start: "length xs \<notin> word_starts xs"
  by (simp add: word_starts_def)

lemma fold_wc_char:
  "fold wc_char xs wc_zero =
     \<lparr>wc_l = int (count_list xs 10), wc_w = int (card (word_starts xs)), wc_c = int (length xs),
      wc_inword = (xs \<noteq> [] \<and> \<not> space (last xs))\<rparr>"
proof (induction xs rule: rev_induct)
  case Nil then show ?case by (simp add: wc_zero_def word_starts_def)
next
  case (snoc x xs)
  then show ?case
    by (auto simp: wc_char_def Let_def strchr_None space_def [symmetric] word_starts_snoc length_not_start)
qed

definition putcs :: "u8 list \<Rightarrow> sworld \<Rightarrow> sworld" where
  "putcs cs w = w\<lparr>sw_out := sw_out w @ map (\<lambda>c. [c]) cs\<rparr>"

lemma run_putcs: "run stream_io (pseq (u_putc fd) cs) w (Some ()) (putcs cs w)"
proof (induction cs arbitrary: w)
  case (Cons c cs)
  have "run stream_io (u_putc fd c) w (Some ()) (putcs [c] w)" by (simp add: u_putc_def do_sys_def putcs_def)
  moreover have "putcs cs (putcs [c] w) = putcs (c # cs) w" by (simp add: putcs_def)
  ultimately show ?case using Cons [of "putcs [c] w"] by (auto intro: run_bind)
qed (simp add: putcs_def)

lemma foldl_concat: "foldl (\<lambda>st c. fold f c st) st cs = fold f (concat cs) st"
  by (induction cs arbitrary: st) auto

text \<open>
  C39. \<^verbatim>\<open>wc\<close> prints the number of newlines, of words and of bytes of its input, however the reads cut it:
  a word is counted at each byte that is not white space and is the first of the input or follows white space.
\<close>

theorem wc_counts:
  assumes "[] \<notin> set (sw_in w)"
  shows "\<exists>w'. run stream_io (wc fd name) w (Some ()) w' \<and> written w' = written w @
    (let xs = concat (sw_in w) in
     u_printint (of_nat (count_list xs 10)) 10 True @ [0x20] @ u_printint (of_nat (card (word_starts xs))) 10 True
     @ [0x20] @ u_printint (of_nat (length xs)) 10 True @ [0x20] @ name @ [0x0A])"
proof -
  define st where "st = fold wc_char (concat (sw_in w)) wc_zero"
  define w1 where "w1 = w\<lparr>sw_in := []\<rparr>"
  have o: "outs f (\<lambda>_ _. []) st cs = []" for f :: "wcst \<Rightarrow> u8 list \<Rightarrow> wcst" and st cs
    by (induction cs arbitrary: st) auto
  let ?b = "\<lambda>st. \<lambda>(n, buf). if n > 0 then Ret (Inr (fold wc_char buf st))
       else if n < 0 then die 1 (''wc: read error'' @ nl) [] else Ret (Inl st)"
  have "run stream_io (ploop (\<lambda>st. Sys (S_read fd 512) (?b st)) wc_zero) w
    (Some (foldl (\<lambda>st c. fold wc_char c st) wc_zero (deliver 512 (sw_in w))))
    (w\<lparr>sw_in := [], sw_out := sw_out w @ outs (\<lambda>st c. fold wc_char c st) (\<lambda>_ _. []) wc_zero (deliver 512 (sw_in w))\<rparr>)"
    using assms by (intro run_filter [where n = 512 and h = "\<lambda>x. x", unfolded of_nat_numeral]) auto
  then have l: "run stream_io (ploop (\<lambda>st. Sys (S_read fd 512) (?b st)) wc_zero) w (Some st) w1"
    using deliver_pieces [of 512, OF _ assms] by (simp add: o foldl_concat st_def w1_def)
  define cs where "cs = u_printint (of_int (wc_l st)) 10 True @ [0x20] @ u_printint (of_int (wc_w st)) 10 True
     @ [0x20] @ u_printint (of_int (wc_c st)) 10 True @ [0x20] @ name @ [0x0A]"
  have "wc_print name st = pseq (u_putc 1) cs"
    by (simp add: wc_print_def printf_def asc_def cs_def)
  with l have "run stream_io (wc fd name) w (Some ()) (putcs cs w1)"
    unfolding wc_def by (intro run_bind [OF l]) (simp add: run_putcs)
  moreover have "written (putcs cs w1) = written w @ cs"
    by (simp add: written_def putcs_def w1_def)
  ultimately show ?thesis
    by (intro exI conjI) (simp_all add: cs_def Let_def st_def fold_wc_char)
qed

theorem wc_counts_witness:
  "\<exists>w'. run stream_io (wc 0 [0x66]) \<lparr>sw_in = [[0x61], [0x62, 0x0A]], sw_out = []\<rparr> (Some ()) w' \<and> written w' =
    (let xs = [0x61, 0x62, 0x0A] in
     u_printint (of_nat (count_list xs 10)) 10 True @ [0x20] @ u_printint (of_nat (card (word_starts xs))) 10 True
     @ [0x20] @ u_printint (of_nat (length xs)) 10 True @ [0x20] @ [0x66] @ [0x0A])"
  using wc_counts [of "\<lparr>sw_in = [[0x61], [0x62, 0x0A]], sw_out = []\<rparr>" 0 "[0x66]"] by (simp add: written_def)

section \<open>Searching\<close>

lemma unfinished_append: "c_nl \<in> set c \<Longrightarrow> unfinished (buf @ c) = unfinished c"
  by (induction buf) auto

lemma length_unfinished: "c_nl \<in> set c \<Longrightarrow> length (unfinished c) < length c"
proof (induction c)
  case (Cons x c) then show ?case by (cases "c_nl \<in> set c") (auto simp: unfinished_id)
qed simp

lemma run_writes:
  "run stream_io (pseq (\<lambda>w. do_sys (S_write 1 w)) ws) w (Some ()) (w\<lparr>sw_out := sw_out w @ ws\<rparr>)"
proof (induction ws arbitrary: w)
  case (Cons x ws)
  have "run stream_io (do_sys (S_write 1 x)) w (Some ()) (w\<lparr>sw_out := sw_out w @ [x]\<rparr>)"
    by (simp add: do_sys_def)
  from run_bind [OF this Cons] show ?case by simp
qed simp

definition grep_body :: "u8 list \<Rightarrow> u8 list \<Rightarrow> int \<times> u8 list \<Rightarrow> (unit + u8 list) prog" where
  "grep_body pat buf = (\<lambda>(n, c).
     if n > 0 then
       let xs = buf @ c; (ws, p) = grep_lines pat xs in
       pbind (pseq (\<lambda>w. do_sys (S_write 1 w)) ws) (\<lambda>_. Ret (Inr (if p = xs then [] else p)))
     else Ret (Inl ()))"

lemma run_grep_body:
  assumes "c \<noteq> []" "grep_lines pat (buf @ c) = (ws, p)"
  shows "run stream_io (grep_body pat buf (int (length c), c)) w
    (Some (Inr (if p = buf @ c then [] else p))) (w\<lparr>sw_out := sw_out w @ ws\<rparr>)"
  using assms by (auto simp: grep_body_def intro!: run_bind [OF run_writes])

lemma run_grep_loop:
  assumes "\<forall>c\<in>set cs. c_nl \<in> set c \<and> 0 \<notin> set c \<and> length c \<le> 512"
    and "0 \<notin> set buf" "length buf < 512"
  shows "run stream_io (ploop (\<lambda>buf. Sys (S_read fd (1024 - int (length buf) - 1)) (grep_body pat buf)) buf)
    \<lparr>sw_in = cs, sw_out = out\<rparr> (Some ()) \<lparr>sw_in = [], sw_out = out @ grep_chunks pat buf cs\<rparr>"
  using assms
proof (induction cs arbitrary: buf out)
  case Nil
  then show ?case
    by (intro run_ploop_step [where h = stream_io and q = "\<lambda>buf. S_read fd (1024 - int (length buf) - 1)" and k = "grep_body pat"
          and x = "Inl ()" and v = "(0, [])"]) (simp_all add: grep_body_def)
next
  case (Cons c cs)
  let ?p = "unfinished (buf @ c)" and ?ws = "selected pat (buf @ c)"
  have c: "c_nl \<in> set c" "0 \<notin> set c" "length c \<le> 512" "c \<noteq> []" using Cons.prems by auto
  then have l: "grep_lines pat (buf @ c) = (?ws, ?p)" using Cons.prems(2) by (simp add: grep_lines_eq)
  have p: "?p \<noteq> buf @ c" "0 \<notin> set ?p" "length ?p < 512"
    using c length_unfinished [OF c(1)] unfinished_no_nl [of "buf @ c"] set_unfinished [of c]
    by (auto simp: unfinished_append dest: sym)
  have "run stream_io (ploop (\<lambda>buf. Sys (S_read fd (1024 - int (length buf) - 1)) (grep_body pat buf)) ?p)
    \<lparr>sw_in = cs, sw_out = out @ ?ws\<rparr> (Some ()) \<lparr>sw_in = [], sw_out = (out @ ?ws) @ grep_chunks pat ?p cs\<rparr>"
    using Cons.prems p by (intro Cons.IH) auto
  moreover have "length c \<le> nat (1023 - int (length buf))" using c(3) Cons.prems(3) by linarith
  ultimately show ?case
    using run_grep_body [OF c(4) l, of "\<lparr>sw_in = cs, sw_out = out\<rparr>"] p(1)
    by (intro run_ploop_step [where h = stream_io and q = "\<lambda>buf. S_read fd (1024 - int (length buf) - 1)" and k = "grep_body pat"
          and x = "Inr ?p" and v = "(int (length c), c)" and ?w1.0 = "\<lparr>sw_in = cs, sw_out = out\<rparr>" and ?w2.0 = "\<lparr>sw_in = cs, sw_out = out @ ?ws\<rparr>"])
       (simp_all add: l Let_def)
qed

text \<open>
  C36. Run on an input that arrives in pieces of at most 512 bytes, each with a newline in it and without null
  bytes, \<^verbatim>\<open>grep\<close> returns, has read everything, and has written exactly the lines of the input that match
  the pattern, in order, however the pieces cut the lines.
\<close>

theorem grep_selects_lines:
  assumes "\<forall>c\<in>set (sw_in w). c_nl \<in> set c \<and> 0 \<notin> set c \<and> length c \<le> 512"
  shows "run stream_io (grep_prog pat fd) w (Some ()) \<lparr>sw_in = [],
    sw_out = sw_out w @ map (\<lambda>l. l @ [c_nl]) (filter (match pat) (lines (concat (sw_in w))))\<rparr>"
  using run_grep_loop [of "sw_in w" "[]" fd pat "sw_out w"] grep_chunks_eq [of "sw_in w" "[]" pat] assms
  by (cases w) (simp add: grep_prog_def grep_body_def [abs_def] selected_def)

theorem grep_selects_lines_witness:
  "run stream_io (grep_prog [0x61] 0) \<lparr>sw_in = [[0x61, c_nl, 0x62], [0x61, c_nl]], sw_out = []\<rparr> (Some ())
     \<lparr>sw_in = [], sw_out = map (\<lambda>l. l @ [c_nl]) (filter (match [0x61]) (lines [0x61, c_nl, 0x62, 0x61, c_nl]))\<rparr>"
  using grep_selects_lines [of "\<lparr>sw_in = [[0x61, c_nl, 0x62], [0x61, c_nl]], sw_out = []\<rparr>" "[0x61]" 0] by simp

end
