(* ===== verification/Sh.thy ===== *)
theory Sh
  imports User
begin

text \<open>
  The shell, \<^verbatim>\<open>sh.c\<close>: the command parser and the interpreter. The pointer \<^verbatim>\<open>*ps\<close> into the input line is
  the list of the bytes from it to the end \<^verbatim>\<open>es\<close>, and a pair \<^verbatim>\<open>q\<close>, \<^verbatim>\<open>eq\<close> the bytes between the two, which
  is the string that \<^verbatim>\<open>nulterminate\<close> makes of it. The mutually recursive parsing functions carry fuel; the
  lemmas show that \<open>4 * length s + 4\<close> is always enough, and that the parser inverts a printer of commands.
\<close>

section \<open>Commands\<close>

datatype cmd =
    EXEC "u8 list list"
  | REDIR cmd "u8 list" u32 int
  | PIPE cmd cmd
  | LIST cmd cmd
  | BACK cmd

definition MAXARGS :: nat where "MAXARGS = 10"

section \<open>Tokens\<close>

definition whitespace :: "u8 list" where
  "whitespace = [0x20, 9, 13, 10, 11]"

definition symbols :: "u8 list" where
  "symbols = asc ''<|>&;()''"

definition skip_ws :: "u8 list \<Rightarrow> u8 list" where
  "skip_ws s = dropWhile (\<lambda>c. strchr whitespace c \<noteq> None) s"

definition word_char :: "u8 \<Rightarrow> bool" where
  "word_char c \<longleftrightarrow> strchr whitespace c = None \<and> strchr symbols c = None"

text \<open>The return value, the token's bytes, and the rest of the input.\<close>

definition gettoken :: "u8 list \<Rightarrow> u8 \<times> u8 list \<times> u8 list" where
  "gettoken s =
     (case skip_ws s of
        [] \<Rightarrow> (0, [], [])
      | c # r \<Rightarrow>
          if c \<in> set (asc ''|();&<'') then (c, [c], skip_ws r)
          else if c = of_char CHR ''>'' then
            (case r of
               [] \<Rightarrow> (c, [c], [])
             | d # r' \<Rightarrow> if d = of_char CHR ''>'' then (of_char CHR ''+'', [c, d], skip_ws r') else (c, [c], skip_ws r))
          else (of_char CHR ''a'', takeWhile word_char (c # r), skip_ws (dropWhile word_char (c # r))))"

definition peek :: "u8 list \<Rightarrow> string \<Rightarrow> bool" where
  "peek s toks = (case skip_ws s of [] \<Rightarrow> False | c # _ \<Rightarrow> strchr (asc toks) c \<noteq> None)"

abbreviation rest_token :: "u8 list \<Rightarrow> u8 list" where
  "rest_token s \<equiv> snd (snd (gettoken s))"

lemma length_skip_ws: "length (skip_ws s) \<le> length s"
  by (simp add: skip_ws_def length_dropWhile_le)

lemma word_char_not_special:
  assumes "skip_ws s = c # r" "c \<notin> set (asc ''|();&<'')" "c \<noteq> of_char CHR ''>''"
  shows "word_char c"
proof -
  have "strchr whitespace c = None"
    using assms(1) by (auto simp: skip_ws_def dropWhile_eq_Cons_conv)
  moreover have "strchr symbols c = None"
    using assms(2,3) by (simp add: symbols_def asc_def)
  ultimately show ?thesis by (simp add: word_char_def)
qed

lemma gettoken_shorter:
  assumes "skip_ws s \<noteq> []"
  shows "length (rest_token s) < length s"
proof -
  obtain c r where s: "skip_ws s = c # r" using assms by (cases "skip_ws s") auto
  then have l: "length r < length s" using length_skip_ws [of s] by simp
  have "length (skip_ws (dropWhile word_char (c # r))) < length s" if "word_char c"
    using that l length_skip_ws [of "dropWhile word_char r"] length_dropWhile_le [of word_char r] by simp
  moreover have "length (skip_ws r) < length s" "length (skip_ws (tl r)) < length s"
    using l length_skip_ws [of r] length_skip_ws [of "tl r"] by (auto simp: less_le_trans le_less_trans)
  ultimately show ?thesis using word_char_not_special [OF s]
    by (auto simp: gettoken_def s split: list.splits)
qed

lemma gettoken_le: "length (rest_token s) \<le> length s"
  using gettoken_shorter [of s] by (cases "skip_ws s = []") (auto simp: gettoken_def)

lemma peek_not_Nil: "peek s toks \<Longrightarrow> skip_ws s \<noteq> []"
  by (auto simp: peek_def split: list.splits)

section \<open>Parsing\<close>

datatype perr = Out_of_fuel | Syntax string | Leftovers "u8 list"

type_synonym 'a parse = "perr + 'a \<times> u8 list"

definition pthen :: "'a parse \<Rightarrow> ('a \<Rightarrow> u8 list \<Rightarrow> 'b parse) \<Rightarrow> 'b parse" where
  "pthen r f = (case r of Inl e \<Rightarrow> Inl e | Inr (a, s) \<Rightarrow> f a s)"

lemma pthen_simps [simp]: "pthen (Inl e) f = Inl e" "pthen (Inr (a, s)) f = f a s"
  by (simp_all add: pthen_def)

type_synonym redir = "u8 list \<times> u32 \<times> int"

definition redir_of :: "u8 \<Rightarrow> u8 list \<Rightarrow> redir" where
  "redir_of tok f = (if tok = of_char CHR ''<'' then (f, 0, 0) else (f, 0x201, 1))"

definition add_redir :: "cmd \<Rightarrow> redir \<Rightarrow> cmd" where
  "add_redir c = (\<lambda>(f, mode, fd). REDIR c f mode fd)"

text \<open>\<^verbatim>\<open>parseredirs\<close>: the redirections that it wraps around its argument, the innermost first.\<close>

function parseredirs :: "u8 list \<Rightarrow> redir list parse" where
  "parseredirs s =
     (if peek s ''<>'' then
        let (tok, _, s) = gettoken s; (t, f, s) = gettoken s in
        if t \<noteq> of_char CHR ''a'' then Inl (Syntax ''missing file for redirection'')
        else pthen (parseredirs s) (\<lambda>rs s. Inr (redir_of tok f # rs, s))
      else Inr ([], skip_ws s))"
  by pat_completeness auto
termination
proof (relation "measure length")
  fix s s' s'' tok t q f and x y :: "u8 \<times> u8 list \<times> u8 list" and y' z
  assume "peek s ''<>''" "x = gettoken s" "(tok, y') = x" "(q, s') = y'"
    "y = gettoken s'" "(t, z) = y" "(f, s'') = z"
  then have "rest_token s = s'" "rest_token s' = s''" by (metis snd_conv)+
  with gettoken_shorter [OF peek_not_Nil [OF \<open>peek s ''<>''\<close>]] gettoken_le [of s']
  show "(s'', s) \<in> measure length" by simp
qed simp

declare parseredirs.simps [simp del]

text \<open>The loop over \<^verbatim>\<open>&\<close> in \<^verbatim>\<open>parseline\<close>.\<close>

function parsebacks :: "cmd \<Rightarrow> u8 list \<Rightarrow> cmd \<times> u8 list" where
  "parsebacks cmd s = (if peek s ''&'' then parsebacks (BACK cmd) (rest_token s) else (cmd, skip_ws s))"
  by pat_completeness auto
termination
  by (relation "measure (\<lambda>(c, s). length s)") (auto intro!: gettoken_shorter dest: peek_not_Nil)

declare parsebacks.simps [simp del]

text \<open>
  The loop over the words in \<^verbatim>\<open>parseexec\<close>; the C code has collected \<open>args\<close>, and has wrapped \<open>rs\<close> around
  the command they belong to.
\<close>

lemma parseredirs_le: "parseredirs s = Inr (rs, s') \<Longrightarrow> length s' \<le> length s"
proof (induction s arbitrary: rs rule: parseredirs.induct)
  case (1 s)
  show ?case
  proof (cases "peek s ''<>''")
    case False with "1.prems" show ?thesis by (auto simp: parseredirs.simps length_skip_ws)
  next
    case True
    obtain tok q s1 t f s2 where g: "gettoken s = (tok, q, s1)" "gettoken s1 = (t, f, s2)"
      by (metis prod_cases3)
    with True "1.prems" obtain rs' where "t = of_char CHR ''a''" "parseredirs s2 = Inr (rs', s')"
      by (auto simp: parseredirs.simps [of s] pthen_def split: if_splits sum.splits)
    with "1.IH" [OF True refl] g have "length s' \<le> length s2" by auto
    moreover have "length s2 \<le> length s" using gettoken_le [of s] gettoken_le [of s1] g by simp
    ultimately show ?thesis by simp
  qed
qed

function parseargs :: "u8 list list \<Rightarrow> redir list \<Rightarrow> u8 list \<Rightarrow> (u8 list list \<times> redir list) parse" where
  "parseargs args rs s =
     (if peek s ''|)&;'' then Inr ((args, rs), skip_ws s)
      else case gettoken s of (tok, q, s') \<Rightarrow>
        if tok = 0 then Inr ((args, rs), s')
        else if tok \<noteq> of_char CHR ''a'' then Inl (Syntax ''syntax'')
        else if length args + 1 \<ge> MAXARGS then Inl (Syntax ''too many args'')
        else case parseredirs s' of
            Inl e \<Rightarrow> Inl e
          | Inr (rs', s'') \<Rightarrow> parseargs (args @ [q]) (rs @ rs') s'')"
  by pat_completeness auto
termination
proof (relation "measure (\<lambda>(args, rs, s). length s)")
  fix args rs s tok y q s' x rs' s''
  assume "(tok, y) = gettoken s" "(q, s') = y" "tok \<noteq> 0" "parseredirs s' = Inr x" "(rs', s'') = x"
  then have g: "gettoken s = (tok, q, s')" and r: "parseredirs s' = Inr (rs', s'')" by auto
  from g \<open>tok \<noteq> 0\<close> have "skip_ws s \<noteq> []" by (auto simp: gettoken_def)
  from gettoken_shorter [OF this] g parseredirs_le [OF r]
  show "((args @ [q], rs @ rs', s''), args, rs, s) \<in> measure (\<lambda>(args, rs, s). length s)" by simp
qed simp

declare parseargs.simps [simp del]

fun parseline :: "nat \<Rightarrow> u8 list \<Rightarrow> cmd parse"
  and parsepipe :: "nat \<Rightarrow> u8 list \<Rightarrow> cmd parse"
  and parseexec :: "nat \<Rightarrow> u8 list \<Rightarrow> cmd parse"
  and parseblock :: "nat \<Rightarrow> u8 list \<Rightarrow> cmd parse" where
  "parseline 0 s = Inl Out_of_fuel"
| "parseline (Suc n) s =
     pthen (parsepipe n s) (\<lambda>cmd s.
       let (cmd, s) = parsebacks cmd s in
       if peek s '';'' then pthen (parseline n (rest_token s)) (\<lambda>r s. Inr (LIST cmd r, s))
       else Inr (cmd, skip_ws s))"
| "parsepipe 0 s = Inl Out_of_fuel"
| "parsepipe (Suc n) s =
     pthen (parseexec n s) (\<lambda>cmd s.
       if peek s ''|'' then pthen (parsepipe n (rest_token s)) (\<lambda>r s. Inr (PIPE cmd r, s))
       else Inr (cmd, skip_ws s))"
| "parseexec 0 s = Inl Out_of_fuel"
| "parseexec (Suc n) s =
     (if peek s ''('' then parseblock n s
      else pthen (parseredirs s) (\<lambda>rs s.
           pthen (parseargs [] rs s) (\<lambda>(args, rs) s. Inr (foldl add_redir (EXEC args) rs, s))))"
| "parseblock 0 s = Inl Out_of_fuel"
| "parseblock (Suc n) s =
     (if \<not> peek s ''('' then Inl (Syntax ''parseblock'')
      else pthen (parseline n (rest_token s)) (\<lambda>cmd s.
        if \<not> peek s '')'' then Inl (Syntax ''syntax - missing )'')
        else pthen (parseredirs (rest_token s)) (\<lambda>rs s. Inr (foldl add_redir cmd rs, s))))"

definition parsecmd :: "u8 list \<Rightarrow> perr + cmd" where
  "parsecmd s =
     (case parseline (4 * length s + 4) s of
        Inl e \<Rightarrow> Inl e
      | Inr (cmd, s) \<Rightarrow> if skip_ws s \<noteq> [] then Inl (Leftovers (skip_ws s)) else Inr cmd)"

section \<open>Running commands\<close>

definition sh_panic :: "string \<Rightarrow> 'a prog" where
  "sh_panic msg = pbind (printf 2 (''%s'' @ nl) [str (asc msg)]) (\<lambda>_. Exit)"

definition fork1 :: "int prog" where
  "fork1 = pbind (sys S_fork) (\<lambda>pid. if pid = -1 then sh_panic ''fork'' else Ret pid)"

text \<open>The descriptors that \<^verbatim>\<open>pipe\<close> stored in \<^verbatim>\<open>p[0]\<close> and \<^verbatim>\<open>p[1]\<close>.\<close>

definition pipe_fds :: "u8 list \<Rightarrow> int \<times> int" where
  "pipe_fds bs = (sint (get32 bs 0), sint (get32 bs 4))"

text \<open>The end of a pipe becomes descriptor \<open>d\<close>.\<close>

definition sh_dup :: "int \<Rightarrow> int \<Rightarrow> int \<times> int \<Rightarrow> unit prog" where
  "sh_dup d fd = (\<lambda>(p0, p1).
     pbind (do_sys (S_close d)) (\<lambda>_.
     pbind (do_sys (S_dup fd)) (\<lambda>_.
     pbind (do_sys (S_close p0)) (\<lambda>_. do_sys (S_close p1)))))"

primrec runcmd :: "cmd \<Rightarrow> unit prog" where
  "runcmd (EXEC argv) =
     (case argv of [] \<Rightarrow> Exit
      | a # _ \<Rightarrow> pbind (do_sys (S_exec a argv)) (\<lambda>_.
                 pbind (printf 2 (''exec %s failed'' @ nl) [str a]) (\<lambda>_. Exit)))"
| "runcmd (REDIR c f mode fd) =
     pbind (do_sys (S_close fd)) (\<lambda>_.
     pbind (sys (S_open f mode)) (\<lambda>r.
       if r < 0 then pbind (printf 2 (''open %s failed'' @ nl) [str f]) (\<lambda>_. Exit)
       else runcmd c))"
| "runcmd (LIST l r) =
     pbind fork1 (\<lambda>pid.
       if pid = 0 then runcmd l
       else pbind (do_sys S_wait) (\<lambda>_. runcmd r))"
| "runcmd (PIPE l r) =
     Sys S_pipe (\<lambda>(v, bs).
       if v < 0 then sh_panic ''pipe''
       else let p = pipe_fds bs in
         pbind fork1 (\<lambda>pid.
           if pid = 0 then pbind (sh_dup 1 (snd p) p) (\<lambda>_. runcmd l)
           else pbind fork1 (\<lambda>pid.
             if pid = 0 then pbind (sh_dup 0 (fst p) p) (\<lambda>_. runcmd r)
             else pbind (do_sys (S_close (fst p))) (\<lambda>_.
                  pbind (do_sys (S_close (snd p))) (\<lambda>_.
                  pbind (do_sys S_wait) (\<lambda>_.
                  pbind (do_sys S_wait) (\<lambda>_. Exit)))))))"
| "runcmd (BACK c) = pbind fork1 (\<lambda>pid. if pid = 0 then runcmd c else Exit)"

text \<open>\<^verbatim>\<open>getcmd\<close> with a buffer of \<open>n\<close> bytes; \<^const>\<open>None\<close> is the result -1.\<close>

definition getcmd :: "nat \<Rightarrow> u8 list option prog" where
  "getcmd n = pbind (printf 2 ''$ '' []) (\<lambda>_.
     pbind (gets n) (\<lambda>buf. let s = takeWhile (\<lambda>c. c \<noteq> 0) buf in Ret (if s = [] then None else Some s)))"

definition sh_run :: "u8 list \<Rightarrow> unit prog" where
  "sh_run s =
     (case parsecmd s of
        Inr c \<Rightarrow> runcmd c
      | Inl (Syntax m) \<Rightarrow> sh_panic m
      | Inl (Leftovers r) \<Rightarrow> pbind (printf 2 (''leftovers: %s'' @ nl) [str r]) (\<lambda>_. sh_panic ''syntax'')
      | Inl Out_of_fuel \<Rightarrow> Diverge)"

definition sh_console :: "unit prog" where
  "sh_console = ploop (\<lambda>_.
     pbind (sys (S_open (asc ''console'') 2)) (\<lambda>fd.
       if fd < 0 then Ret (Inl ())
       else if fd \<ge> 3 then pbind (do_sys (S_close fd)) (\<lambda>_. Ret (Inl ()))
       else Ret (Inr ()))) ()"

definition sh_main :: "unit prog" where
  "sh_main =
     pbind sh_console (\<lambda>_.
     pbind (ploop (\<lambda>_.
       pbind (getcmd 100) (\<lambda>q.
         case q of None \<Rightarrow> Ret (Inl ())
         | Some buf \<Rightarrow>
             if take 3 buf = asc ''cd '' then
               let dir = drop 3 (butlast buf) in
               pbind (sys (S_chdir dir)) (\<lambda>r.
               pbind (if r < 0 then printf 2 (''cannot cd %s'' @ nl) [str dir] else Ret ()) (\<lambda>_. Ret (Inr ())))
             else pbind fork1 (\<lambda>pid.
               if pid = 0 then pbind (sh_run buf) (\<lambda>_. Exit)
               else pbind (do_sys S_wait) (\<lambda>_. Ret (Inr ()))))) ()) (\<lambda>_. Exit))"

section \<open>The fuel is enough\<close>

text \<open>A parse of \<open>s\<close> that did not run out of fuel, and left no more input than it got.\<close>

definition parsed :: "u8 list \<Rightarrow> 'a parse \<Rightarrow> bool" where
  "parsed s r = (case r of Inl e \<Rightarrow> e \<noteq> Out_of_fuel | Inr (a, s') \<Rightarrow> length s' \<le> length s)"

lemma parsed_simps [simp]:
  "parsed s (Inl e) \<longleftrightarrow> e \<noteq> Out_of_fuel"
  "parsed s (Inr (a, s')) \<longleftrightarrow> length s' \<le> length s"
  by (simp_all add: parsed_def)

lemma parsed_pthen:
  assumes "parsed s r" "\<And>a s'. length s' \<le> length s \<Longrightarrow> parsed s (f a s')"
  shows "parsed s (pthen r f)"
  using assms by (cases r) (auto simp: pthen_def)

lemma parsed_mono: "parsed s r \<Longrightarrow> length s \<le> length s' \<Longrightarrow> parsed s' r"
  by (cases r) auto

lemma parsed_parseredirs: "parsed s (parseredirs s)"
proof (induction s rule: parseredirs.induct)
  case (1 s)
  obtain tok q s1 t f s2 where g: "gettoken s = (tok, q, s1)" "gettoken s1 = (t, f, s2)"
    by (metis prod_cases3)
  have "length s2 \<le> length s" using gettoken_le [of s] gettoken_le [of s1] g by simp
  moreover from 1 g have "parsed s2 (parseredirs s2)" if "peek s ''<>''" "t = of_char CHR ''a''" using that by auto
  ultimately show ?case unfolding parseredirs.simps [of s]
    by (auto simp: g length_skip_ws intro!: parsed_pthen intro: parsed_mono)
qed

lemma parsed_parseargs: "parsed s (parseargs args rs s)"
proof (induction args rs s rule: parseargs.induct)
  case (1 args rs s)
  obtain tok q s1 where g: "gettoken s = (tok, q, s1)" by (metis prod_cases3)
  have l: "length s1 \<le> length s" using gettoken_le [of s] g by simp
  have "parsed s (case parseredirs s1 of Inl e \<Rightarrow> Inl e | Inr (rs', s'') \<Rightarrow> parseargs (args @ [q]) (rs @ rs') s'')"
    if "\<not> peek s ''|)&;''" "tok \<noteq> 0" "tok = of_char CHR ''a''" "\<not> length args + 1 \<ge> MAXARGS"
  proof (cases "parseredirs s1")
    case (Inl e) with parsed_parseredirs [of s1] show ?thesis by simp
  next
    case (Inr x)
    then obtain rs' s2 where x: "parseredirs s1 = Inr (rs', s2)" by (cases x) auto
    with parsed_parseredirs [of s1] have "length s2 \<le> length s1" by simp
    moreover have "parsed s2 (parseargs (args @ [q]) (rs @ rs') s2)" using 1 that g x by auto
    ultimately show ?thesis using l x by (auto intro: parsed_mono)
  qed
  then show ?case unfolding parseargs.simps [of args rs s]
    using l by (auto simp: g length_skip_ws)
qed

lemma parsebacks_le: "parsebacks c s = (c', s') \<Longrightarrow> length s' \<le> length s"
proof (induction c s rule: parsebacks.induct)
  case (1 c s)
  show ?case
  proof (cases "peek s ''&''")
    case True
    with "1.prems" have "parsebacks (BACK c) (rest_token s) = (c', s')" by (simp add: parsebacks.simps [of c s])
    with "1.IH" True gettoken_le [of s] show ?thesis by fastforce
  next
    case False with "1.prems" show ?thesis by (auto simp: parsebacks.simps [of c s] length_skip_ws)
  qed
qed

lemma token_fuel: "peek s toks \<Longrightarrow> 4 * length (rest_token s) + 4 \<le> 4 * length s"
  using gettoken_shorter [OF peek_not_Nil] by fastforce

lemma parsed_line_step:
  assumes "parsed s (parsepipe n s)" "\<And>t. 4 * length t + 4 \<le> 4 * length s \<Longrightarrow> parsed t (parseline n t)"
  shows "parsed s (parseline (Suc n) s)"
  unfolding parseline.simps
proof (rule parsed_pthen [OF assms(1)], goal_cases)
  case (1 c s1)
  obtain c2 s2 where b: "parsebacks c s1 = (c2, s2)" by force
  have l: "length s2 \<le> length s" using 1 parsebacks_le [OF b] by simp
  have "parsed s (pthen (parseline n (rest_token s2)) (\<lambda>r s. Inr (LIST c2 r, s)))" if "peek s2 '';''"
    using assms(2) [of "rest_token s2"] token_fuel [OF that] gettoken_le [of s2] l
    by (intro parsed_pthen) (auto intro: parsed_mono)
  then show ?case using l length_skip_ws [of s2] by (simp add: b)
qed

lemma parsed_pipe_step:
  assumes "parsed s (parseexec n s)" "\<And>t. 4 * length t + 4 \<le> 4 * length s \<Longrightarrow> parsed t (parsepipe n t)"
  shows "parsed s (parsepipe (Suc n) s)"
  unfolding parsepipe.simps
proof (rule parsed_pthen [OF assms(1)], goal_cases)
  case (1 c s1)
  have "parsed s (pthen (parsepipe n (rest_token s1)) (\<lambda>r s. Inr (PIPE c r, s)))" if "peek s1 ''|''"
    using assms(2) [of "rest_token s1"] token_fuel [OF that] gettoken_le [of s1] 1
    by (intro parsed_pthen) (auto intro: parsed_mono)
  then show ?case using 1 length_skip_ws [of s1] by simp
qed

lemma parsed_exec_step:
  assumes "parsed s (parseblock n s)"
  shows "parsed s (parseexec (Suc n) s)"
proof -
  have "parsed s (pthen (parseredirs s) (\<lambda>rs s. pthen (parseargs [] rs s) (\<lambda>(args, rs) s. Inr (foldl add_redir (EXEC args) rs, s))))"
    using parsed_parseargs by (intro parsed_pthen parsed_parseredirs) (auto intro: parsed_mono)
  with assms show ?thesis by simp
qed

lemma parsed_block_step:
  assumes "\<And>t. 4 * length t + 4 \<le> 4 * length s \<Longrightarrow> parsed t (parseline n t)"
  shows "parsed s (parseblock (Suc n) s)"
proof -
  have "parsed s (pthen (parseline n (rest_token s)) (\<lambda>c s.
        if \<not> peek s '')'' then Inl (Syntax ''syntax - missing )'')
        else pthen (parseredirs (rest_token s)) (\<lambda>rs s. Inr (foldl add_redir c rs, s))))" if "peek s ''(''"
  proof (rule parsed_pthen, goal_cases)
    case 1 then show ?case
      using assms [of "rest_token s"] token_fuel [OF that] gettoken_le [of s] by (auto intro: parsed_mono)
  next
    case (2 c s1)
    have "parsed s (parseredirs (rest_token s1))"
      using parsed_parseredirs [of "rest_token s1"] gettoken_le [of s1] 2 by (auto intro: parsed_mono)
    then show ?case by (auto intro: parsed_pthen)
  qed
  then show ?thesis by simp
qed

lemma parse_fuel:
  "(\<forall>s. 4 * length s + 4 \<le> n \<longrightarrow> parsed s (parseline n s))
   \<and> (\<forall>s. 4 * length s + 3 \<le> n \<longrightarrow> parsed s (parsepipe n s))
   \<and> (\<forall>s. 4 * length s + 2 \<le> n \<longrightarrow> parsed s (parseexec n s))
   \<and> (\<forall>s. 4 * length s + 1 \<le> n \<longrightarrow> parsed s (parseblock n s))"
proof (induction n)
  case (Suc n)
  then show ?case
    by (auto intro!: parsed_line_step parsed_pipe_step parsed_exec_step parsed_block_step
        simp del: parseline.simps parsepipe.simps parseexec.simps parseblock.simps)
qed simp

text \<open>
  C34. The parser terminates on every input line: \<^verbatim>\<open>parsecmd\<close> returns a command, stops with one of its
  syntax errors, or reports leftover input; the fuel of the model never runs out.
\<close>

theorem parsecmd_terminates: "parsecmd s \<noteq> Inl Out_of_fuel"
  using parse_fuel [of "4 * length s + 4"] by (auto simp: parsecmd_def split: sum.splits)

section \<open>Printing commands\<close>

fun show_cmd :: "cmd \<Rightarrow> u8 list" where
  "show_cmd (EXEC ws) = concat (map (\<lambda>w. w @ [0x20]) ws)"
| "show_cmd (REDIR c f mode fd) = 0x28 # show_cmd c @ 0x29 # (if fd = 0 then 0x3C else 0x3E) # f @ [0x20]"
| "show_cmd (PIPE l r) = 0x28 # show_cmd l @ 0x29 # 0x7C # 0x28 # show_cmd r @ [0x29]"
| "show_cmd (LIST l r) = 0x28 # show_cmd l @ 0x29 # 0x3B # 0x28 # show_cmd r @ [0x29]"
| "show_cmd (BACK c) = 0x28 # show_cmd c @ [0x29, 0x26]"

definition valid_word :: "u8 list \<Rightarrow> bool" where
  "valid_word w \<longleftrightarrow> w \<noteq> [] \<and> list_all word_char w \<and> 0 \<notin> set w"

fun wf_cmd :: "cmd \<Rightarrow> bool" where
  "wf_cmd (EXEC ws) \<longleftrightarrow> list_all valid_word ws \<and> length ws < MAXARGS"
| "wf_cmd (REDIR c f mode fd) \<longleftrightarrow> wf_cmd c \<and> valid_word f \<and> (mode, fd) \<in> {(0, 0), (0x201, 1)}"
| "wf_cmd (PIPE l r) \<longleftrightarrow> wf_cmd l \<and> wf_cmd r"
| "wf_cmd (LIST l r) \<longleftrightarrow> wf_cmd l \<and> wf_cmd r"
| "wf_cmd (BACK c) \<longleftrightarrow> wf_cmd c"

text \<open>What can follow a command in a block or at the end of the line.\<close>

definition ended :: "u8 list \<Rightarrow> bool" where
  "ended r \<longleftrightarrow> r = [] \<or> hd r = 0x29"

lemma skip_ws_Nil [simp]: "skip_ws [] = []"
  by (simp add: skip_ws_def)

lemma skip_ws_Cons: "skip_ws (c # r) = (if strchr whitespace c \<noteq> None then skip_ws r else c # r)"
  by (simp add: skip_ws_def)

lemma skip_ws_symbol [simp]:
  "skip_ws (0x28 # r) = 0x28 # r" "skip_ws (0x29 # r) = 0x29 # r" "skip_ws (0x7C # r) = 0x7C # r"
  "skip_ws (0x26 # r) = 0x26 # r" "skip_ws (0x3B # r) = 0x3B # r" "skip_ws (0x3C # r) = 0x3C # r"
  "skip_ws (0x3E # r) = 0x3E # r" "skip_ws (0x20 # r) = skip_ws r"
  by (simp_all add: skip_ws_Cons whitespace_def)

lemma skip_ws_ended [simp]: "ended r \<Longrightarrow> skip_ws r = r"
  by (cases r) (auto simp: ended_def)

lemma peek_Nil [simp]: "\<not> peek [] toks"
  by (simp add: peek_def)

lemma peek_symbol [simp]:
  "c \<in> {0x28, 0x29, 0x7C, 0x26, 0x3B, 0x3C, 0x3E} \<Longrightarrow> peek (c # r) toks \<longleftrightarrow> c \<in> set (asc toks)"
proof -
  have s: "strchr (asc toks) c \<noteq> None \<longleftrightarrow> c \<in> set (asc toks)" by (induction toks) (auto simp: asc_def)
  assume "c \<in> {0x28, 0x29, 0x7C, 0x26, 0x3B, 0x3C, 0x3E}"
  then have "skip_ws (c # r) = c # r" by auto
  with s show ?thesis by (simp add: peek_def)
qed

lemma peek_ended: "ended r \<Longrightarrow> peek r toks \<longleftrightarrow> r \<noteq> [] \<and> 0x29 \<in> set (asc toks)"
  by (cases r) (auto simp: ended_def)

lemma rest_symbol [simp]:
  "c \<in> {0x28, 0x29, 0x7C, 0x26, 0x3B} \<Longrightarrow> rest_token (c # r) = skip_ws r"
  by (auto simp: gettoken_def asc_def)

lemma word_char_facts:
  assumes "word_char c"
  shows "skip_ws (c # r) = c # r" "c \<notin> set symbols"
proof -
  have "strchr s c = None \<longleftrightarrow> c \<notin> set s" for s by (induction s) auto
  then show "skip_ws (c # r) = c # r" "c \<notin> set symbols"
    using assms by (simp_all add: word_char_def skip_ws_Cons)
qed

lemma peek_word:
  assumes "valid_word w" "set (asc toks) \<subseteq> set symbols"
  shows "\<not> peek (w @ r) toks"
proof -
  obtain c w' where w: "w = c # w'" "word_char c" using assms(1) by (cases w) (auto simp: valid_word_def)
  have "strchr s c = None \<longleftrightarrow> c \<notin> set s" for s by (induction s) auto
  with w assms(2) word_char_facts(2) [of c] show ?thesis
    by (auto simp: peek_def word_char_facts(1))
qed

lemma gettoken_word:
  assumes "valid_word w"
  shows "gettoken (w @ 0x20 # r) = (0x61, w, skip_ws r)"
proof -
  obtain c w' where w: "w = c # w'" "word_char c" using assms by (cases w) (auto simp: valid_word_def)
  have "\<not> word_char 0x20" by (simp add: word_char_def whitespace_def)
  then have "takeWhile word_char (w @ 0x20 # r) = w" "dropWhile word_char (w @ 0x20 # r) = 0x20 # r"
    using assms by (simp_all add: valid_word_def list_all_iff takeWhile_append2 dropWhile_append2)
  with w word_char_facts(2) [OF w(2)] show ?thesis
    by (simp add: gettoken_def word_char_facts(1) symbols_def asc_def)
qed

lemma parseredirs_none: "\<not> peek s ''<>'' \<Longrightarrow> parseredirs s = Inr ([], skip_ws s)"
  by (simp add: parseredirs.simps)

lemma skip_ws_word: "valid_word w \<Longrightarrow> skip_ws (w @ r) = w @ r"
  by (cases w) (auto simp: valid_word_def word_char_facts(1))

lemma gettoken_redir:
  assumes "valid_word f" "c \<in> {0x3C, 0x3E}"
  shows "gettoken (c # f @ r) = (c, [c], f @ r)"
proof -
  obtain d f' where "f = d # f'" "word_char d" using assms(1) by (cases f) (auto simp: valid_word_def)
  moreover from this have "d \<noteq> 0x3E" using word_char_facts(2) [of d] by (auto simp: symbols_def asc_def)
  ultimately show ?thesis using assms skip_ws_word [OF assms(1)] by (auto simp: gettoken_def asc_def)
qed

lemma parseredirs_one:
  assumes "valid_word f" "c \<in> {0x3C, 0x3E}" "ended r"
  shows "parseredirs (c # f @ 0x20 # r) = Inr ([redir_of c f], r)"
proof -
  have "peek (c # f @ 0x20 # r) ''<>''" using assms(2) by (auto simp: asc_def)
  then show ?thesis
    using assms by (subst parseredirs.simps)
      (simp add: gettoken_redir gettoken_word parseredirs_none peek_ended asc_def)
qed

lemma show_exec_cases:
  assumes "list_all valid_word ws" "ended r"
  shows "skip_ws (show_cmd (EXEC ws) @ r) = show_cmd (EXEC ws) @ r"
    "\<not> peek (show_cmd (EXEC ws) @ r) ''<>''" "\<not> peek (show_cmd (EXEC ws) @ r) ''(''"
  using assms by (cases ws; simp add: skip_ws_word peek_word peek_ended asc_def symbols_def)+

lemma parseargs_show:
  "list_all valid_word ws \<Longrightarrow> ended r \<Longrightarrow> length args + length ws < MAXARGS \<Longrightarrow>
    parseargs args rs (show_cmd (EXEC ws) @ r) = Inr ((args @ ws, rs), r)"
proof (induction ws arbitrary: args)
  case Nil
  then show ?case by (subst parseargs.simps) (cases r; simp add: peek_ended asc_def gettoken_def ended_def)
next
  case (Cons w ws)
  let ?t = "show_cmd (EXEC ws) @ r"
  have "parseargs (args @ [w]) rs ?t = Inr ((args @ w # ws, rs), r)" using Cons by simp
  moreover have "\<not> peek (w @ 0x20 # ?t) ''|)&;''" using Cons.prems by (intro peek_word) (auto simp: asc_def symbols_def)
  moreover have "gettoken (w @ 0x20 # ?t) = (0x61, w, ?t)" "parseredirs ?t = Inr ([], ?t)"
    using Cons.prems show_exec_cases [of ws r] by (simp_all add: gettoken_word parseredirs_none)
  ultimately show ?case using Cons.prems by (subst parseargs.simps) simp
qed

lemma skip_ws_show: "wf_cmd c \<Longrightarrow> ended r \<Longrightarrow> skip_ws (show_cmd c @ r) = show_cmd c @ r"
  using show_exec_cases(1) by (cases c) auto

text \<open>\<open>reads c\<close>: the parser reads back what \<^const>\<open>show_cmd\<close> prints for \<open>c\<close>, with any fuel that is enough.\<close>

definition reads :: "cmd \<Rightarrow> bool" where
  "reads c \<longleftrightarrow> (\<forall>n r. ended r \<longrightarrow> 4 * length (show_cmd c @ r) + 4 \<le> n \<longrightarrow>
     parseline n (show_cmd c @ r) = Inr (c, r))"

lemma readsD:
  "reads c \<Longrightarrow> ended r \<Longrightarrow> 4 * length (show_cmd c @ r) + 4 \<le> n \<Longrightarrow> parseline n (show_cmd c @ r) = Inr (c, r)"
  by (simp add: reads_def)

lemma parseexec_block:
  assumes c: "reads c" "wf_cmd c" and n: "4 * length (0x28 # show_cmd c @ 0x29 # t) + 2 \<le> n"
  shows "parseexec n (0x28 # show_cmd c @ 0x29 # t) =
    pthen (parseredirs (skip_ws t)) (\<lambda>rs s. Inr (foldl add_redir c rs, s))"
proof -
  have e: "ended (0x29 # t)" by (simp add: ended_def)
  define m where "m = n - 2"
  with n have m: "n = Suc (Suc m)" by simp
  have "parseline m (show_cmd c @ 0x29 # t) = Inr (c, 0x29 # t)"
    using n by (intro readsD [OF c(1) e]) (simp add: m_def)
  then show ?thesis using skip_ws_show [OF c(2) e] by (simp add: m asc_def)
qed

lemma parsepipe_block:
  assumes c: "reads c" "wf_cmd c" and n: "4 * length (0x28 # show_cmd c @ 0x29 # t) + 3 \<le> n"
    and t: "parseredirs (skip_ws t) = Inr (rs, t')" "skip_ws t' = t'" "\<not> peek t' ''|''"
  shows "parsepipe n (0x28 # show_cmd c @ 0x29 # t) = Inr (foldl add_redir c rs, t')"
proof -
  obtain m where m: "n = Suc m" using n by (cases n) auto
  have "parseexec m (0x28 # show_cmd c @ 0x29 # t) = Inr (foldl add_redir c rs, t')"
    using n m t by (subst parseexec_block [OF c]) simp_all
  with t show ?thesis by (simp add: m)
qed

lemma parsebacks_none: "\<not> peek s ''&'' \<Longrightarrow> parsebacks c s = (c, skip_ws s)"
  by (simp add: parsebacks.simps)

lemma parseline_ended:
  assumes "parsepipe n s = Inr (c, r)" "ended r"
  shows "parseline (Suc n) s = Inr (c, r)"
  using assms by (simp add: parsebacks_none peek_ended asc_def)

lemma reads_block_alone:
  assumes "reads c" "wf_cmd c" "ended r" "4 * length (0x28 # show_cmd c @ 0x29 # r) + 3 \<le> n"
  shows "parsepipe n (0x28 # show_cmd c @ 0x29 # r) = Inr (c, r)"
  using parsepipe_block [OF assms(1,2,4), of "[]" r] assms(3) by (simp add: parseredirs_none peek_ended asc_def)

lemma reads_exec: assumes "wf_cmd (EXEC ws)" shows "reads (EXEC ws)"
  unfolding reads_def
proof (intro allI impI)
  fix n r assume r: "ended r" and n: "4 * length (show_cmd (EXEC ws) @ r) + 4 \<le> n"
  define m where "m = n - 3"
  with n have m: "n = Suc (Suc (Suc m))" by simp
  have w: "list_all valid_word ws" using assms by simp
  note e = show_exec_cases [OF w r]
  have "parseexec (Suc m) (show_cmd (EXEC ws) @ r) = Inr (EXEC ws, r)"
    using e parseargs_show [OF w r, of "[]" "[]"] assms by (simp add: parseredirs_none)
  then have "parsepipe (Suc (Suc m)) (show_cmd (EXEC ws) @ r) = Inr (EXEC ws, r)"
    using r by (simp add: peek_ended asc_def)
  then show "parseline n (show_cmd (EXEC ws) @ r) = Inr (EXEC ws, r)"
    unfolding m using r by (rule parseline_ended)
qed

lemma reads_redir: assumes "reads c" "wf_cmd (REDIR c f mode fd)" shows "reads (REDIR c f mode fd)"
  unfolding reads_def
proof (intro allI impI)
  fix n r assume r: "ended r" and n: "4 * length (show_cmd (REDIR c f mode fd) @ r) + 4 \<le> n"
  obtain m where m: "n = Suc m" using n by (cases n) auto
  let ?o = "if fd = 0 then 0x3C else 0x3E :: u8"
  have "parseredirs (skip_ws (?o # f @ 0x20 # r)) = Inr ([redir_of ?o f], r)"
    using assms(2) r by (auto simp: parseredirs_one)
  then have "parsepipe m (0x28 # show_cmd c @ 0x29 # ?o # f @ 0x20 # r) = Inr (foldl add_redir c [redir_of ?o f], r)"
    using assms r n m by (intro parsepipe_block) (simp_all add: peek_ended asc_def)
  moreover have "foldl add_redir c [redir_of ?o f] = REDIR c f mode fd"
    using assms(2) by (auto simp: add_redir_def redir_of_def)
  ultimately show "parseline n (show_cmd (REDIR c f mode fd) @ r) = Inr (REDIR c f mode fd, r)"
    unfolding m using r by (intro parseline_ended) simp_all
qed

lemma reads_pipe: assumes "reads c" "reads d" "wf_cmd (PIPE c d)" shows "reads (PIPE c d)"
  unfolding reads_def
proof (intro allI impI)
  fix n r assume r: "ended r" and n: "4 * length (show_cmd (PIPE c d) @ r) + 4 \<le> n"
  define m where "m = n - 2"
  with n have m: "n = Suc (Suc m)" by simp
  let ?t = "0x28 # show_cmd d @ 0x29 # r"
  have "parsepipe m ?t = Inr (d, r)" using assms r n m by (intro reads_block_alone) simp_all
  moreover have "parseexec m (0x28 # show_cmd c @ 0x29 # 0x7C # ?t) = Inr (c, 0x7C # ?t)"
    using assms(1,3) n m by (subst parseexec_block) (simp_all add: parseredirs_none asc_def)
  ultimately have "parsepipe (Suc m) (0x28 # show_cmd c @ 0x29 # 0x7C # ?t) = Inr (PIPE c d, r)"
    by (simp add: asc_def)
  with r show "parseline n (show_cmd (PIPE c d) @ r) = Inr (PIPE c d, r)"
    unfolding m by (intro parseline_ended) simp_all
qed

lemma reads_list: assumes "reads c" "reads d" "wf_cmd (LIST c d)" shows "reads (LIST c d)"
  unfolding reads_def
proof (intro allI impI)
  fix n r assume r: "ended r" and n: "4 * length (show_cmd (LIST c d) @ r) + 4 \<le> n"
  define m where "m = n - 2"
  with n have m: "n = Suc (Suc m)" by simp
  let ?t = "0x28 # show_cmd d @ 0x29 # r"
  have "parsepipe m ?t = Inr (d, r)" using assms r n by (intro reads_block_alone) (simp_all add: m_def)
  then have "parseline (Suc m) ?t = Inr (d, r)" using r by (rule parseline_ended)
  moreover have "parsepipe (Suc m) (0x28 # show_cmd c @ 0x29 # 0x3B # ?t) = Inr (foldl add_redir c [], 0x3B # ?t)"
    using assms n m by (intro parsepipe_block) (simp_all add: parseredirs_none asc_def)
  ultimately show "parseline n (show_cmd (LIST c d) @ r) = Inr (LIST c d, r)"
    by (simp add: m parsebacks_none asc_def del: parsepipe.simps parseline.simps(1) parseline.simps(2))
       (simp add: parsebacks_none asc_def del: parsepipe.simps)
qed

lemma reads_back: assumes "reads c" "wf_cmd (BACK c)" shows "reads (BACK c)"
  unfolding reads_def
proof (intro allI impI)
  fix n r assume r: "ended r" and n: "4 * length (show_cmd (BACK c) @ r) + 4 \<le> n"
  define m where "m = n - 1"
  with n have m: "n = Suc m" by simp
  have "parsepipe m (0x28 # show_cmd c @ 0x29 # 0x26 # r) = Inr (foldl add_redir c [], 0x26 # r)"
    using assms n m by (intro parsepipe_block) (simp_all add: parseredirs_none asc_def)
  moreover have "parsebacks c (0x26 # r) = (BACK c, r)"
    using r by (subst parsebacks.simps) (simp add: parsebacks_none peek_ended asc_def)
  ultimately show "parseline n (show_cmd (BACK c) @ r) = Inr (BACK c, r)"
    using r by (simp add: m peek_ended asc_def)
qed

lemma reads_all: "wf_cmd c \<Longrightarrow> reads c"
  by (induction c) (auto simp del: wf_cmd.simps(1) intro: reads_exec reads_redir reads_pipe reads_list reads_back)

text \<open>
  C33. The parser accepts the whole command language: every command tree whose words are
  non-empty and free of white space and symbols, with fewer than \<^verbatim>\<open>MAXARGS\<close> words per simple
  command and the modes that \<^verbatim>\<open>parseredirs\<close> produces, is read back exactly from its printed form.
\<close>

theorem parsecmd_show:
  assumes "wf_cmd c"
  shows "parsecmd (show_cmd c) = Inr c"
  using readsD [OF reads_all [OF assms], of "[]" "4 * length (show_cmd c) + 4"]
  by (simp add: parsecmd_def ended_def)

theorem parsecmd_show_witness:
  "parsecmd (show_cmd (LIST (BACK (EXEC [[0x61], [0x62]])) (PIPE (EXEC [[0x63]]) (REDIR (EXEC [[0x64]]) [0x65] 0x201 1))))
     = Inr (LIST (BACK (EXEC [[0x61], [0x62]])) (PIPE (EXEC [[0x63]]) (REDIR (EXEC [[0x64]]) [0x65] 0x201 1)))"
  by (rule parsecmd_show)
     (simp add: valid_word_def word_char_def whitespace_def symbols_def asc_def MAXARGS_def)

end
