(* ===== verification/Tty.thy ===== *)
theory Tty
  imports Console
begin

text \<open>
  What the console driver promises. Output: as long as the cursor starts on the screen it stays there,
  and printing never panics. Input: the keyboard handler refines a line editor on two lists, the
  bytes that readers may take and the line that is still being edited, whatever the positions of the
  three indices in the ring buffer.
\<close>

section \<open>Output\<close>

text \<open>The state up to what is shown and sent.\<close>

definition same_but_output :: "'a consst_scheme \<Rightarrow> 'a consst_scheme \<Rightarrow> bool" where
  "same_but_output s t \<longleftrightarrow> t = s\<lparr>crt_pos := crt_pos t, crt := crt t, serial := serial t\<rparr>"

definition screen_ok :: "'a consst_scheme \<Rightarrow> bool" where
  "screen_ok s \<longleftrightarrow> \<not> panicked s \<and> uint (crt_pos s) < 24 * 80"

definition prints :: "('a consst_scheme, unit) res \<Rightarrow> 'a consst_scheme \<Rightarrow> bool" where
  "prints r s \<longleftrightarrow> (\<exists>t. r = Ok () t \<and> screen_ok t \<and> same_but_output s t)"

lemma same_but_output_refl [simp]: "same_but_output s s"
  by (simp add: same_but_output_def)

lemma same_but_output_trans: "same_but_output s t \<Longrightarrow> same_but_output t u \<Longrightarrow> same_but_output s u"
  by (cases s; cases t; cases u) (simp add: same_but_output_def)

lemma same_but_output_simps:
  assumes "same_but_output s t"
  shows "input t = input s" "held t = held s" "procs t = procs s" "cons_locking t = cons_locking s"
  using assms by (cases s; cases t; simp add: same_but_output_def)+

lemma uartputc_same: "same_but_output s (uartputc c s)" "screen_ok (uartputc c s) = screen_ok s"
  by (cases s; simp add: same_but_output_def uartputc_def screen_ok_def)+

text \<open>The position before the scroll, which \<^verbatim>\<open>cgaputc\<close> checks.\<close>

definition cga_pos :: "int \<Rightarrow> int \<Rightarrow> int" where
  "cga_pos c pos = (if c = 10 then pos + (80 - pos mod 80)
     else if c = BACKSPACE then (if pos > 0 then pos - 1 else pos) else pos + 1)"

lemma cga_pos_range:
  assumes "0 \<le> pos" "pos < 24 * 80"
  shows "0 \<le> cga_pos c pos" "cga_pos c pos \<le> 24 * 80"
proof -
  have m: "0 \<le> pos mod 80" "pos mod 80 < 80" by simp_all
  have "pos div 80 + 1 \<le> 24" using assms by linarith
  have "pos + (80 - pos mod 80) = 80 * (pos div 80 + 1)" by presburger
  also have "\<dots> \<le> 80 * 24" using \<open>pos div 80 + 1 \<le> 24\<close> by (intro mult_left_mono) simp_all
  finally have "pos + (80 - pos mod 80) \<le> 24 * 80" by simp
  with assms m show "0 \<le> cga_pos c pos" "cga_pos c pos \<le> 24 * 80" by (auto simp: cga_pos_def)
qed

lemma cgaputc_prints:
  assumes "screen_ok s"
  shows "prints (cgaputc c s) s"
proof -
  let ?p = "cga_pos c (uint (crt_pos s))"
  have r: "0 \<le> ?p" "?p \<le> 24 * 80" using assms cga_pos_range [of "uint (crt_pos s)"] by (auto simp: screen_ok_def)
  define p where "p = (if ?p div 80 \<ge> 24 then ?p - 80 else ?p)"
  have p: "0 \<le> p" "p < 24 * 80" using r by (auto simp: p_def)
  let ?x = "if c = 10 then (uint (crt_pos s) + (80 - uint (crt_pos s) mod 80), crt s)
      else if c = BACKSPACE then (if uint (crt_pos s) > 0 then uint (crt_pos s) - 1 else uint (crt_pos s), crt s)
      else (uint (crt_pos s) + 1, (crt s)(nat (uint (crt_pos s)) := word_of_int (c mod 256) OR 0x0700))"
  have "fst ?x = ?p" by (simp add: cga_pos_def)
  then obtain m0 where m0: "?x = (?p, m0)" by (cases ?x) simp
  have "\<not> (?p < 0 \<or> ?p > 25 * 80)" using r by simp
  then have "\<exists>m. cgaputc c s = Ok () (s\<lparr>crt_pos := word_of_int p, crt := m\<rparr>)"
    unfolding cgaputc_def Let_def m0 prod.case p_def by (cases "24 \<le> ?p div 80") (simp_all only: if_True if_False prod.case, blast+)
  then obtain m where "cgaputc c s = Ok () (s\<lparr>crt_pos := word_of_int p, crt := m\<rparr>)" ..
  moreover have "uint (word_of_int p :: u16) = p" using p by (simp add: uint_word_of_int)
  ultimately show ?thesis using assms p
    by (cases s) (auto simp: prints_def screen_ok_def same_but_output_def)
qed

lemma consputc_prints:
  assumes "screen_ok s"
  shows "prints (consputc c s) s"
proof -
  let ?u = "if c = BACKSPACE then uartputc 8 (uartputc 0x20 (uartputc 8 s)) else uartputc c s"
  have "same_but_output s ?u" "screen_ok ?u"
    using assms uartputc_same same_but_output_trans by (auto split: if_splits) blast+
  moreover have "\<not> panicked s" using assms by (simp add: screen_ok_def)
  ultimately show ?thesis using cgaputc_prints [of ?u c]
    by (auto simp: consputc_def prints_def Let_def intro: same_but_output_trans)
qed

lemma consputs_prints: "screen_ok s \<Longrightarrow> prints (consputs cs s) s"
proof (induction cs arbitrary: s)
  case Nil then show ?case by (simp add: prints_def)
next
  case (Cons c cs)
  from consputc_prints [OF Cons.prems] obtain t where
    "consputc (uint c) s = Ok () t" "screen_ok t" "same_but_output s t" by (auto simp: prints_def)
  with Cons.IH [of t] show ?case by (auto simp: prints_def intro: same_but_output_trans)
qed

lemma cprintf_ok:
  assumes "screen_ok s" "L_cons \<notin> set (held s)" "cprintf_bytes (asc fmt) args \<noteq> None"
  shows "prints (cprintf fmt args s) s"
proof -
  obtain cs where cs: "cprintf_bytes (asc fmt) args = Some cs" using assms(3) by blast
  let ?l = "s\<lparr>held := L_cons # held s\<rparr>"
  have "screen_ok ?l" using assms(1) by (simp add: screen_ok_def)
  then obtain t where t: "consputs cs ?l = Ok () t" "screen_ok t" "same_but_output ?l t"
    using consputs_prints by (auto simp: prints_def)
  moreover have "held t = L_cons # held s" using same_but_output_simps(2) [OF t(3)] by simp
  moreover have "screen_ok (t\<lparr>held := held s\<rparr>)" "same_but_output s (t\<lparr>held := held s\<rparr>)"
    using t by (cases s; cases t; simp add: screen_ok_def same_but_output_def)+
  ultimately have "cprintf fmt args s = Ok () (t\<lparr>held := held s\<rparr>)" if "cons_locking s"
    using assms(2) cs that by (simp add: cprintf_def lock_if_def unlock_if_def)
  moreover have "cprintf fmt args s = consputs cs s" if "\<not> cons_locking s"
    using cs that consputs_prints [OF assms(1), of cs]
    by (auto simp: cprintf_def lock_if_def unlock_if_def prints_def)
  ultimately show ?thesis
    using consputs_prints [OF assms(1)] \<open>screen_ok (t\<lparr>held := held s\<rparr>)\<close> \<open>same_but_output s (t\<lparr>held := held s\<rparr>)\<close>
    by (cases "cons_locking s") (auto simp: prints_def)
qed

lemma prints_bind:
  assumes "prints r s" "\<And>t. screen_ok t \<Longrightarrow> same_but_output s t \<Longrightarrow> prints (f () t) t"
  shows "prints (rbind r f) s"
proof -
  obtain t where t: "r = Ok () t" "screen_ok t" "same_but_output s t" using assms(1) by (auto simp: prints_def)
  with assms(2) [OF t(2,3)] show ?thesis by (auto simp: prints_def intro: same_but_output_trans)
qed

lemma dump_pcs_prints: "screen_ok s \<Longrightarrow> L_cons \<notin> set (held s) \<Longrightarrow> prints (dump_pcs pcs s) s"
proof (induction pcs arbitrary: s)
  case (Cons a pcs)
  have "prints (cprintf '' %p'' [FInt a] s) s" using Cons.prems by (intro cprintf_ok) (simp_all add: asc_def)
  then have "prints (rbind (cprintf '' %p'' [FInt a] s) (\<lambda>_ s. dump_pcs pcs s)) s"
    using Cons by (intro prints_bind) (auto simp: same_but_output_simps)
  with Cons.prems show ?case by (simp add: prints_def)
qed (simp add: prints_def)

lemma procdump_loop_prints: "screen_ok s \<Longrightarrow> L_cons \<notin> set (held s) \<Longrightarrow> prints (procdump_loop ix pcs s) s"
proof (induction ix arbitrary: s)
  case (Cons i ix)
  let ?p = "procs s ! i"
  have "prints (cprintf ''%d %s %s'' [FInt (word_of_int (p_pid ?p)), FStr (Some (asc (state_name (p_state ?p)))),
      FStr (Some (cstr 16 (p_name ?p)))] s) s" using Cons.prems by (intro cprintf_ok) (simp_all add: asc_def)
  then have "prints (rbind (cprintf ''%d %s %s'' [FInt (word_of_int (p_pid ?p)), FStr (Some (asc (state_name (p_state ?p)))),
      FStr (Some (cstr 16 (p_name ?p)))] s) (\<lambda>_ s.
        rbind (if p_state ?p = SLEEPING then dump_pcs (take 10 (pcs i)) s else Ok () s) (\<lambda>_ s. cprintf [CHR 0x0A] [] s))) s"
    using Cons.prems
    by (intro prints_bind) (auto simp: same_but_output_simps asc_def prints_def [of "Ok () _"]
        intro!: dump_pcs_prints cprintf_ok)
  then show ?case using Cons by (auto simp: Let_def same_but_output_simps prints_def [of "Ok () s" s] intro!: prints_bind)
qed (simp add: prints_def)

text \<open>
  C38. Console output is safe: with the cursor on the screen's 24 lines, \<^verbatim>\<open>cprintf\<close> with a format
  whose directives match its arguments returns, prints without a panic, leaves the cursor on the screen and the
  console lock as it was, and changes nothing but the screen and the serial line.
\<close>

theorem cprintf_prints:
  assumes "screen_ok s" "L_cons \<notin> set (held s)" "cprintf_bytes (asc fmt) args \<noteq> None"
  shows "prints (cprintf fmt args s) s"
  using assms by (rule cprintf_ok)

text \<open>A machine with an empty process, an empty disk and a blank screen.\<close>

definition tty0 :: consst where
  "tty0 = fsst.extend (logst.extend (bst.extend (slst.extend (slk3 (SL_buf 0) False)
       \<lparr>bufs = replicate (Suc NBUF) boot_buf, idequeue = None, havedisk1 = True,
        disk = (\<lambda>_ _. replicate BSIZE 0), ide_sel = (0, 0), ide_err = False\<rparr>)
       \<lparr>klog = \<lparr>lh_n = 0, lh_block = replicate LOGSIZE 0, lg_start = 2, lg_size = 30, lg_outstanding = 0,
          lg_committing = False, lg_dev = 1\<rparr>\<rparr>)
       \<lparr>sb = \<lparr>sb_size = 1000, sb_nblocks = 941, sb_ninodes = 200, sb_nlog = 30, sb_logstart = 2,
          sb_inodestart = 32, sb_bmapstart = 58\<rparr>, inodes = []\<rparr>)
       \<lparr>cons_locking = True, panicked = False, crt = (\<lambda>_. 0), crt_pos = 1919, uart = True, serial = [],
        input = \<lparr>in_buf = replicate INPUT_BUF 0, in_r = 0xFFFFFFFF, in_w = 0xFFFFFFFF, in_e = 0xFFFFFFFF\<rparr>,
        devtab = [], kbd_shift = 0\<rparr>"

lemma tty0_simps [simp]: "held tty0 = []" "screen_ok tty0" "cons_locking tty0"
  by (simp_all add: tty0_def slk3_def pipe3_def kmem3_def tab_of_def ptab.defs kmem.defs pipest.defs slst.defs
      bst.defs logst.defs fsst.defs screen_ok_def)

theorem cprintf_prints_witness: "prints (cprintf ''%d:%s'' [FInt 7, FStr None] tty0) tty0"
  by (rule cprintf_prints) (simp_all add: asc_def)

section \<open>The line editor\<close>

text \<open>
  The bytes from the read index to the edit index, oldest first. The first \<open>unat (w - r)\<close> of them are for readers,
  the rest is the line being edited.
\<close>

definition typed :: "input_t \<Rightarrow> u8 list" where
  "typed q = map (\<lambda>k. in_buf q ! ((unat (in_r q) + k) mod INPUT_BUF)) [0..<unat (in_e q - in_r q)]"

definition ready :: "input_t \<Rightarrow> nat" where
  "ready q = unat (in_w q - in_r q)"

definition line_state :: "input_t \<Rightarrow> u8 list \<times> u8 list" where
  "line_state q = (take (ready q) (typed q), drop (ready q) (typed q))"

definition line_inv :: "input_t \<Rightarrow> bool" where
  "line_inv q \<longleftrightarrow> length (in_buf q) = INPUT_BUF \<and> ready q \<le> length (typed q) \<and> length (typed q) \<le> INPUT_BUF
     \<and> 10 \<notin> set (drop (ready q) (typed q))"

text \<open>What a key does: Control-P nothing here, Control-U erases the line, Control-H and DEL its last byte.\<close>

definition key :: "int \<Rightarrow> u8 list \<times> u8 list \<Rightarrow> u8 list \<times> u8 list" where
  "key c = (\<lambda>(pend, ed).
     if c = ctrl CHR ''P'' then (pend, ed)
     else if c = ctrl CHR ''U'' then (pend, [])
     else if c = ctrl CHR ''H'' \<or> c = 0x7F then (pend, butlast ed)
     else if c \<noteq> 0 \<and> length pend + length ed < INPUT_BUF then
       (let b = (if c = 13 then 10 else c); ed = ed @ [word_of_int b] in
        if b = 10 \<or> b = ctrl CHR ''D'' \<or> length pend + length ed = INPUT_BUF then (pend @ ed, []) else (pend, ed))
     else (pend, ed))"

lemma length_typed: "length (typed q) = unat (in_e q - in_r q)"
  by (simp add: typed_def)

lemma slot_mod: "unat (r + x) mod INPUT_BUF = (unat (r :: u32) + unat x) mod INPUT_BUF"
  by (simp add: unat_word_ariths INPUT_BUF_def mod_mod_cancel)

lemma slot_e: "in_slot (in_e q) = (unat (in_r q) + length (typed q)) mod INPUT_BUF"
  using slot_mod [of "in_r q" "in_e q - in_r q"] by (simp add: in_slot_def length_typed)

lemma slots_differ: "k < d \<Longrightarrow> d < INPUT_BUF \<Longrightarrow> (a + k) mod INPUT_BUF \<noteq> (a + d) mod INPUT_BUF"
proof
  assume "k < d" "d < INPUT_BUF" "(a + k) mod INPUT_BUF = (a + d) mod INPUT_BUF"
  then have "INPUT_BUF dvd d - k" using mod_eq_dvd_iff_nat [of "a + k" "a + d" INPUT_BUF] by simp
  with \<open>k < d\<close> \<open>d < INPUT_BUF\<close> show False by (auto dest: dvd_imp_le)
qed

definition put_byte :: "u8 \<Rightarrow> input_t \<Rightarrow> input_t" where
  "put_byte b q = q\<lparr>in_buf := (in_buf q)[in_slot (in_e q) := b], in_e := in_e q + 1\<rparr>"

lemma typed_put:
  assumes "length (in_buf q) = INPUT_BUF" "length (typed q) < INPUT_BUF"
  shows "typed (put_byte b q) = typed q @ [b]"
proof -
  let ?d = "length (typed q)"
  have e: "in_e q + 1 - in_r q = in_e q - in_r q + 1" by simp
  have "unat (in_e q + 1 - in_r q) = Suc (unat (in_e q - in_r q))"
    unfolding e using assms(2) by (simp add: length_typed INPUT_BUF_def unat_word_ariths)
  then have "typed (put_byte b q) = map (\<lambda>k. in_buf (put_byte b q) ! ((unat (in_r q) + k) mod INPUT_BUF)) [0..<?d]
      @ [in_buf (put_byte b q) ! ((unat (in_r q) + ?d) mod INPUT_BUF)]"
    by (simp add: typed_def put_byte_def)
  also have "\<dots> = typed q @ [b]"
    using slots_differ [OF _ assms(2), THEN not_sym] assms(1)
    by (auto simp: put_byte_def slot_e typed_def INPUT_BUF_def)
  finally show ?thesis .
qed

lemma typed_erase:
  assumes "typed q \<noteq> []"
  shows "typed (q\<lparr>in_e := in_e q - 1\<rparr>) = butlast (typed q)"
proof -
  have "in_e q - in_r q \<noteq> 0" using assms length_typed [of q] by (metis length_0_conv unsigned_0)
  moreover have e: "in_e q - 1 - in_r q = in_e q - in_r q - 1" by simp
  ultimately have "unat (in_e q - 1 - in_r q) = unat (in_e q - in_r q) - 1"
    unfolding e by (simp add: unat_minus_one)
  then show ?thesis by (simp add: typed_def butlast_conv_take take_map)
qed

lemma e_eq_w: "in_e q = in_w q \<longleftrightarrow> ready q = length (typed q)"
proof -
  have "ready q = length (typed q) \<longleftrightarrow> in_w q - in_r q = in_e q - in_r q"
    by (simp add: ready_def length_typed word_unat_eq_iff)
  then show ?thesis by auto
qed

lemma last_typed:
  assumes "typed q \<noteq> []"
  shows "in_buf q ! in_slot (in_e q - 1) = last (typed q)"
proof -
  have "in_slot (in_e (q\<lparr>in_e := in_e q - 1\<rparr>)) = (unat (in_r q) + (length (typed q) - 1)) mod INPUT_BUF"
    unfolding slot_e typed_erase [OF assms] by simp
  moreover have "length (typed q) - 1 < length (typed q)" using assms by simp
  ultimately show ?thesis using assms by (simp add: last_conv_nth) (simp add: typed_def)
qed

definition erase :: "input_t \<Rightarrow> input_t" where
  "erase q = q\<lparr>in_e := in_e q - 1\<rparr>"

lemma line_inv_erase:
  assumes "line_inv q" "in_e q \<noteq> in_w q"
  shows "line_inv (erase q)" "line_state (erase q) = (fst (line_state q), butlast (snd (line_state q)))"
    "in_buf q ! in_slot (in_e q - 1) \<noteq> 10"
proof -
  have r: "ready q < length (typed q)" using assms e_eq_w [of q] by (auto simp: line_inv_def)
  then have ne: "typed q \<noteq> []" by auto
  have t: "typed (erase q) = butlast (typed q)" "ready (erase q) = ready q" "in_buf (erase q) = in_buf q"
    using typed_erase [OF ne] by (simp_all add: erase_def ready_def)
  have d: "drop (ready q) (butlast (typed q)) = butlast (drop (ready q) (typed q))"
    using r by (simp add: butlast_conv_take drop_take)
  then have "10 \<notin> set (drop (ready q) (butlast (typed q)))" using assms(1) by (auto simp: line_inv_def dest: in_set_butlastD)
  then show "line_inv (erase q)" using assms(1) r by (auto simp: line_inv_def t)
  show "line_state (erase q) = (fst (line_state q), butlast (snd (line_state q)))"
    using r d by (simp add: line_state_def t take_butlast)
  have "last (typed q) \<in> set (drop (ready q) (typed q))"
    using r by (metis last_drop last_in_set drop_eq_Nil not_le)
  with assms(1) show "in_buf q ! in_slot (in_e q - 1) \<noteq> 10" by (auto simp: last_typed [OF ne] line_inv_def)
qed

lemma line_state_w: "in_e q = in_w q \<Longrightarrow> line_state q = (typed q, [])"
  using e_eq_w [of q] by (simp add: line_state_def)

lemma line_inv_commit:
  assumes "length (in_buf q) = INPUT_BUF" "length (typed q) \<le> INPUT_BUF"
  shows "line_inv (q\<lparr>in_w := in_e q\<rparr>)" "line_state (q\<lparr>in_w := in_e q\<rparr>) = (fst (line_state q) @ snd (line_state q), [])"
proof -
  have t: "typed (q\<lparr>in_w := in_e q\<rparr>) = typed q" by (simp add: typed_def)
  have r: "ready (q\<lparr>in_w := in_e q\<rparr>) = length (typed q)" by (simp add: ready_def length_typed)
  show "line_inv (q\<lparr>in_w := in_e q\<rparr>)" using assms unfolding line_inv_def t r by simp
  show "line_state (q\<lparr>in_w := in_e q\<rparr>) = (fst (line_state q) @ snd (line_state q), [])"
    unfolding line_state_def t r by simp
qed

lemma put_byte_state:
  assumes "line_inv q" "length (typed q) < INPUT_BUF"
  shows "line_state (put_byte b q) = (fst (line_state q), snd (line_state q) @ [b])"
    "typed (put_byte b q) = typed q @ [b]" "ready (put_byte b q) = ready q"
    "length (in_buf (put_byte b q)) = INPUT_BUF"
proof -
  show t: "typed (put_byte b q) = typed q @ [b]" using assms by (intro typed_put) (auto simp: line_inv_def)
  show r: "ready (put_byte b q) = ready q" by (simp add: ready_def put_byte_def)
  show "length (in_buf (put_byte b q)) = INPUT_BUF" using assms by (simp add: put_byte_def line_inv_def)
  show "line_state (put_byte b q) = (fst (line_state q), snd (line_state q) @ [b])"
    using assms(1) by (simp add: line_state_def t r line_inv_def)
qed

lemma upd_input_simps [simp]:
  "screen_ok (upd_input f s) = screen_ok s" "held (upd_input f s) = held s" "input (upd_input f s) = f (input s)"
  by (simp_all add: upd_input_def screen_ok_def)

text \<open>\<open>edits l s r\<close>: the routine returns, keeps the screen and the locks, and its line state is \<open>l\<close>.\<close>

definition edits :: "u8 list \<times> u8 list \<Rightarrow> 'a consst_scheme \<Rightarrow> ('a consst_scheme, 'b) res \<Rightarrow> bool" where
  "edits l s r \<longleftrightarrow> (\<exists>d t. r = Ok d t \<and> screen_ok t \<and> held t = held s \<and> line_inv (input t) \<and> line_state (input t) = l)"

lemma ex_False [simp]: "Ex Not"
  by blast

lemma edits_Ok: "screen_ok s \<Longrightarrow> line_inv (input s) \<Longrightarrow> edits (line_state (input s)) s (Ok d s)"
  by (simp add: edits_def)

lemma edits_bind:
  assumes "edits l s r" "\<And>a t. r = Ok a t \<Longrightarrow> screen_ok t \<Longrightarrow> held t = held s \<Longrightarrow> line_inv (input t) \<Longrightarrow> line_state (input t) = l \<Longrightarrow> edits l' t (f a t)"
  shows "edits l' s (rbind r f)"
proof -
  obtain a t where r: "r = Ok a t" "screen_ok t" "held t = held s" "line_inv (input t)" "line_state (input t) = l"
    using assms(1) by (auto simp: edits_def)
  with assms(2) [OF r] show ?thesis by (simp add: edits_def)
qed

lemma consputc_after:
  assumes "screen_ok s" "line_inv (input s)"
  shows "edits (line_state (input s)) s (consputc c s)"
  using consputc_prints [OF assms(1), of c] assms(2) same_but_output_simps
  by (fastforce simp: prints_def edits_def)

lemma kill_line_edits:
  fixes s :: "'a consst_scheme"
  shows "screen_ok s \<Longrightarrow> line_inv (input s) \<Longrightarrow> length (snd (line_state (input s))) < n \<Longrightarrow>
     edits (fst (line_state (input s)), []) s (kill_line n s)"
proof (induction n arbitrary: s)
  case (Suc n)
  show ?case
  proof (cases "in_e (input s) = in_w (input s)")
    case True
    with Suc.prems edits_Ok [of s "()"] line_state_w [OF True] show ?thesis by simp
  next
    case False
    note e = line_inv_erase [OF Suc.prems(2) False]
    let ?s = "upd_input erase s"
    have ne: "snd (line_state (input s)) \<noteq> []"
      using False Suc.prems(2) e_eq_w [of "input s"] by (auto simp: line_state_def line_inv_def)
    have l: "length (snd (line_state (input s))) - 1 < n"
      using Suc.prems(3) ne by (cases "snd (line_state (input s))") auto
    have "edits (line_state (input ?s)) ?s (consputc BACKSPACE ?s)"
      using Suc.prems e(1) by (intro consputc_after) simp_all
    moreover have "edits (fst (line_state (input s)), []) t (kill_line n t)"
      if "screen_ok t" "line_inv (input t)" "line_state (input t) = line_state (input ?s)" for t :: "'a consst_scheme"
      using Suc.IH [of t] that e(2) l by simp
    ultimately have "edits (fst (line_state (input s)), []) ?s (rbind (consputc BACKSPACE ?s) (\<lambda>_ s. kill_line n s))"
      by (intro edits_bind [of "line_state (input ?s)"]) auto
    with False e(3) show ?thesis by (simp add: edits_def erase_def [abs_def])
  qed
qed simp

lemma room_iff: "in_e q - in_r q < of_nat INPUT_BUF \<longleftrightarrow> length (typed q) < INPUT_BUF"
  by (simp add: word_less_nat_alt length_typed INPUT_BUF_def)

lemma full_iff: "in_e q = in_r q + of_nat INPUT_BUF \<longleftrightarrow> length (typed q) = INPUT_BUF"
proof -
  have "in_e q = in_r q + of_nat INPUT_BUF \<longleftrightarrow> in_e q - in_r q = 128" by (auto simp: INPUT_BUF_def algebra_simps)
  also have "\<dots> \<longleftrightarrow> unat (in_e q - in_r q) = 128" by (simp add: word_unat_eq_iff)
  finally show ?thesis by (simp add: length_typed INPUT_BUF_def)
qed

lemma state_lengths: "line_inv q \<Longrightarrow> length (fst (line_state q)) + length (snd (line_state q)) = length (typed q)"
  by (simp add: line_state_def line_inv_def)

text \<open>Storing one byte, with or without giving the line to the readers.\<close>

lemma store_byte_edits:
  fixes b :: int
  assumes s: "screen_ok s" "line_inv (input s)" "length (typed (input s)) < INPUT_BUF" "L_ptable \<notin> set (held s)"
  defines "u \<equiv> upd_input (put_byte (word_of_int b)) s"
  defines "ed \<equiv> snd (line_state (input s)) @ [word_of_int b]"
  defines "fin \<equiv> b = 10 \<or> b = ctrl CHR ''D'' \<or> length (typed (input s)) + 1 = INPUT_BUF"
  assumes b: "b \<noteq> 10 \<longrightarrow> (word_of_int b :: u8) \<noteq> 10"
  shows "edits (if fin then (fst (line_state (input s)) @ ed, []) else (fst (line_state (input s)), ed)) s
    (rbind (consputc b u) (\<lambda>_ s.
       if b = 10 \<or> b = ctrl CHR ''D'' \<or> in_e (input s) = in_r (input s) + of_nat INPUT_BUF
       then rbind (wakeup (Some Ch_input) (upd_input (\<lambda>q. q\<lparr>in_w := in_e q\<rparr>) s)) (\<lambda>_ s. Ok False s)
       else Ok False s))"
proof -
  note p = put_byte_state [OF s(2,3), of "word_of_int b"]
  obtain t where t: "consputc b u = Ok () t" "screen_ok t" "same_but_output u t"
    using consputc_prints [of u b] s(1) by (auto simp: prints_def u_def)
  have i: "input t = put_byte (word_of_int b) (input s)" "held t = held s"
    using same_but_output_simps(1,2) [OF t(3)] by (simp_all add: u_def)
  have full: "in_e (input t) = in_r (input t) + of_nat INPUT_BUF \<longleftrightarrow> length (typed (input s)) + 1 = INPUT_BUF"
    unfolding full_iff i p by simp
  show ?thesis
  proof (cases fin)
    case True
    let ?v = "upd_input (\<lambda>q. q\<lparr>in_w := in_e q\<rparr>) t"
    have "wakeup (Some Ch_input) ?v = Ok () (wakeup1 (Some Ch_input) ?v)"
      using s(4) i(2) by (intro wakeup_eq) simp
    moreover have "input (wakeup1 (Some Ch_input) ?v) = input ?v" "screen_ok (wakeup1 (Some Ch_input) ?v) = screen_ok ?v"
      by (simp_all add: wakeup1_def screen_ok_def)
    moreover have "line_inv (input ?v)" "line_state (input ?v) = (fst (line_state (input s)) @ ed, [])"
      using line_inv_commit [of "input t"] s(3) by (simp_all add: i p ed_def)
    ultimately show ?thesis using True t i full by (simp add: edits_def fin_def)
  next
    case False
    have "line_inv (input t)"
      using s(2,3) b False unfolding line_inv_def i p by (auto simp: fin_def)
    moreover have "line_state (input t) = (fst (line_state (input s)), ed)" by (simp add: i p ed_def)
    ultimately show ?thesis using False t i full by (simp add: edits_def fin_def)
  qed
qed

lemma byte_not_newline:
  assumes "0 \<le> b" "b < 256" "b \<noteq> 10"
  shows "(word_of_int b :: u8) \<noteq> 10"
proof
  assume "(word_of_int b :: u8) = 10"
  then have "uint (word_of_int b :: u8) = 10" by simp
  with assms show False by (simp add: uint_word_of_int)
qed

lemma consoleintr_char_edits:
  assumes "screen_ok s" "line_inv (input s)" "L_ptable \<notin> set (held s)" "0 \<le> c" "c < 256"
  shows "edits (key c (line_state (input s))) s (consoleintr_char c s)"
proof -
  obtain pend ed where l: "line_state (input s) = (pend, ed)" by force
  note d = consoleintr_char_def key_def l
  consider "c = ctrl CHR ''P''" | "c = ctrl CHR ''U''" | "c = ctrl CHR ''H'' \<or> c = 0x7F"
    | "c \<noteq> ctrl CHR ''P''" "c \<noteq> ctrl CHR ''U''" "\<not> (c = ctrl CHR ''H'' \<or> c = 0x7F)" by blast
  then show ?thesis
  proof cases
    case 1 with assms edits_Ok [of s True] show ?thesis by (simp add: d)
  next
    case 2
    have "length ed \<le> INPUT_BUF" using assms(2) state_lengths [OF assms(2)] by (simp add: l line_inv_def)
    then have "edits (pend, []) s (kill_line (INPUT_BUF + 1) s)"
      using kill_line_edits [OF assms(1,2), of "INPUT_BUF + 1"] by (simp add: l)
    then have "edits (pend, []) s (rbind (kill_line (INPUT_BUF + 1) s) (\<lambda>_ s. Ok False s))"
      by (rule edits_bind) (auto simp: edits_def)
    with 2 show ?thesis by (simp add: d ctrl_def)
  next
    case 3
    then have c: "c \<noteq> ctrl CHR ''P''" "c \<noteq> ctrl CHR ''U''" by (auto simp: ctrl_def)
    show ?thesis
    proof (cases "in_e (input s) = in_w (input s)")
      case True
      with assms edits_Ok [of s False] line_state_w [OF True] c 3 show ?thesis by (auto simp: d)
    next
      case False
      note e = line_inv_erase [OF assms(2) False]
      let ?s = "upd_input erase s"
      have "edits (line_state (input ?s)) ?s (consputc BACKSPACE ?s)"
        using assms e(1) by (intro consputc_after) simp_all
      then have "edits (pend, butlast ed) ?s (rbind (consputc BACKSPACE ?s) (\<lambda>_ s. Ok False s))"
        by (rule edits_bind) (simp add: edits_def e l)
      then have "edits (pend, butlast ed) s (rbind (consputc BACKSPACE ?s) (\<lambda>_ s. Ok False s))"
        by (simp add: edits_def)
      with False c 3 show ?thesis by (simp add: d erase_def [abs_def])
    qed
  next
    case 4
    have len: "length pend + length ed = length (typed (input s))" using state_lengths [OF assms(2)] by (simp add: l)
    show ?thesis
    proof (cases "c \<noteq> 0 \<and> length (typed (input s)) < INPUT_BUF")
      case False
      with assms edits_Ok [of s False] 4 len show ?thesis by (auto simp: d room_iff)
    next
      case True
      define b where "b = (if c = 13 then 10 else c)"
      have "b \<noteq> 10 \<longrightarrow> (word_of_int b :: u8) \<noteq> 10" using byte_not_newline assms(4,5) by (auto simp: b_def)
      note store = store_byte_edits [OF assms(1,2) conjunct2 [OF True] assms(3) this, unfolded l fst_conv snd_conv]
      have k: "key c (pend, ed) = (if b = 10 \<or> b = ctrl CHR ''D'' \<or> length (typed (input s)) + 1 = INPUT_BUF
          then (pend @ ed @ [word_of_int b], []) else (pend, ed @ [word_of_int b]))"
        using 4 True len by (auto simp: key_def Let_def b_def)
      have "consoleintr_char c s = rbind (consputc b (upd_input (put_byte (word_of_int b)) s)) (\<lambda>_ s.
          if b = 10 \<or> b = ctrl CHR ''D'' \<or> in_e (input s) = in_r (input s) + of_nat INPUT_BUF
          then rbind (wakeup (Some Ch_input) (upd_input (\<lambda>q. q\<lparr>in_w := in_e q\<rparr>) s)) (\<lambda>_ s. Ok False s)
          else Ok False s)"
        using 4 True unfolding consoleintr_char_def Let_def room_iff put_byte_def [abs_def] b_def [symmetric]
        by (simp only: if_False if_True simp_thms)
      with store show ?thesis by (simp only: l k)
    qed
  qed
qed

lemma consoleintr_loop_edits:
  fixes s :: "'a consst_scheme"
  assumes "screen_ok s" "line_inv (input s)" "L_ptable \<notin> set (held s)" "\<forall>c\<in>set cs. 0 \<le> c \<and> c < 256"
  shows "edits (fold key cs (line_state (input s))) s (consoleintr_loop cs dump s)"
  using assms
proof (induction cs arbitrary: s dump)
  case Nil then show ?case by (simp add: edits_Ok)
next
  case (Cons c cs)
  have "edits (key c (line_state (input s))) s (consoleintr_char c s)"
    using Cons.prems by (intro consoleintr_char_edits) auto
  then have "edits (fold key cs (key c (line_state (input s)))) s
      (rbind (consoleintr_char c s) (\<lambda>d s. consoleintr_loop cs (dump \<or> d) s))"
  proof (rule edits_bind)
    fix d and t :: "'a consst_scheme"
    assume "screen_ok t" "held t = held s" "line_inv (input t)" "line_state (input t) = key c (line_state (input s))"
    with Cons.IH [of t "dump \<or> d"] Cons.prems show
      "edits (fold key cs (key c (line_state (input s)))) t (consoleintr_loop cs (dump \<or> d) t)" by simp
  qed
  with Cons.prems show ?case by simp
qed

text \<open>
  C31. The keyboard handler implements the line editor: from a state in which the ring buffer's indices are
  consistent, \<^verbatim>\<open>consoleintr\<close> on any sequence of key codes returns, keeps that invariant and its locks, and takes the pair of lists
  (bytes for the readers, line being edited) through the editor's steps in order; a line is handed over
  by a newline, a Control-D or a full buffer, and indices may wrap around.
\<close>

theorem consoleintr_refines:
  assumes "screen_ok s" "line_inv (input s)" "held s = []" "\<forall>c\<in>set cs. 0 \<le> c \<and> c < 256"
  shows "\<exists>t. consoleintr cs pcs s = Ok () t \<and> line_inv (input t) \<and> held t = [] \<and> screen_ok t
    \<and> line_state (input t) = fold key cs (line_state (input s))"
proof -
  let ?l = "s\<lparr>held := [L_cons]\<rparr>"
  have "edits (fold key cs (line_state (input ?l))) ?l (consoleintr_loop cs False ?l)"
    using assms by (intro consoleintr_loop_edits) (simp_all add: screen_ok_def)
  then obtain d t where t: "consoleintr_loop cs False ?l = Ok d t" "screen_ok t" "held t = [L_cons]"
      "line_inv (input t)" "line_state (input t) = fold key cs (line_state (input s))"
    by (auto simp: edits_def)
  let ?u = "t\<lparr>held := []\<rparr>"
  have "prints (procdump pcs ?u) ?u"
    using t(2) by (simp add: procdump_def procdump_loop_prints screen_ok_def)
  then have "prints (if d then procdump pcs ?u else Ok () ?u) ?u" using t(2) by (simp add: prints_def screen_ok_def)
  then obtain v where v: "(if d then procdump pcs ?u else Ok () ?u) = Ok () v" "screen_ok v" "same_but_output ?u v"
    by (auto simp: prints_def)
  moreover have "input v = input t" "held v = []" using same_but_output_simps(1,2) [OF v(3)] by simp_all
  moreover have "consoleintr cs pcs s = (if d then procdump pcs ?u else Ok () ?u)"
    using t assms(3) by (simp add: consoleintr_def)
  ultimately show ?thesis using t by auto
qed

theorem consoleintr_refines_witness:
  "\<exists>t. consoleintr [0x68, 0x6A, 8, 0x69, 13, 0x6B] (\<lambda>_. []) tty0 = Ok () t
     \<and> line_state (input t) = fold key [0x68, 0x6A, 8, 0x69, 13, 0x6B] (line_state (input tty0))"
proof -
  have "line_inv (input tty0)"
    by (simp add: tty0_def fsst.defs line_inv_def ready_def typed_def)
  then show ?thesis using consoleintr_refines [of tty0 "[0x68, 0x6A, 8, 0x69, 13, 0x6B]" "\<lambda>_. []"] by auto
qed

end
