(* ===== verification/Spec2Isabelle.thy ===== *)
theory Spec2Isabelle
  imports Mkfs Trap Coreutils Sh Tty
begin

text \<open>
  A model of the operating system under \<^verbatim>\<open>src/\<close>, xv6 for x86 with a priority scheduler, a
  \<^verbatim>\<open>setpriority\<close> system call and lazy allocation of user memory, with theorems about it.

  \<^bold>\<open>The program.\<close> The kernel is layered. Spin locks (\<^verbatim>\<open>spinlock.c\<close>) protect the process table and the
  scheduler (\<^verbatim>\<open>proc.c\<close>), which give \<^verbatim>\<open>sleep\<close>, \<^verbatim>\<open>wakeup\<close> and so sleep locks (\<^verbatim>\<open>sleeplock.c\<close>). Pages come from
  \<^verbatim>\<open>kalloc.c\<close> and are mapped by \<^verbatim>\<open>vm.c\<close>. The file system stacks a disk driver (\<^verbatim>\<open>ide.c\<close>), a buffer
  cache (\<^verbatim>\<open>bio.c\<close>), a write-ahead log (\<^verbatim>\<open>log.c\<close>), inodes, directories and paths (\<^verbatim>\<open>fs.c\<close>) and open files
  (\<^verbatim>\<open>file.c\<close>). \<^verbatim>\<open>exec.c\<close>, \<^verbatim>\<open>sysproc.c\<close>, \<^verbatim>\<open>sysfile.c\<close>, \<^verbatim>\<open>syscall.c\<close> and \<^verbatim>\<open>trap.c\<close> connect them to user programs.

  \<^bold>\<open>How it is modelled.\<close> A kernel routine is a function from the kernel's state to an outcome
  (\<open>res\<close> in \<open>Prelude\<close>): it returns, panics, or gives up the CPU and is resumed later in a state that
  the other threads have made. Outcomes are a codatatype, so a routine may sleep any number of
  times; \<open>succeeds\<close> says that a routine returns without sleeping, \<open>safe\<close> that it never panics, what
  holds whenever it gives up the CPU and what holds when it returns. A null pointer that the code
  dereferences is \<open>Panic ''nullptr''\<close> and an index out of range is \<open>Panic ''bounds''\<close>. The state is one
  record that each component extends, in the order \<open>klock\<close>, \<open>ptab\<close>, \<open>kmem\<close>, \<open>pipest\<close>, \<open>slst\<close>, \<open>bst\<close>,
  \<open>logst\<close>, \<open>fsst\<close>, \<open>consst\<close>, \<open>ftst\<close>, \<open>kst\<close>; a routine of a component works on every extension of its
  record, so its frame is part of its type. C integers are words of their width where they can wrap
  around. A pointer to an element of a kernel table is its index; a pointer to memory is its address.

  \<^bold>\<open>The theories.\<close>
  \<^item> \<open>Prelude\<close>: outcomes and their rules, lock and channel names, first-match table scans.
  \<^item> \<open>Spinlock\<close> (\<^verbatim>\<open>spinlock.c\<close>): the locks as one CPU sees them, and a machine that interleaves the memory
    accesses of all CPUs. Mutual exclusion and the exact conditions of the panics are proved by
    induction over its steps, and the first view simulates each CPU of the second.
  \<^item> \<open>Cstring\<close> (\<^verbatim>\<open>string.c\<close>): each routine against what the C standard says of it, overlap included.
  \<^item> \<open>Sched\<close> (\<^verbatim>\<open>proc.c\<close>, \<^verbatim>\<open>proc.h\<close>): the process table, \<^verbatim>\<open>sched\<close>, \<^verbatim>\<open>sleep\<close>, \<^verbatim>\<open>wakeup\<close>, \<^verbatim>\<open>kill\<close>, \<^verbatim>\<open>setpriority\<close> and a
    round of the scheduler. The selection loop equals its specification, ageing is bounded, and the
    strict comparison starves later processes of the top priority.
  \<^item> \<open>Kalloc\<close>, \<open>Vm\<close>, \<open>Lazy\<close> (\<^verbatim>\<open>kalloc.c\<close>, \<^verbatim>\<open>vm.c\<close>, and \<^verbatim>\<open>growproc\<close> and \<^verbatim>\<open>handle_lazy_allocation\<close>): the free
    list, two-level page tables in memory, and the faults that map pages on demand.
  \<^item> \<open>Pipe\<close>, \<open>Sleeplock\<close> (\<^verbatim>\<open>pipe.c\<close>, \<^verbatim>\<open>sleeplock.c\<close>): blocking operations, proved for every behaviour of
    the other threads that keeps the invariant.
  \<^item> \<open>Ide\<close>, \<open>Bio\<close>, \<open>Cache\<close> (\<^verbatim>\<open>ide.c\<close>, \<^verbatim>\<open>bio.c\<close>): the request queue, the recency list, and the contract of the
    cache: the current contents of every block, and what \<^verbatim>\<open>bread\<close>, \<^verbatim>\<open>bwrite\<close> and \<^verbatim>\<open>brelse\<close> do to them.
  \<^item> \<open>Layout\<close> (\<^verbatim>\<open>fs.h\<close>): the codecs of the on-disk structures; arrays in a block are a locale.
  \<^item> \<open>Log\<close>, \<open>Crash\<close> (\<^verbatim>\<open>log.c\<close>): the log, and what a crash at any point leaves on the disk.
  \<^item> \<open>Inode\<close>, \<open>Fs\<close>, \<open>File\<close> (\<^verbatim>\<open>fs.c\<close>, \<^verbatim>\<open>file.c\<close>): blocks, inodes, contents, directories, paths, open files.
  \<^item> \<open>Blocks\<close>, \<open>Contents\<close>, \<open>Dirs\<close>: what \<^verbatim>\<open>fs.c\<close> promises on top of the cache and the log. A transaction logs
    exactly the blocks it may change; \<^verbatim>\<open>balloc\<close> hands out free blocks; the contents of a file, read off
    its blocks, are what \<^verbatim>\<open>readi\<close> returns and what \<^verbatim>\<open>writei\<close> changes; \<^verbatim>\<open>dirlookup\<close> searches the list of entries
    and \<^verbatim>\<open>iget\<close> keeps the inode cache well formed; \<^verbatim>\<open>skipelem\<close> splits paths.
  \<^item> \<open>Mkfs\<close> (\<^verbatim>\<open>mkfs.c\<close>): the host program that builds the image. The image holds the files of the command
    line as the kernel's own notions of contents and directory entries read them.
  \<^item> \<open>Console\<close>, \<open>Tty\<close> (\<^verbatim>\<open>console.c\<close>, \<^verbatim>\<open>kbd.c\<close>, \<^verbatim>\<open>uart.c\<close>): output stays on the screen, and the keyboard
    handler refines a line editor.
  \<^item> \<open>Proc\<close>, \<open>Exec\<close>, \<open>Args\<close>, \<open>Sysproc\<close>, \<open>Sysfile\<close>, \<open>Syscall\<close>, \<open>Trap\<close>: processes, system calls and traps.
  \<^item> \<open>User\<close>, \<open>Grep\<close>, \<open>Coreutils\<close>, \<open>Sh\<close> (\<^verbatim>\<open>ulib.c\<close>, \<^verbatim>\<open>printf.c\<close>, the user programs and \<^verbatim>\<open>sh.c\<close>): a program
    is a tree of system calls with a continuation for each result.

  \<^bold>\<open>Bounds and fuel.\<close> Loops over kernel tables recurse over the table; loops up to a 32-bit field have
  that field as their measure. The log loops carry \<open>LOGSIZE\<close> as fuel and panic beyond it, which is
  where the code would leave its array. The mutually recursive parser of the shell carries
  \<open>4 * length s + 4\<close>, which is proved to be enough for every input.

  \<^bold>\<open>Not modelled.\<close> Boot code, assembly, and the programming of interrupt controllers and of the serial
  port have no effect on state that the sources describe. The generated vectors and segment and
  interrupt descriptor tables are constants of the hardware interface. The test programs only drive
  the system. Concurrency is modelled at the level of the code's own synchronisation: between two
  points at which a thread gives up the CPU, the data that its locks protect changes only by its own
  steps, which \<open>Spinlock\<close> justifies for the locks themselves.
\<close>

end
